(* ===== verification/Sl_Prelude.thy ===== *)
theory Sl_Prelude
  imports Main "HOL-Library.Word"
begin

text \<open>
  Shared vocabulary of the development: the machine-integer types of the library, the value
  types of \<^verbatim>\<open>sl::meta\<close> the sources pass around (\<open>meta::maybe\<close>, \<open>meta::result\<close>), and the
  bit-level facts every packed word of the library rests on. Nothing here models a source file.
\<close>

unbundle bit_operations_syntax

type_synonym u64 = "64 word"
type_synonym u32 = "32 word"

text \<open>
  \<open>meta::maybe<T>\<close> is an optional value and \<open>meta::result<V, E>\<close> a value or an error: the sources
  use them only as data, so they are the library types \<open>option\<close> and sum (\<open>Inl\<close> the error,
  \<open>Inr\<close> the value). A slot receives a \<open>meta::maybe<meta::result<V, E>>\<close>: a value, an error,
  or null, which is how cancellation is signalled.
\<close>

type_synonym ('v, 'e) result = "'e + 'v"
type_synonym ('v, 'e) maybe_result = "('v, 'e) result option"

named_theorems bit_pack "bit-level facts about packed words"
named_theorems run_simps "solo runs of atomic programs, evaluated"

text \<open>Bit-extensional equality of words, as an introduction rule for \<open>auto\<close>.\<close>

lemma word_eq_bitsI:
  fixes x y :: "'a::len word"
  assumes "\<And>n. n < LENGTH('a) \<Longrightarrow> bit x n = bit y n"
  shows "x = y"
  using assms by (intro bit_word_eqI) auto

lemma bit_lt_len: "bit (x :: 'a::len word) n \<Longrightarrow> n < LENGTH('a)"
  by (rule bit_imp_le_length)

lemma ones_eq_mask: "push_bit w 1 - 1 = (mask w :: 'a::len word)"
  by (simp add: mask_eq_exp_minus_1 push_bit_eq_mult)

lemma and_exp_eq_exp_iff:
  fixes x :: "'a::len word"
  assumes "j < LENGTH('a)"
  shows "x AND 2 ^ j = 2 ^ j \<longleftrightarrow> bit x j"
proof
  assume eq: "x AND 2 ^ j = 2 ^ j"
  have "bit (x AND 2 ^ j) j" unfolding eq using assms by (simp add: bit_exp_iff)
  then show "bit x j" by (simp add: bit_and_iff)
next
  assume "bit x j"
  then show "x AND 2 ^ j = 2 ^ j"
    by (intro word_eq_bitsI) (auto simp: bit_and_iff bit_exp_iff)
qed

lemma unat_and_mask: "unat (x AND mask n :: 'a::len word) = unat x mod 2 ^ n"
proof -
  have "unat (x AND mask n) = unat (take_bit n x)" by (simp only: take_bit_eq_mask)
  also have "\<dots> = take_bit n (unat x)" by (rule unsigned_take_bit_eq)
  also have "\<dots> = unat x mod 2 ^ n" by (rule take_bit_eq_mod)
  finally show ?thesis .
qed

lemma distinct_if_count_le_1: "(\<And>x. count_list xs x \<le> 1) \<Longrightarrow> distinct xs"
proof (induction xs)
  case (Cons a xs)
  have "count_list xs x \<le> 1" for x using Cons.prems [of x] by (simp split: if_splits)
  moreover have "count_list xs a = 0" using Cons.prems [of a] by simp
  ultimately show ?case using Cons.IH by (simp add: count_list_0_iff)
qed simp

lemma count_list_distinct: "distinct xs \<Longrightarrow> count_list xs x = of_bool (x \<in> set xs)"
  by (induction xs) (auto simp: count_list_0_iff)

text \<open>
  The number of the first \<open>N\<close> agents of a system whose phase satisfies a predicate, and how one agent's
  step changes it.
\<close>

definition num :: "nat \<Rightarrow> ('p \<Rightarrow> bool) \<Rightarrow> (nat \<Rightarrow> 'p) \<Rightarrow> nat" where
  "num N P ph = (\<Sum>i<N. of_bool (P (ph i)))"

lemma sum_phase_upd:
  fixes N :: nat and f :: "'p \<Rightarrow> 'b::comm_monoid_add"
  assumes "i < N"
  shows "(\<Sum>j<N. f ((ph(i := x)) j)) + f (ph i) = (\<Sum>j<N. f (ph j)) + f x"
proof -
  have "(\<Sum>j<N. f ((ph(i := x)) j)) = f x + (\<Sum>j\<in>{..<N} - {i}. f (ph j))"
    using assms by (subst sum.remove [of _ i]) (auto intro!: sum.cong)
  moreover have "(\<Sum>j<N. f (ph j)) = f (ph i) + (\<Sum>j\<in>{..<N} - {i}. f (ph j))"
    using assms by (subst sum.remove [of _ i]) auto
  ultimately show ?thesis by (simp add: ac_simps)
qed

lemma num_upd: "i < N \<Longrightarrow> num N P (ph(i := x)) + of_bool (P (ph i)) = num N P ph + of_bool (P x)"
  unfolding num_def by (rule sum_phase_upd [of i N "\<lambda>p. of_bool (P p)"])

lemma num_change:
  assumes "i < N" "ph i = p"
  shows "num N P (ph(i := x)) = num N P ph + of_bool (P x) - of_bool (P p)"
    and "of_bool (P p) \<le> num N P ph"
proof -
  show ge: "of_bool (P p) \<le> num N P ph"
    unfolding num_def assms(2) [symmetric] by (rule member_le_sum) (use assms(1) in auto)
  show "num N P (ph(i := x)) = num N P ph + of_bool (P x) - of_bool (P p)"
    using num_upd [OF assms(1), of P ph x] ge assms(2) by simp
qed

lemma num_le: "num N P ph \<le> N"
  unfolding num_def by (rule order_trans [OF sum_bounded_above [where K = 1]]) auto

lemma num_pos: "i < N \<Longrightarrow> P (ph i) \<Longrightarrow> 0 < num N P ph"
  by (auto simp: num_def card_gt_0_iff)

lemma num_all: "num N P ph = N \<longleftrightarrow> (\<forall>i<N. P (ph i))"
proof (induction N)
  case (Suc N)
  have "num (Suc N) P ph = num N P ph + of_bool (P (ph N))" by (simp add: num_def)
  then show ?case using Suc num_le [of N P ph] by (auto simp: less_Suc_eq)
qed (simp add: num_def)

lemma num_none: "num N P ph = 0 \<longleftrightarrow> (\<forall>i<N. \<not> P (ph i))"
  by (auto simp: num_def)

lemma num_one: "num N P ph \<le> 1 \<Longrightarrow> i < N \<Longrightarrow> j < N \<Longrightarrow> P (ph i) \<Longrightarrow> P (ph j) \<Longrightarrow> i = j"
proof (rule ccontr)
  assume a: "num N P ph \<le> 1" "i < N" "j < N" "P (ph i)" "P (ph j)" "i \<noteq> j"
  have "(\<Sum>k\<in>{i, j}. of_bool (P (ph k))) \<le> num N P ph"
    unfolding num_def using a by (intro sum_mono2) auto
  then show False using a by simp
qed

lemma num_card: "num N P ph = card {i. i < N \<and> P (ph i)}"
proof -
  have "num N P ph = card ({..<N} \<inter> {i. P (ph i)})" by (simp add: num_def)
  also have "{..<N} \<inter> {i. P (ph i)} = {i. i < N \<and> P (ph i)}" by auto
  finally show ?thesis .
qed

lemma num_disjoint: "(\<And>p. \<not> (P p \<and> Q p)) \<Longrightarrow> num N P ph + num N Q ph = num N (\<lambda>p. P p \<or> Q p) ph"
proof (induction N)
  case (Suc N)
  then show ?case by (simp add: num_def)
qed (simp add: num_def)

text \<open>The steps of a concrete history, one by one.\<close>

lemma less_15:
  assumes "k < (15 :: nat)" "P 0" "P 1" "P 2" "P 3" "P 4" "P 5" "P 6" "P 7" "P 8" "P 9" "P 10" "P 11" "P 12" "P 13" "P 14"
  shows "P k"
proof -
  have "k = 0 \<or> k = 1 \<or> k = 2 \<or> k = 3 \<or> k = 4 \<or> k = 5 \<or> k = 6 \<or> k = 7 \<or> k = 8 \<or> k = 9 \<or> k = 10 \<or> k = 11 \<or>
      k = 12 \<or> k = 13 \<or> k = 14" using assms(1) by presburger
  then show ?thesis using assms(2-) by (elim disjE) simp_all
qed

end
