(* ===== verification/Atomic_Prog.thy ===== *)
theory Atomic_Prog
  imports Sl_Prelude
begin

text \<open>
  Programs over shared memory. The lock-free parts of the library are sequences of atomic
  accesses (loads, stores, compare-exchanges) between which other threads run. A program is a
  tree whose inner nodes are single atomic accesses: \<open>Step g\<close> performs one access (\<open>g\<close> takes the
  memory, returns the new memory and the rest of the program), \<open>Ret a\<close> has returned \<open>a\<close>, and
  \<open>Halt\<close> stops the thread: on a failed assertion, or because a loop of the source ran out of the
  fuel its model carries. Two semantics are given: the solo run of a thread nobody interferes
  with (\<open>run\<close>), and runs with arbitrary interference by other threads before each access
  (\<open>run_rely\<close>), the environment being any relation on memory.

  Memory is sequentially consistent: the memory orders named in the sources are not modelled.
\<close>

datatype fault = Out_of_fuel | Assertion_failed

datatype (dead 'm, 'a) prog =
  Ret 'a
| Halt fault
| Step "'m \<Rightarrow> ('m, 'a) prog \<times> 'm"

primrec pbind :: "('m, 'a) prog \<Rightarrow> ('a \<Rightarrow> ('m, 'b) prog) \<Rightarrow> ('m, 'b) prog" where
  "pbind (Ret a) f = f a"
| "pbind (Halt x) f = Halt x"
| "pbind (Step g) f = Step (\<lambda>m. map_prod (\<lambda>p. pbind p f) id (g m))"

text \<open>A single access that returns a value computed from the memory and updates it.\<close>

definition access :: "('m \<Rightarrow> 'a \<times> 'm) \<Rightarrow> ('m, 'a) prog" where
  "access h = Step (\<lambda>m. map_prod Ret id (h m))"

text \<open>\<open>DEBUG_ASSERT\<close> and \<open>ASSERT\<close> in a build that checks them.\<close>

definition dassert :: "bool \<Rightarrow> ('m, 'a) prog \<Rightarrow> ('m, 'a) prog" where
  "dassert c p = (if c then p else Halt Assertion_failed)"

lemma dassert_True [simp]: "dassert True p = p"
  by (simp add: dassert_def)

lemma dassert_False [simp]: "dassert False p = Halt Assertion_failed"
  by (simp add: dassert_def)

subsection \<open>Solo runs\<close>

primrec run :: "('m, 'a) prog \<Rightarrow> 'm \<Rightarrow> (fault + 'a) \<times> 'm" where
  "run (Ret a) = (\<lambda>m. (Inr a, m))"
| "run (Halt x) = (\<lambda>m. (Inl x, m))"
| "run (Step g) = (\<lambda>m. let r = map_prod run id (g m) in fst r (snd r))"

lemma run_Step [simp]: "run (Step g) m = run (fst (g m)) (snd (g m))"
  by (simp add: Let_def)

declare run.simps(3) [simp del]

lemma run_access [simp]: "run (access h) m = (Inr (fst (h m)), snd (h m))"
  by (simp add: access_def)

lemma run_pbind:
  "run (pbind p f) m = (case run p m of (Inr a, m') \<Rightarrow> run (f a) m' | (Inl x, m') \<Rightarrow> (Inl x, m'))"
proof (induction p arbitrary: m)
  case (Step g)
  have "fst (g m) \<in> Basic_BNFs.fsts (g m)" by (simp add: fsts.simps prod.collapse)
  then show ?case using Step.IH [of "g m" "fst (g m)"] by (simp add: map_prod_def split_beta)
qed simp_all

lemma run_pbind_Inr [run_simps]: "run p m = (Inr a, m') \<Longrightarrow> run (pbind p f) m = run (f a) m'"
  by (simp add: run_pbind)

lemma run_pbind_Inl [run_simps]: "run p m = (Inl x, m') \<Longrightarrow> run (pbind p f) m = (Inl x, m')"
  by (simp add: run_pbind)

lemma run_pbind_access [simp]: "run (pbind (access h) f) m = run (f (fst (h m))) (snd (h m))"
  by (simp add: run_pbind)

lemma pbind_assoc: "pbind (pbind p f) g = pbind p (\<lambda>a. pbind (f a) g)"
proof (induction p)
  case (Step h)
  then show ?case by (auto simp: fun_eq_iff map_prod_def split: prod.splits intro: prod_eqI
      dest: arg_cong [where f = fst]) (metis Step.IH fst_conv fsts.intros rangeI)
qed simp_all

lemma pbind_Ret [simp]: "pbind p Ret = p"
proof (induction p)
  case (Step h)
  have "map_prod (\<lambda>p. pbind p Ret) id (h m) = h m" for m
  proof -
    have "fst (h m) \<in> Basic_BNFs.fsts (h m)" by (simp add: fsts.simps prod.collapse)
    then have "pbind (fst (h m)) Ret = fst (h m)" using Step.IH [of "h m" "fst (h m)"] by simp
    then show ?thesis by (simp add: map_prod_def split_beta)
  qed
  then show ?case by simp
qed simp_all

lemma pbind_Ret_unit [simp]: "pbind p (\<lambda>_. Ret ()) = (p :: ('m, unit) prog)"
  using pbind_Ret [of p] by (metis (full_types) ext unit.exhaust)

text \<open>The first \<open>n\<close> accesses of a thread, executed solo: what is left of it, and the memory.\<close>

fun steps :: "nat \<Rightarrow> ('m, 'a) prog \<Rightarrow> 'm \<Rightarrow> ('m, 'a) prog \<times> 'm" where
  "steps 0 p m = (p, m)"
| "steps (Suc n) (Step g) m = steps n (fst (g m)) (snd (g m))"
| "steps (Suc n) p m = (p, m)"

lemma run_steps: "run (fst (steps n p m)) (snd (steps n p m)) = run p m"
  by (induction n p m rule: steps.induct) simp_all

text \<open>A part that ends solo is a number of accesses after which its continuation runs.\<close>

lemma steps_pbind:
  "run p m = (Inr a, m') \<Longrightarrow> \<exists>n. \<forall>k. steps (n + k) (pbind p f) m = steps k (f a) m'"
proof (induction p arbitrary: m)
  case (Ret b)
  then show ?case by (intro exI [of _ 0]) simp
next
  case (Halt x)
  then show ?case by simp
next
  case (Step g)
  have "fst (g m) \<in> Basic_BNFs.fsts (g m)" by (simp add: fsts.simps prod.collapse)
  then obtain n where "\<forall>k. steps (n + k) (pbind (fst (g m)) f) (snd (g m)) = steps k (f a) m'"
    using Step.IH [of "g m" "fst (g m)" "snd (g m)"] Step.prems by auto
  then show ?case by (intro exI [of _ "Suc n"]) simp
qed

text \<open>What a thread can come to by its own accesses.\<close>

definition reaches :: "('m, 'a) prog \<Rightarrow> 'm \<Rightarrow> ('m, 'a) prog \<Rightarrow> 'm \<Rightarrow> bool" where
  "reaches p m p' m' \<longleftrightarrow> (\<exists>n. steps n p m = (p', m'))"

lemma steps_add: "steps (n + k) p m = steps k (fst (steps n p m)) (snd (steps n p m))"
proof (induction n arbitrary: p m)
  case (Suc n)
  then show ?case by (cases p; cases k) simp_all
qed simp

lemma reaches_refl: "reaches p m p m"
  unfolding reaches_def by (rule exI [of _ 0]) simp

lemma reaches_trans:
  assumes "reaches p m p1 m1" "reaches p1 m1 p2 m2"
  shows "reaches p m p2 m2"
proof -
  obtain n k where "steps n p m = (p1, m1)" "steps k p1 m1 = (p2, m2)"
    using assms by (auto simp: reaches_def)
  then have "steps (n + k) p m = (p2, m2)" by (simp add: steps_add)
  then show ?thesis by (auto simp: reaches_def)
qed

lemma reaches_pbind: "reaches p m p' m' \<Longrightarrow> reaches (pbind p f) m (pbind p' f) m'"
proof -
  have "reaches (pbind p f) m (pbind (fst (steps n p m)) f) (snd (steps n p m))" for n
  proof (induction n p m rule: steps.induct)
    case (2 n g m)
    then obtain k where "steps k (pbind (fst (g m)) f) (snd (g m)) =
        (pbind (fst (steps n (fst (g m)) (snd (g m)))) f, snd (steps n (fst (g m)) (snd (g m))))"
      by (auto simp: reaches_def)
    then show ?case unfolding reaches_def by (intro exI [of _ "Suc k"]) simp
  qed (simp_all add: reaches_refl)
  then show "reaches p m p' m' \<Longrightarrow> ?thesis" by (metis fst_conv reaches_def snd_conv)
qed

lemma reaches_run: "run p m = (Inr a, m') \<Longrightarrow> reaches (pbind p f) m (f a) m'"
  using steps_pbind [of p m a m' f] unfolding reaches_def by (metis add.right_neutral steps.simps(1))

lemma reaches_then:
  "run p m = (Inr a, m1) \<Longrightarrow> reaches (f a) m1 p' m' \<Longrightarrow> reaches (pbind p f) m p' m'"
  by (rule reaches_trans [OF reaches_run])

subsection \<open>Runs under interference\<close>

text \<open>
  \<open>run_rely R p m r m'\<close>: started in memory \<open>m\<close>, with an \<open>R\<close>-transition of the environment before
  every access and before the return, the program can end with \<open>r\<close> in memory \<open>m'\<close>. \<open>R\<close> describes
  any number of environment actions, so it is taken reflexive and transitive where that matters.
\<close>

inductive run_rely :: "('m \<Rightarrow> 'm \<Rightarrow> bool) \<Rightarrow> ('m, 'a) prog \<Rightarrow> 'm \<Rightarrow> fault + 'a \<Rightarrow> 'm \<Rightarrow> bool"
  for R where
  rely_ret: "R m m' \<Longrightarrow> run_rely R (Ret a) m (Inr a) m'"
| rely_halt: "R m m' \<Longrightarrow> run_rely R (Halt x) m (Inl x) m'"
| rely_step: "R m m1 \<Longrightarrow> run_rely R (fst (g m1)) (snd (g m1)) r m' \<Longrightarrow> run_rely R (Step g) m r m'"

inductive_simps rely_Ret_iff [simp]: "run_rely R (Ret a) m r m'"
inductive_simps rely_Halt_iff [simp]: "run_rely R (Halt x) m r m'"
inductive_simps rely_Step_iff: "run_rely R (Step g) m r m'"

lemma rely_access_iff:
  "run_rely R (access h) m r m' \<longleftrightarrow>
     (\<exists>m1. R m m1 \<and> r = Inr (fst (h m1)) \<and> R (snd (h m1)) m')"
  by (auto simp: access_def rely_Step_iff)

lemma rely_pbind_cases:
  assumes "run_rely R (pbind p f) m r m'" and "reflp R"
  obtains a m1 where "run_rely R p m (Inr a) m1" and "run_rely R (f a) m1 r m'"
    | x where "r = Inl x" and "run_rely R p m (Inl x) m'"
  using assms(1)
proof (induction p arbitrary: m thesis)
  case (Ret a)
  have "run_rely R (Ret a) m (Inr a) m" using \<open>reflp R\<close> by (simp add: reflpD)
  then show ?case using Ret by simp
next
  case (Halt x)
  then show ?case by (auto elim: run_rely.cases)
next
  case (Step g)
  from Step.prems(3) obtain m1 where m1: "R m m1"
    "run_rely R (pbind (fst (g m1)) f) (snd (g m1)) r m'"
    by (auto simp: rely_Step_iff)
  have mem: "g m1 \<in> range g" "fst (g m1) \<in> Basic_BNFs.fsts (g m1)" by (simp_all add: fsts.simps prod.collapse)
  show ?case
  proof (rule Step.IH [OF mem _ _ m1(2)])
    fix a m2
    assume "run_rely R (fst (g m1)) (snd (g m1)) (Inr a) m2" "run_rely R (f a) m2 r m'"
    then show thesis by (intro Step.prems(1)) (auto intro: rely_step m1(1))
  next
    fix x
    assume "r = Inl x" "run_rely R (fst (g m1)) (snd (g m1)) (Inl x) m'"
    then show thesis by (intro Step.prems(2)) (auto intro: rely_step m1(1))
  qed
qed

lemma rely_pbindI:
  assumes "run_rely R p m (Inr a) m1" and "run_rely R (f a) m1 r m'" and "transp R"
  shows "run_rely R (pbind p f) m r m'"
  using assms(1)
proof (induction p arbitrary: m)
  case (Ret a')
  from Ret have "R m m1" "a' = a" by auto
  with assms(2) have "run_rely R (f a') m r m'"
    by (cases "f a'") (auto simp: rely_Step_iff dest: transpD [OF \<open>transp R\<close>])
  then show ?case by simp
next
  case (Halt x)
  then show ?case by simp
next
  case (Step g)
  then obtain m2 where m2: "R m m2" "run_rely R (fst (g m2)) (snd (g m2)) (Inr a) m1"
    by (auto simp: rely_Step_iff)
  have "run_rely R (pbind (fst (g m2)) f) (snd (g m2)) r m'"
    by (rule Step.IH [OF _ _ m2(2)]) (simp_all add: fsts.simps prod.collapse)
  with m2(1) show ?case by (auto simp: rely_Step_iff)
qed

text \<open>The solo run is the run of an environment that does nothing.\<close>

lemma run_rely_solo: "run_rely (=) p m r m' \<longleftrightarrow> run p m = (r, m')"
proof (induction p arbitrary: m)
  case (Step g)
  have "fst (g m) \<in> Basic_BNFs.fsts (g m)" by (simp add: fsts.simps prod.collapse)
  then show ?case using Step.IH [of "g m" "fst (g m)"] by (auto simp: rely_Step_iff)
qed (auto)

text \<open>A solo run is a run under any environment that may do nothing.\<close>

lemma run_rely_of_run: "run p m = (r, m') \<Longrightarrow> (\<And>x. R x x) \<Longrightarrow> run_rely R p m r m'"
proof (induction p arbitrary: m)
  case (Step g)
  have "fst (g m) \<in> Basic_BNFs.fsts (g m)" by (simp add: fsts.simps prod.collapse)
  then have "run_rely R (fst (g m)) (snd (g m)) r m'" using Step.IH [of "g m" "fst (g m)"] Step.prems by simp
  then show ?case using Step.prems(2) by (auto simp: rely_Step_iff)
qed (auto intro: rely_ret rely_halt)

end
