(* ===== verification/Mw_Traits.thy ===== *)
theory Mw_Traits
  imports Atomic_Prog
begin

text \<open>
  The packed words of \<^verbatim>\<open>include/sl/exec/thread/detail/multiword.hpp\<close>, \<^verbatim>\<open>bits.hpp\<close> and
  \<^verbatim>\<open>tagged_ptr.hpp\<close> on a 64-bit target: a descriptor's state word holds its mutable fields in
  bits 63..32 and its sequence number in bits 31..0; a descriptor pointer holds flags in bits
  63..48, a process id in bits 47..32 and the sequence number in bits 31..0. The lemmas say how
  packing, unpacking and the flag operations act on single bits; the round trips follow.
\<close>

unbundle bit_operations_syntax

section \<open>Masks\<close>

definition fill_ones :: "nat \<Rightarrow> u64" where
  "fill_ones width = push_bit width 1 - 1"

lemma fill_ones_mask: "fill_ones w = mask w"
  unfolding fill_ones_def by (rule ones_eq_mask)

section \<open>The state word of a descriptor\<close>

definition state_width :: nat where
  "state_width = 8 * 8"

definition mutables_width :: nat where
  "mutables_width = state_width div 2"

definition st_sequence_width :: nat where
  "st_sequence_width = state_width div 2"

definition mutables_mask :: u64 where
  "mutables_mask = fill_ones mutables_width"

definition st_sequence_mask :: u64 where
  "st_sequence_mask = fill_ones st_sequence_width"

definition sequence_inc :: "u64 \<Rightarrow> u64" where
  "sequence_inc sequence = (sequence + 1) AND st_sequence_mask"

definition st_extract :: "u64 \<Rightarrow> u64 \<times> u64" where
  "st_extract state =
     (drop_bit st_sequence_width state AND mutables_mask, state AND st_sequence_mask)"

definition st_combine :: "u64 \<Rightarrow> u64 \<Rightarrow> u64" where
  "st_combine mutables sequence =
     push_bit st_sequence_width (mutables AND mutables_mask) OR (sequence AND st_sequence_mask)"

section \<open>Descriptor pointers\<close>

definition ptr_width :: nat where
  "ptr_width = 8 * 8"

definition ptr_sequence_width :: nat where
  "ptr_sequence_width = ptr_width div 2"

definition pid_width :: nat where
  "pid_width = ptr_width div 4"

definition flag_width :: nat where
  "flag_width = ptr_width div 4"

definition ptr_sequence_mask :: u64 where
  "ptr_sequence_mask = fill_ones ptr_sequence_width"

definition pid_mask :: u64 where
  "pid_mask = fill_ones pid_width"

definition flag_mask :: u64 where
  "flag_mask = fill_ones flag_width"

definition ptr_extract :: "u64 \<Rightarrow> u64 \<times> u64 \<times> u64" where
  "ptr_extract pointer =
     (drop_bit pid_width (drop_bit ptr_sequence_width pointer) AND flag_mask,
      drop_bit ptr_sequence_width pointer AND pid_mask,
      pointer AND ptr_sequence_mask)"

definition ptr_combine :: "u64 \<Rightarrow> u64 \<Rightarrow> u64 \<Rightarrow> u64" where
  "ptr_combine flag pid sequence =
     push_bit pid_width (push_bit ptr_sequence_width (flag AND flag_mask)) OR
     push_bit ptr_sequence_width (pid AND pid_mask) OR
     (sequence AND ptr_sequence_mask)"

text \<open>The three \<open>static_assert\<close>s that tie the two layouts together.\<close>

lemma layout_static_asserts:
  "ptr_width = state_width" "ptr_sequence_width = st_sequence_width"
  "ptr_sequence_mask = st_sequence_mask"
  by (simp_all add: ptr_width_def state_width_def ptr_sequence_width_def st_sequence_width_def
      ptr_sequence_mask_def st_sequence_mask_def)

lemmas layout_defs = state_width_def mutables_width_def st_sequence_width_def ptr_width_def
  ptr_sequence_width_def pid_width_def flag_width_def mutables_mask_def st_sequence_mask_def
  ptr_sequence_mask_def pid_mask_def flag_mask_def fill_ones_mask

subsection \<open>Bit by bit\<close>

lemma bit_st_extract [bit_pack]:
  "bit (fst (st_extract s)) n \<longleftrightarrow> n < 32 \<and> bit s (n + 32)"
  "bit (snd (st_extract s)) n \<longleftrightarrow> n < 32 \<and> bit s n"
  by (auto simp: st_extract_def layout_defs bit_simps add.commute)

lemma bit_st_combine [bit_pack]:
  "bit (st_combine m s) n \<longleftrightarrow> n < 64 \<and> (if n < 32 then bit s n else bit m (n - 32))"
  by (auto simp: st_combine_def layout_defs bit_simps)

lemma bit_ptr_extract [bit_pack]:
  "bit (fst (ptr_extract p)) n \<longleftrightarrow> n < 16 \<and> bit p (n + 48)"
  "bit (fst (snd (ptr_extract p))) n \<longleftrightarrow> n < 16 \<and> bit p (n + 32)"
  "bit (snd (snd (ptr_extract p))) n \<longleftrightarrow> n < 32 \<and> bit p n"
  by (auto simp: ptr_extract_def layout_defs bit_simps add.commute)

lemma bit_ptr_combine [bit_pack]:
  "bit (ptr_combine f p s) n \<longleftrightarrow>
     n < 64 \<and> (if n < 32 then bit s n else if n < 48 then bit p (n - 32) else bit f (n - 48))"
  by (auto simp: ptr_combine_def layout_defs bit_simps)

section \<open>Packing is a bijection\<close>

text \<open>
  What the users of a packed word rely on: unpacking what was packed gives the fields back, cut
  to their widths, and packing what was unpacked gives the word back.
\<close>

locale packed_layout =
  fixes unpack :: "u64 \<Rightarrow> 'f" and pack :: "'f \<Rightarrow> u64" and norm :: "'f \<Rightarrow> 'f"
  assumes extract_combine: "unpack (pack f) = norm f"
    and combine_extract: "pack (unpack x) = x"
begin

lemma combine_norm: "pack (norm f) = pack f"
  using combine_extract [of "pack f"] by (simp add: extract_combine)

lemma norm_extract: "norm (unpack x) = unpack x"
  using extract_combine [of "unpack x"] by (simp add: combine_extract)

lemma extract_eq_iff: "unpack x = unpack y \<longleftrightarrow> x = y"
  by (metis combine_extract)

lemma combine_eq_iff: "pack f = pack g \<longleftrightarrow> norm f = norm g"
  by (metis combine_norm extract_combine)

lemma combine_eq_word_iff: "pack f = x \<longleftrightarrow> norm f = unpack x"
  by (metis combine_extract combine_norm extract_combine)

end

lemma st_extract_combine:
  "st_extract (st_combine m s) = (m AND mutables_mask, s AND st_sequence_mask)"
  by (rule prod_eqI; rule word_eq_bitsI) (auto simp: bit_pack layout_defs bit_simps)

lemma st_combine_extract: "st_combine (fst (st_extract x)) (snd (st_extract x)) = x"
  by (rule word_eq_bitsI) (auto simp: bit_pack)

lemma ptr_extract_combine:
  "ptr_extract (ptr_combine f p s) = (f AND flag_mask, p AND pid_mask, s AND ptr_sequence_mask)"
  by (rule prod_eqI; (rule prod_eqI)?; rule word_eq_bitsI)
    (auto simp: bit_pack layout_defs bit_simps)

lemma ptr_combine_extract:
  "ptr_combine (fst (ptr_extract x)) (fst (snd (ptr_extract x))) (snd (snd (ptr_extract x))) = x"
  by (rule word_eq_bitsI) (auto simp: bit_pack)

interpretation st: packed_layout st_extract "\<lambda>(m, s). st_combine m s"
  "\<lambda>(m, s). (m AND mutables_mask, s AND st_sequence_mask)"
  by unfold_locales (auto simp: st_extract_combine st_combine_extract split_beta)

interpretation ptr: packed_layout ptr_extract "\<lambda>(f, p, s). ptr_combine f p s"
  "\<lambda>(f, p, s). (f AND flag_mask, p AND pid_mask, s AND ptr_sequence_mask)"
  by unfold_locales (auto simp: ptr_extract_combine ptr_combine_extract split_beta)

section \<open>Flags\<close>

text \<open>
  A descriptor type owns one bit of the flag field. \<open>set_flag\<close> and \<open>unset_flag\<close> assert the
  flag's old value and toggle it.
\<close>

definition has_flag :: "u64 \<Rightarrow> u64 \<Rightarrow> bool" where
  "has_flag flag_bit des = (let (flag, pid, seq) = ptr_extract des in flag AND flag_bit = flag_bit)"

definition toggle_flag :: "u64 \<Rightarrow> u64 \<Rightarrow> u64" where
  "toggle_flag flag_bit des =
     (let (flag, pid, seq) = ptr_extract des; new_flag = flag XOR flag_bit
      in ptr_combine new_flag pid seq)"

definition set_flag :: "u64 \<Rightarrow> u64 \<Rightarrow> ('m, u64) prog" where
  "set_flag flag_bit des = dassert (\<not> has_flag flag_bit des) (Ret (toggle_flag flag_bit des))"

definition unset_flag :: "u64 \<Rightarrow> u64 \<Rightarrow> ('m, u64) prog" where
  "unset_flag flag_bit fdes = dassert (has_flag flag_bit fdes) (Ret (toggle_flag flag_bit fdes))"

definition dcss_flag_bit :: u64 where
  "dcss_flag_bit = push_bit (flag_width - 1) 1"

definition kcas_flag_bit :: u64 where
  "kcas_flag_bit = drop_bit 1 dcss_flag_bit"

lemma flag_bits_eq: "dcss_flag_bit = 2 ^ 15" "kcas_flag_bit = 2 ^ 14"
  by (simp_all add: dcss_flag_bit_def kcas_flag_bit_def layout_defs)

lemma has_flag_single [bit_pack]:
  assumes "j < 16"
  shows "has_flag (2 ^ j) x \<longleftrightarrow> bit x (j + 48)"
  using assms by (simp add: has_flag_def split_beta and_exp_eq_exp_iff bit_ptr_extract)

lemma bit_toggle_single [bit_pack]:
  assumes "j < 16"
  shows "bit (toggle_flag (2 ^ j) x) n \<longleftrightarrow> (if n = j + 48 then \<not> bit x n else bit x n)"
  using assms
  by (auto simp: toggle_flag_def split_beta Let_def bit_pack bit_simps bit_exp_iff
      dest: bit_lt_len)

lemma has_flag_iff [bit_pack]:
  "has_flag dcss_flag_bit x \<longleftrightarrow> bit x 63" "has_flag kcas_flag_bit x \<longleftrightarrow> bit x 62"
  by (simp_all only: flag_bits_eq has_flag_single) simp_all

lemma bit_toggle [bit_pack]:
  "bit (toggle_flag dcss_flag_bit x) n \<longleftrightarrow> (if n = 63 then \<not> bit x n else bit x n)"
  "bit (toggle_flag kcas_flag_bit x) n \<longleftrightarrow> (if n = 62 then \<not> bit x n else bit x n)"
  by (simp_all only: flag_bits_eq bit_toggle_single) simp_all

lemma toggle_toggle [simp]:
  "toggle_flag dcss_flag_bit (toggle_flag dcss_flag_bit x) = x"
  "toggle_flag kcas_flag_bit (toggle_flag kcas_flag_bit x) = x"
  by (rule word_eq_bitsI; simp add: bit_pack)+

lemma has_flag_toggle [simp]:
  "has_flag dcss_flag_bit (toggle_flag dcss_flag_bit x) \<longleftrightarrow> \<not> has_flag dcss_flag_bit x"
  "has_flag kcas_flag_bit (toggle_flag kcas_flag_bit x) \<longleftrightarrow> \<not> has_flag kcas_flag_bit x"
  "has_flag dcss_flag_bit (toggle_flag kcas_flag_bit x) \<longleftrightarrow> has_flag dcss_flag_bit x"
  "has_flag kcas_flag_bit (toggle_flag dcss_flag_bit x) \<longleftrightarrow> has_flag kcas_flag_bit x"
  by (simp_all add: bit_pack)

lemma ptr_extract_toggle:
  "snd (ptr_extract (toggle_flag dcss_flag_bit x)) = snd (ptr_extract x)"
  "snd (ptr_extract (toggle_flag kcas_flag_bit x)) = snd (ptr_extract x)"
  by (rule prod_eqI; rule word_eq_bitsI; simp add: bit_pack)+

section \<open>Sequence numbers\<close>

lemma st_sequence_mask_eq: "st_sequence_mask = mask 32"
  by (simp add: layout_defs)

lemma unat_sequence_inc: "unat (sequence_inc s) = (unat s + 1) mod 2 ^ 32"
proof -
  have "unat (s + 1) mod 2 ^ 32 = (unat s + 1) mod 2 ^ 32"
    by (simp add: unat_word_ariths mod_mod_cancel)
  then show ?thesis by (simp only: sequence_inc_def st_sequence_mask_eq unat_and_mask)
qed

lemma sequence_inc_lt: "unat (sequence_inc s) < 2 ^ 32"
  by (simp add: unat_sequence_inc)

lemma unat_sequence_inc_funpow:
  "0 < n \<Longrightarrow> unat ((sequence_inc ^^ n) s) = (unat s + n) mod 2 ^ 32"
proof (induction n)
  case (Suc n)
  then show ?case
    by (cases "n = 0") (simp_all add: unat_sequence_inc mod_Suc_eq)
qed simp

section \<open>Tagged pointers\<close>

text \<open>
  \<open>tagged_ptr\<close> keeps a tag of \<open>w\<close> bits in the low bits of an aligned pointer; making one asserts the
  alignment. The tag type is 8 bits wide.
\<close>

definition tag_mask :: "nat \<Rightarrow> u64" where
  "tag_mask w = fill_ones w"

definition tagged_make :: "nat \<Rightarrow> u64 \<Rightarrow> 8 word \<Rightarrow> u64 option" where
  "tagged_make w ptr tag =
     (let tag_part = ucast tag
      in if ptr AND tag_mask w = 0 then Some ((ptr AND NOT (tag_mask w)) OR (tag_part AND tag_mask w)) else None)"

definition tagged_get_ptr :: "nat \<Rightarrow> u64 \<Rightarrow> u64" where
  "tagged_get_ptr w raw = raw AND NOT (tag_mask w)"

definition tagged_get_tag :: "nat \<Rightarrow> u64 \<Rightarrow> 8 word" where
  "tagged_get_tag w raw = ucast (raw AND tag_mask w)"

lemma and_or_not_mask:
  fixes p t m :: "'a::len word"
  assumes "p AND m = 0"
  shows "((p AND NOT m) OR (t AND m)) AND NOT m = p" and "((p AND NOT m) OR (t AND m)) AND m = t AND m"
proof -
  have z: "\<not> (bit p n \<and> bit m n)" for n
    using assms bit_and_iff [of p m n] by (metis bit_0_eq bot_apply bot_bool_def)
  show "((p AND NOT m) OR (t AND m)) AND NOT m = p"
    by (rule bit_word_eqI) (use z in \<open>auto simp: bit_simps\<close>)
  show "((p AND NOT m) OR (t AND m)) AND m = t AND m"
    by (rule bit_word_eqI) (auto simp: bit_simps)
qed

lemma tagged_roundtrip:
  "case tagged_make w q t of None \<Rightarrow> q AND tag_mask w \<noteq> 0
   | Some r \<Rightarrow> tagged_get_ptr w r = q \<and> tagged_get_tag w r = t AND ucast (tag_mask w)"
proof -
  have "ucast (ucast t AND tag_mask w) = t AND (ucast (tag_mask w) :: 8 word)"
    by (rule bit_word_eqI) (auto simp: bit_simps)
  then show ?thesis by (simp add: tagged_make_def tagged_get_ptr_def tagged_get_tag_def and_or_not_mask Let_def)
qed

section \<open>Properties\<close>

text \<open>
  C39: packing and unpacking are inverse to each other on the state word of a descriptor and on
  descriptor pointers: unpacking a packed word returns every field cut to its width, and packing
  the fields of any word gives that word back. A tagged pointer gives back its pointer, and its tag
  cut to the width; only a pointer that is not aligned is refused.
\<close>

theorem packed_words_roundtrip:
  "st_extract (st_combine mu s) = (mu AND mutables_mask, s AND st_sequence_mask) \<and>
   (case st_extract x of (mu', s') \<Rightarrow> st_combine mu' s') = x \<and>
   ptr_extract (ptr_combine f p s) = (f AND flag_mask, p AND pid_mask, s AND ptr_sequence_mask) \<and>
   (case ptr_extract x of (f', p', s') \<Rightarrow> ptr_combine f' p' s') = x \<and>
   (case tagged_make w q t of None \<Rightarrow> q AND tag_mask w \<noteq> 0
    | Some r \<Rightarrow> tagged_get_ptr w r = q \<and> tagged_get_tag w r = t AND ucast (tag_mask w))"
  using tagged_roundtrip [where w = w and q = q and t = t]
  by (simp add: st_extract_combine ptr_extract_combine split_beta st_combine_extract ptr_combine_extract)

end
