(* ===== verification/Mw_Descriptor.thy ===== *)
theory Mw_Descriptor
  imports Mw_Traits
begin

text \<open>
  Reusable descriptors: the second half of \<^verbatim>\<open>multiword.hpp\<close>. Each thread owns one descriptor
  per descriptor type, in a pool indexed by process id; creating a descriptor bumps its sequence
  number to an odd value, writes the immutable members, and bumps it again. The operations are
  programs over any memory that holds such a pool (\<open>pool_ops\<close>), one access per atomic operation of
  the source and one per member of the immutables, which the source copies without
  synchronisation. Weak compare-exchanges may fail spuriously: the pool says when.
\<close>

unbundle bit_operations_syntax

section \<open>The pool\<close>

record 'i descriptor =
  d_state :: u64
  d_imm :: 'i

definition max_threads :: nat where
  "max_threads = 256"

record ('m, 'i) pool_ops =
  pool_get :: "'m \<Rightarrow> u64 \<Rightarrow> 'i descriptor"
  pool_put :: "u64 \<Rightarrow> 'i descriptor \<Rightarrow> 'm \<Rightarrow> 'm"
  pool_spurious :: "'m \<Rightarrow> bool \<times> 'm"
  imm_members :: "('i \<Rightarrow> 'i \<Rightarrow> 'i) list"
  imm_default :: 'i

text \<open>
  \<open>make_pid\<close>: a process-wide counter hands every thread its id on the thread's first call.
\<close>

record 't pid_state =
  pid_counter :: u64
  pid_local :: "'t \<Rightarrow> u64 option"

definition make_pid :: "'t \<Rightarrow> ('t pid_state, u64) prog" where
  "make_pid t =
     pbind (access (\<lambda>s. case pid_local s t of
         Some pid \<Rightarrow> (pid, s)
       | None \<Rightarrow> (pid_counter s,
           s\<lparr>pid_counter := pid_counter s + 1, pid_local := (pid_local s)(t \<mapsto> pid_counter s)\<rparr>)))
     (\<lambda>pid. dassert (unat pid < max_threads) (Ret pid))"

section \<open>Atomic accesses to a descriptor\<close>

definition load_state :: "('m, 'i, 'z) pool_ops_scheme \<Rightarrow> u64 \<Rightarrow> ('m, u64) prog" where
  "load_state P pid = access (\<lambda>m. (d_state (pool_get P m pid), m))"

definition store_state :: "('m, 'i, 'z) pool_ops_scheme \<Rightarrow> u64 \<Rightarrow> u64 \<Rightarrow> ('m, unit) prog" where
  "store_state P pid s = access (\<lambda>m. ((), pool_put P pid ((pool_get P m pid)\<lparr>d_state := s\<rparr>) m))"

definition cas_state_weak ::
  "('m, 'i, 'z) pool_ops_scheme \<Rightarrow> u64 \<Rightarrow> u64 \<Rightarrow> u64 \<Rightarrow> ('m, bool) prog" where
  "cas_state_weak P pid expected desired = access (\<lambda>m.
     let (spurious, m1) = pool_spurious P m; d = pool_get P m1 pid
     in if \<not> spurious \<and> d_state d = expected then (True, pool_put P pid (d\<lparr>d_state := desired\<rparr>) m1)
        else (False, m1))"

text \<open>The copy of the immutables, member by member, out of and into the pool.\<close>

primrec load_members ::
  "('m, 'i, 'z) pool_ops_scheme \<Rightarrow> u64 \<Rightarrow> ('i \<Rightarrow> 'i \<Rightarrow> 'i) list \<Rightarrow> 'i \<Rightarrow> ('m, 'i) prog" where
  "load_members P pid [] dst = Ret dst"
| "load_members P pid (f # fs) dst =
     pbind (access (\<lambda>m. (f (d_imm (pool_get P m pid)) dst, m))) (load_members P pid fs)"

primrec store_members ::
  "('m, 'i, 'z) pool_ops_scheme \<Rightarrow> u64 \<Rightarrow> ('i \<Rightarrow> 'i \<Rightarrow> 'i) list \<Rightarrow> 'i \<Rightarrow> ('m, unit) prog" where
  "store_members P pid [] src = Ret ()"
| "store_members P pid (f # fs) src =
     pbind (access (\<lambda>m. let d = pool_get P m pid
         in ((), pool_put P pid (d\<lparr>d_imm := f src (d_imm d)\<rparr>) m)))
       (\<lambda>_. store_members P pid fs src)"

section \<open>Operations\<close>

datatype bottom = Bottom

definition create_new ::
  "('m, 'i, 'z) pool_ops_scheme \<Rightarrow> u64 \<Rightarrow> u64 \<Rightarrow> 'i \<Rightarrow> ('m, u64) prog" where
  "create_new P pid mutables immutables =
     dassert (unat pid < max_threads)
      (pbind (load_state P pid) (\<lambda>old_state.
        let (old_mutables, old_sequence) = st_extract old_state;
            old_sequence_1 = sequence_inc old_sequence
        in pbind (store_state P pid (st_combine old_mutables old_sequence_1)) (\<lambda>_.
           pbind (store_members P pid (imm_members P) immutables) (\<lambda>_.
           let old_sequence_2 = sequence_inc old_sequence_1
           in pbind (store_state P pid (st_combine mutables old_sequence_2)) (\<lambda>_.
              Ret (ptr_combine 0 pid old_sequence_2))))))"

definition read_mutables ::
  "('m, 'i, 'z) pool_ops_scheme \<Rightarrow> u64 \<Rightarrow> ('m, bottom + u64) prog" where
  "read_mutables P pointer =
     (let (flag, pid, sequence) = ptr_extract pointer
      in dassert (unat pid < max_threads)
        (pbind (load_state P pid) (\<lambda>state.
          let (mutables, state_sequence) = st_extract state
          in if sequence \<noteq> state_sequence then Ret (Inl Bottom) else Ret (Inr mutables))))"

definition read_immutables ::
  "('m, 'i, 'z) pool_ops_scheme \<Rightarrow> u64 \<Rightarrow> ('m, bottom + 'i) prog" where
  "read_immutables P pointer =
     (let (flag, pid, sequence) = ptr_extract pointer
      in dassert (unat pid < max_threads)
        (pbind (load_state P pid) (\<lambda>state.
          if sequence \<noteq> snd (st_extract state) then Ret (Inl Bottom)
          else pbind (load_members P pid (imm_members P) (imm_default P)) (\<lambda>result.
            pbind (load_state P pid) (\<lambda>state.
              if sequence \<noteq> snd (st_extract state) then Ret (Inl Bottom)
              else Ret (Inr result))))))"

text \<open>
  The two retry loops carry fuel: an iteration repeats only when its compare-exchange failed.
\<close>

definition valid_field_mask :: "u64 \<Rightarrow> bool" where
  "valid_field_mask field_mask \<longleftrightarrow> field_mask \<noteq> 0 \<and> unat field_mask < 2 ^ mutables_width"

primrec write_mutable_loop ::
  "('m, 'i, 'z) pool_ops_scheme \<Rightarrow> u64 \<Rightarrow> u64 \<Rightarrow> u64 \<Rightarrow> u64 \<Rightarrow> nat \<Rightarrow> ('m, unit) prog" where
  "write_mutable_loop P field_mask pid sequence field_value 0 = Halt Out_of_fuel"
| "write_mutable_loop P field_mask pid sequence field_value (Suc fuel) =
     pbind (load_state P pid) (\<lambda>expected_state.
       let (expected_mutables, expected_sequence) = st_extract expected_state
       in if sequence \<noteq> expected_sequence then Ret ()
          else let new_mutables = (expected_mutables AND NOT field_mask) OR field_value;
                   new_state = st_combine new_mutables expected_sequence
               in pbind (cas_state_weak P pid expected_state new_state) (\<lambda>ok.
                    if ok then Ret ()
                    else write_mutable_loop P field_mask pid sequence field_value fuel))"

definition write_mutable ::
  "('m, 'i, 'z) pool_ops_scheme \<Rightarrow> u64 \<Rightarrow> nat \<Rightarrow> u64 \<Rightarrow> u64 \<Rightarrow> ('m, unit) prog" where
  "write_mutable P field_mask fuel pointer field_value =
     dassert (field_value AND NOT field_mask = 0)
      (let (flag, pid, sequence) = ptr_extract pointer
       in dassert (unat pid < max_threads)
            (write_mutable_loop P field_mask pid sequence field_value fuel))"

primrec cas_mutable_loop ::
  "('m, 'i, 'z) pool_ops_scheme \<Rightarrow> u64 \<Rightarrow> u64 \<Rightarrow> u64 \<Rightarrow> u64 \<Rightarrow> u64 \<Rightarrow> nat \<Rightarrow> ('m, bottom + u64) prog"
where
  "cas_mutable_loop P field_mask pid sequence expected_value new_value 0 = Halt Out_of_fuel"
| "cas_mutable_loop P field_mask pid sequence expected_value new_value (Suc fuel) =
     pbind (load_state P pid) (\<lambda>expected_state.
       let (expected_mutables, expected_sequence) = st_extract expected_state
       in if sequence \<noteq> expected_sequence then Ret (Inl Bottom)
          else let expected_mutables_field = expected_mutables AND field_mask
          in if expected_mutables_field \<noteq> expected_value then Ret (Inr expected_mutables_field)
          else let new_mutables = (expected_mutables AND NOT field_mask) OR new_value;
                   new_state = st_combine new_mutables expected_sequence
               in pbind (cas_state_weak P pid expected_state new_state) (\<lambda>ok.
                    if ok then Ret (Inr new_value)
                    else cas_mutable_loop P field_mask pid sequence expected_value new_value fuel))"

definition cas_mutable ::
  "('m, 'i, 'z) pool_ops_scheme \<Rightarrow> u64 \<Rightarrow> nat \<Rightarrow> u64 \<Rightarrow> u64 \<Rightarrow> u64 \<Rightarrow> ('m, bottom + u64) prog"
where
  "cas_mutable P field_mask fuel pointer expected_value new_value =
     dassert (expected_value AND NOT field_mask = 0) (dassert (new_value AND NOT field_mask = 0)
      (let (flag, pid, sequence) = ptr_extract pointer
       in dassert (unat pid < max_threads)
            (cas_mutable_loop P field_mask pid sequence expected_value new_value fuel)))"

section \<open>The contract of a pool, and solo runs\<close>

abbreviation st_mut :: "u64 \<Rightarrow> u64" where "st_mut s \<equiv> fst (st_extract s)"
abbreviation st_seq :: "u64 \<Rightarrow> u64" where "st_seq s \<equiv> snd (st_extract s)"
abbreviation ptr_pid :: "u64 \<Rightarrow> u64" where "ptr_pid p \<equiv> fst (snd (ptr_extract p))"
abbreviation ptr_seq :: "u64 \<Rightarrow> u64" where "ptr_seq p \<equiv> snd (snd (ptr_extract p))"

text \<open>The sequence number after the two increments of \<open>create_new\<close>.\<close>

definition next_seq :: "u64 \<Rightarrow> u64" where
  "next_seq s = sequence_inc (sequence_inc s)"

lemma unat_next_seq: "unat (next_seq s) = (unat s + 2) mod 2 ^ 32"
  by (simp add: next_seq_def unat_sequence_inc mod_Suc_eq)

lemma next_seq_masked [simp]: "next_seq s AND st_sequence_mask = next_seq s"
  by (simp add: next_seq_def sequence_inc_def and.assoc)

lemma pid_masked: "unat pid < max_threads \<Longrightarrow> pid AND pid_mask = pid"
  by (rule word_unat_eq_iff [THEN iffD2]) (simp add: layout_defs unat_and_mask max_threads_def)

lemma new_pointer_fields:
  assumes "unat pid < max_threads"
  shows "ptr_extract (ptr_combine 0 pid (next_seq s)) = (0, pid, next_seq s)"
  using pid_masked [OF assms] next_seq_masked [of s]
  by (simp add: ptr_extract_combine layout_static_asserts del: next_seq_masked)

lemma descriptor_rebuild: "(d :: 'i descriptor)\<lparr>d_imm := i, d_state := s\<rparr> = \<lparr>d_state = s, d_imm = i\<rparr>"
  by (cases d) simp

locale descriptor_pool =
  fixes P :: "('m, 'i) pool_ops"
  assumes get_put: "pool_get P (pool_put P p d m) q = (if q = p then d else pool_get P m q)"
    and put_put: "pool_put P p d (pool_put P p d' m) = pool_put P p d m"
    and put_get: "pool_put P p (pool_get P m p) m = m"
    and get_spurious: "pool_get P (snd (pool_spurious P m)) q = pool_get P m q"
    and copy_members: "fold (\<lambda>f. f src) (imm_members P) dst = src"
begin

lemma run_load_state: "run (load_state P pid) m = (Inr (d_state (pool_get P m pid)), m)"
  by (simp add: load_state_def)

lemma run_load_members:
  "run (load_members P pid fs dst) m = (Inr (fold (\<lambda>f. f (d_imm (pool_get P m pid))) fs dst), m)"
  by (induction fs arbitrary: dst) simp_all

lemma run_store_members:
  "run (store_members P pid fs src) m =
     (Inr (), pool_put P pid
        ((pool_get P m pid)\<lparr>d_imm := fold (\<lambda>f. f src) fs (d_imm (pool_get P m pid))\<rparr>) m)"
  by (induction fs arbitrary: m) (simp_all add: put_get get_put put_put Let_def)

text \<open>
  An uninterrupted \<open>create_new\<close> leaves the descriptor with the given fields and the next even
  sequence number, and touches no other descriptor.
\<close>

lemma run_create_new:
  assumes "unat pid < max_threads"
  defines "s2 \<equiv> \<lambda>m. next_seq (st_seq (d_state (pool_get P m pid)))"
  shows "run (create_new P pid mutables immutables) m =
     (Inr (ptr_combine 0 pid (s2 m)),
      pool_put P pid \<lparr>d_state = st_combine mutables (s2 m), d_imm = immutables\<rparr> m)"
  using assms
  by (simp add: create_new_def load_state_def store_state_def split_beta Let_def get_put put_put
      run_pbind_Inr [OF run_store_members] copy_members next_seq_def descriptor_rebuild)

lemma run_read_mutables:
  assumes "unat (ptr_pid p) < max_threads"
  shows "run (read_mutables P p) m =
     (let s = d_state (pool_get P m (ptr_pid p))
      in (Inr (if ptr_seq p \<noteq> st_seq s then Inl Bottom else Inr (st_mut s)), m))"
  using assms by (simp add: read_mutables_def load_state_def split_beta Let_def)

lemma run_read_immutables:
  assumes "unat (ptr_pid p) < max_threads"
  shows "run (read_immutables P p) m =
     (let d = pool_get P m (ptr_pid p)
      in (Inr (if ptr_seq p \<noteq> st_seq (d_state d) then Inl Bottom else Inr (d_imm d)), m))"
  using assms
  by (simp add: read_immutables_def load_state_def split_beta Let_def
      run_pbind_Inr [OF run_load_members] copy_members)

lemma run_cas_mutable:
  assumes "unat (ptr_pid p) < max_threads"
    and "expected_value AND NOT field_mask = 0" "new_value AND NOT field_mask = 0"
    and "\<not> fst (pool_spurious P m)"
  defines "d \<equiv> pool_get P m (ptr_pid p)"
  shows "run (cas_mutable P field_mask (Suc fuel) p expected_value new_value) m =
     (if ptr_seq p \<noteq> st_seq (d_state d) then (Inr (Inl Bottom), m)
      else if st_mut (d_state d) AND field_mask \<noteq> expected_value
        then (Inr (Inr (st_mut (d_state d) AND field_mask)), m)
      else (Inr (Inr new_value), pool_put P (ptr_pid p)
        (d\<lparr>d_state := st_combine ((st_mut (d_state d) AND NOT field_mask) OR new_value)
            (ptr_seq p)\<rparr>) (snd (pool_spurious P m))))"
  using assms
  by (simp add: cas_mutable_def load_state_def cas_state_weak_def split_beta Let_def get_spurious)

lemma run_write_mutable:
  assumes "unat (ptr_pid p) < max_threads"
    and "field_value AND NOT field_mask = 0"
    and "\<not> fst (pool_spurious P m)"
  defines "d \<equiv> pool_get P m (ptr_pid p)"
  shows "run (write_mutable P field_mask (Suc fuel) p field_value) m =
     (if ptr_seq p \<noteq> st_seq (d_state d) then (Inr (), m)
      else (Inr (), pool_put P (ptr_pid p)
        (d\<lparr>d_state := st_combine ((st_mut (d_state d) AND NOT field_mask) OR field_value)
            (ptr_seq p)\<rparr>) (snd (pool_spurious P m))))"
  using assms
  by (simp add: write_mutable_def load_state_def cas_state_weak_def split_beta Let_def get_spurious)

text \<open>
  The pointer \<open>create_new\<close> returns reads back what was created, and it is the only sequence
  number at which the descriptor can now be read.
\<close>

lemma create_new_reads_back:
  assumes pid: "unat pid < max_threads"
    and cr: "run (create_new P pid mutables immutables) m = (Inr des, m')"
  shows "run (read_mutables P des) m' = (Inr (Inr (mutables AND mutables_mask)), m')"
    and "run (read_immutables P des) m' = (Inr (Inr immutables), m')"
    and "ptr_pid q = pid \<Longrightarrow> ptr_seq q \<noteq> ptr_seq des \<Longrightarrow>
         run (read_immutables P q) m' = (Inr (Inl Bottom), m')"
proof -
  let ?s = "next_seq (st_seq (d_state (pool_get P m pid)))"
  have des: "ptr_extract des = (0, pid, ?s)"
    and m': "pool_get P m' pid = \<lparr>d_state = st_combine mutables ?s, d_imm = immutables\<rparr>"
    using cr run_create_new [OF pid] new_pointer_fields [OF pid] by (auto simp: get_put)
  show "run (read_mutables P des) m' = (Inr (Inr (mutables AND mutables_mask)), m')"
    and "run (read_immutables P des) m' = (Inr (Inr immutables), m')"
    using pid by (simp_all add: run_read_mutables run_read_immutables des m' st_extract_combine Let_def)
  show "run (read_immutables P q) m' = (Inr (Inl Bottom), m')"
    if "ptr_pid q = pid" "ptr_seq q \<noteq> ptr_seq des"
    using that pid by (simp add: run_read_immutables des m' st_extract_combine Let_def)
qed

end

end
