(* ===== verification/Mw_Memory.thy ===== *)
theory Mw_Memory
  imports Mw_Descriptor
begin

text \<open>
  The memory the multiword operations work on: the application's atomic words by address, the two
  descriptor pools (\<open>dcss_descriptor\<close>, \<open>kcas_descriptor\<close>), and the outcomes of the coming weak
  compare-exchanges, which the hardware may let fail spuriously. Both pools satisfy the pool
  contract.
\<close>

unbundle bit_operations_syntax

section \<open>Descriptor types\<close>

text \<open>
  A \<open>dcss_a1_load_type\<close> is a pointer to one of the two functions the sources pass: the default
  load of an atomic, and the lambda of \<open>kcas_help\<close> that reads the state of a kcas descriptor. It
  is null in a descriptor that was never used.
\<close>

datatype a1_loader = Load_null | Load_default | Load_kcas_state

record dcss_immutables =
  di_a1 :: u64
  di_a1_load :: a1_loader
  di_e1 :: u64
  di_a2 :: u64
  di_e2 :: u64
  di_n2 :: u64

record kcas_immutables =
  ki_as :: "u64 list"
  ki_es :: "u64 list"
  ki_ns :: "u64 list"
  ki_k :: nat

definition k_max :: nat where
  "k_max = 16"

definition state_mask :: u64 where "state_mask = 3"
definition state_undecided :: u64 where "state_undecided = 0"
definition state_succeded :: u64 where "state_succeded = 1"
definition state_failed :: u64 where "state_failed = 2"

lemmas kcas_state_defs = state_mask_def state_undecided_def state_succeded_def state_failed_def

section \<open>Memory\<close>

record mem =
  words :: "u64 \<Rightarrow> u64"
  dcss_descriptors :: "u64 \<Rightarrow> dcss_immutables descriptor"
  kcas_descriptors :: "u64 \<Rightarrow> kcas_immutables descriptor"
  weak_failures :: "bool list"

definition next_weak :: "mem \<Rightarrow> bool \<times> mem" where
  "next_weak m = (case weak_failures m of
     [] \<Rightarrow> (False, m)
   | b # bs \<Rightarrow> (b, m\<lparr>weak_failures := bs\<rparr>))"

definition dcss_pool :: "(mem, dcss_immutables) pool_ops" where
  "dcss_pool = \<lparr>
     pool_get = dcss_descriptors,
     pool_put = (\<lambda>pid d. dcss_descriptors_update (\<lambda>ds. ds(pid := d))),
     pool_spurious = next_weak,
     imm_members =
       [\<lambda>src dst. dst\<lparr>di_a1 := di_a1 src\<rparr>, \<lambda>src dst. dst\<lparr>di_a1_load := di_a1_load src\<rparr>,
        \<lambda>src dst. dst\<lparr>di_e1 := di_e1 src\<rparr>, \<lambda>src dst. dst\<lparr>di_a2 := di_a2 src\<rparr>,
        \<lambda>src dst. dst\<lparr>di_e2 := di_e2 src\<rparr>, \<lambda>src dst. dst\<lparr>di_n2 := di_n2 src\<rparr>],
     imm_default = \<lparr>di_a1 = 0, di_a1_load = Load_null, di_e1 = 0, di_a2 = 0, di_e2 = 0, di_n2 = 0\<rparr>\<rparr>"

definition kcas_pool :: "(mem, kcas_immutables) pool_ops" where
  "kcas_pool = \<lparr>
     pool_get = kcas_descriptors,
     pool_put = (\<lambda>pid d. kcas_descriptors_update (\<lambda>ds. ds(pid := d))),
     pool_spurious = next_weak,
     imm_members =
       [\<lambda>src dst. dst\<lparr>ki_as := ki_as src\<rparr>, \<lambda>src dst. dst\<lparr>ki_es := ki_es src\<rparr>,
        \<lambda>src dst. dst\<lparr>ki_ns := ki_ns src\<rparr>, \<lambda>src dst. dst\<lparr>ki_k := ki_k src\<rparr>],
     imm_default = \<lparr>ki_as = replicate k_max 0, ki_es = replicate k_max 0,
       ki_ns = replicate k_max 0, ki_k = 0\<rparr>\<rparr>"

lemma pool_simps [simp]:
  "pool_get dcss_pool = dcss_descriptors"
  "pool_put dcss_pool pid d m = m\<lparr>dcss_descriptors := (dcss_descriptors m)(pid := d)\<rparr>"
  "pool_spurious dcss_pool = next_weak"
  "pool_get kcas_pool = kcas_descriptors"
  "pool_put kcas_pool pid kd m = m\<lparr>kcas_descriptors := (kcas_descriptors m)(pid := kd)\<rparr>"
  "pool_spurious kcas_pool = next_weak"
  by (simp_all add: dcss_pool_def kcas_pool_def)

lemma next_weak_frame [simp]:
  "words (snd (next_weak m)) = words m"
  "dcss_descriptors (snd (next_weak m)) = dcss_descriptors m"
  "kcas_descriptors (snd (next_weak m)) = kcas_descriptors m"
  by (simp_all add: next_weak_def split: list.splits)

lemma next_weak_Nil [simp]: "weak_failures m = [] \<Longrightarrow> next_weak m = (False, m)"
  by (simp add: next_weak_def)

interpretation dcss: descriptor_pool dcss_pool
  by unfold_locales (simp_all add: dcss_pool_def)

interpretation kcas: descriptor_pool kcas_pool
  by unfold_locales (simp_all add: kcas_pool_def)

section \<open>Accesses to the application's words\<close>

definition load_word :: "u64 \<Rightarrow> (mem, u64) prog" where
  "load_word a = access (\<lambda>m. (words m a, m))"

text \<open>A compare-exchange returns whether it stored, and the word it found.\<close>

definition cas_word_weak :: "u64 \<Rightarrow> u64 \<Rightarrow> u64 \<Rightarrow> (mem, bool \<times> u64) prog" where
  "cas_word_weak a expected desired = access (\<lambda>m.
     let (spurious, m1) = next_weak m; w = words m1 a
     in if \<not> spurious \<and> w = expected then ((True, w), m1\<lparr>words := (words m1)(a := desired)\<rparr>)
        else ((False, w), m1))"

definition cas_word_strong :: "u64 \<Rightarrow> u64 \<Rightarrow> u64 \<Rightarrow> (mem, bool \<times> u64) prog" where
  "cas_word_strong a expected desired = access (\<lambda>m.
     let w = words m a
     in if w = expected then ((True, w), m\<lparr>words := (words m)(a := desired)\<rparr>) else ((False, w), m))"

text \<open>A call through a \<open>dcss_a1_load_type\<close>.\<close>

definition read_state :: "u64 \<Rightarrow> (mem, bottom + u64) prog" where
  "read_state des = pbind (read_mutables kcas_pool des)
     (\<lambda>r. Ret (map_sum id (\<lambda>mutables. mutables AND state_mask) r))"

definition a1_load_call :: "a1_loader \<Rightarrow> u64 \<Rightarrow> (mem, u64) prog" where
  "a1_load_call ld a1 = (case ld of
     Load_null \<Rightarrow> Halt Assertion_failed
   | Load_default \<Rightarrow> load_word a1
   | Load_kcas_state \<Rightarrow>
       pbind (read_state a1) (\<lambda>r. Ret (case r of Inl _ \<Rightarrow> state_succeded | Inr s \<Rightarrow> s)))"

text \<open>The memory at program start.\<close>

definition idle_mem :: mem where
  "idle_mem = \<lparr>words = (\<lambda>_. 0), dcss_descriptors = (\<lambda>_. \<lparr>d_state = 0, d_imm = imm_default dcss_pool\<rparr>),
     kcas_descriptors = (\<lambda>_. \<lparr>d_state = 0, d_imm = imm_default kcas_pool\<rparr>), weak_failures = []\<rparr>"

lemma idle_descriptor:
  "kcas_descriptors idle_mem pid = \<lparr>d_state = 0, d_imm = imm_default kcas_pool\<rparr>"
  "dcss_descriptors idle_mem pid = \<lparr>d_state = 0, d_imm = imm_default dcss_pool\<rparr>"
  "words idle_mem a = 0" "weak_failures idle_mem = []"
  by (simp_all add: idle_mem_def)

lemma zero_word_fields [simp]: "st_extract 0 = (0, 0)" "ptr_extract 0 = (0, 0, 0)"
  by (simp_all add: st_extract_def ptr_extract_def)

section \<open>What the accesses compute\<close>

text \<open>The state of the kcas operation a pointer names, as a solo reader sees it.\<close>

definition kcas_status :: "mem \<Rightarrow> u64 \<Rightarrow> bottom + u64" where
  "kcas_status m des =
     (let s = d_state (kcas_descriptors m (ptr_pid des))
      in if ptr_seq des \<noteq> st_seq s then Inl Bottom else Inr (st_mut s AND state_mask))"

definition a1_value :: "mem \<Rightarrow> a1_loader \<Rightarrow> u64 \<Rightarrow> u64" where
  "a1_value m ld a1 = (case ld of
     Load_null \<Rightarrow> 0
   | Load_default \<Rightarrow> words m a1
   | Load_kcas_state \<Rightarrow> (case kcas_status m a1 of Inl _ \<Rightarrow> state_succeded | Inr s \<Rightarrow> s))"

definition a1_valid :: "a1_loader \<Rightarrow> u64 \<Rightarrow> bool" where
  "a1_valid ld a1 \<longleftrightarrow>
     ld \<noteq> Load_null \<and> (ld = Load_kcas_state \<longrightarrow> unat (ptr_pid a1) < max_threads)"

lemma run_read_state:
  "unat (ptr_pid des) < max_threads \<Longrightarrow> run (read_state des) m = (Inr (kcas_status m des), m)"
  by (simp add: read_state_def run_pbind kcas.run_read_mutables kcas_status_def Let_def)

lemma run_a1_load_call:
  "a1_valid ld a1 \<Longrightarrow> run (a1_load_call ld a1) m = (Inr (a1_value m ld a1), m)"
  by (cases ld) (simp_all add: a1_load_call_def a1_value_def a1_valid_def load_word_def run_read_state
      run_pbind_Inr [OF run_read_state])

lemma kcas_status_frame [simp]:
  "kcas_status (m\<lparr>words := w\<rparr>) des = kcas_status m des"
  "kcas_status (m\<lparr>dcss_descriptors := dd\<rparr>) des = kcas_status m des"
  "kcas_status (m\<lparr>weak_failures := bs\<rparr>) des = kcas_status m des"
  by (simp_all add: kcas_status_def)

lemma a1_value_frame [simp]:
  "a1_value (m\<lparr>dcss_descriptors := dd\<rparr>) ld a1 = a1_value m ld a1"
  "a1_value (m\<lparr>weak_failures := bs\<rparr>) ld a1 = a1_value m ld a1"
  by (simp_all add: a1_value_def split: a1_loader.splits)

lemma a1_value_words_upd:
  "ld = Load_default \<Longrightarrow> a1 \<noteq> a \<Longrightarrow> a1_value (m\<lparr>words := (words m)(a := w)\<rparr>) ld a1 = a1_value m ld a1"
  "ld \<noteq> Load_default \<Longrightarrow> a1_value (m\<lparr>words := ws\<rparr>) ld a1 = a1_value m ld a1"
  by (simp_all add: a1_value_def split: a1_loader.splits)

end
