(* ===== verification/Mw_Seqlock.thy ===== *)
theory Mw_Seqlock
  imports Mw_Memory
begin

text \<open>
  Descriptor reuse under concurrency. A thread rewrites its descriptor in place while others read
  it; the sequence number in the state word tells them apart. Here a reader runs under arbitrary
  interference. The generation \<open>g\<close> of a descriptor counts the increments of its sequence number
  without wrapping; the descriptor is stable at even generations. What \<open>read_immutables\<close> accepts is
  the immutables of one generation, as long as the 32-bit sequence number does not wrap around
  during the read; and \<open>create_new\<close>, stopped after any number of its accesses, has kept the
  invariant the readers rely on.
\<close>

unbundle bit_operations_syntax

section \<open>A ghost component\<close>

text \<open>A program run on a memory paired with a ghost value it neither reads nor writes.\<close>

primrec ghost :: "('m, 'a) prog \<Rightarrow> ('m \<times> 'g, 'a) prog" where
  "ghost (Ret a) = Ret a"
| "ghost (Halt x) = Halt x"
| "ghost (Step h) = Step (\<lambda>mg. let r = map_prod ghost id (h (fst mg)) in (fst r, (snd r, snd mg)))"

lemma rely_ghost_Step_iff:
  "run_rely R (ghost (Step h)) mg r mg' \<longleftrightarrow>
     (\<exists>mg1. R mg mg1 \<and> run_rely R (ghost (fst (h (fst mg1)))) (snd (h (fst mg1)), snd mg1) r mg')"
  by (simp add: rely_Step_iff)

lemma rely_ghost_access:
  "run_rely R (ghost (pbind (access h) f)) mg r mg' \<longleftrightarrow>
     (\<exists>mg1. R mg mg1 \<and>
        run_rely R (ghost (f (fst (h (fst mg1))))) (snd (h (fst mg1)), snd mg1) r mg')"
  by (simp add: access_def rely_ghost_Step_iff del: ghost.simps(3))

section \<open>The invariant and what a reader sees\<close>

text \<open>
  \<open>imms g\<close> is what the owner stores at generation \<open>g\<close>. The environment may do anything to the
  descriptor that keeps the invariant and does not decrease the generation.
\<close>

definition gen_inv ::
  "('m, 'i, 'z) pool_ops_scheme \<Rightarrow> u64 \<Rightarrow> (nat \<Rightarrow> 'i) \<Rightarrow> 'm \<times> nat \<Rightarrow> bool" where
  "gen_inv P pid imms mg \<longleftrightarrow>
     (let d = pool_get P (fst mg) pid in
        unat (st_seq (d_state d)) = snd mg mod 2 ^ 32 \<and>
        (even (snd mg) \<longrightarrow> d_imm d = imms (snd mg)))"

definition gen_env ::
  "('m, 'i, 'z) pool_ops_scheme \<Rightarrow> u64 \<Rightarrow> (nat \<Rightarrow> 'i) \<Rightarrow> 'm \<times> nat \<Rightarrow> 'm \<times> nat \<Rightarrow> bool" where
  "gen_env P pid imms mg mg' \<longleftrightarrow>
     (gen_inv P pid imms mg \<longrightarrow> gen_inv P pid imms mg' \<and> snd mg \<le> snd mg')"

lemma gen_envD:
  assumes "gen_env P pid imms mg mg'" "gen_inv P pid imms mg"
  shows "gen_inv P pid imms mg'" "snd mg \<le> snd mg'"
  using assms by (simp_all add: gen_env_def)

lemma gen_env_step [simp]: "gen_inv P pid imms mg \<Longrightarrow> gen_inv P pid imms (fst mg, snd mg)"
  by simp

text \<open>Copying the members: if the generation at the end is still that of the start, each was read from it.\<close>

lemma rely_load_members:
  fixes P :: "('m, 'i, 'z) pool_ops_scheme" and k :: "'i \<Rightarrow> ('m, 'a) prog"
  assumes "run_rely (gen_env P pid imms) (ghost (pbind (load_members P pid fs dst) k)) mg r mg'"
    and "gen_inv P pid imms mg"
  shows "\<exists>mg1 v. gen_inv P pid imms mg1 \<and> snd mg \<le> snd mg1 \<and>
     run_rely (gen_env P pid imms) (ghost (k v)) mg1 r mg' \<and>
     (even (snd mg) \<and> snd mg1 = snd mg \<longrightarrow> v = fold (\<lambda>f. f (imms (snd mg))) fs dst)"
  using assms
proof (induction fs arbitrary: dst mg)
  case Nil
  then show ?case by (intro exI [of _ mg] exI [of _ dst]) simp
next
  case (Cons f fs)
  from Cons.prems(1) obtain mg1 where mg1: "gen_env P pid imms mg mg1"
    "run_rely (gen_env P pid imms)
       (ghost (pbind (load_members P pid fs (f (d_imm (pool_get P (fst mg1) pid)) dst)) k)) mg1 r mg'"
    by (auto simp: rely_ghost_access pbind_assoc)
  note inv1 = gen_envD [OF mg1(1) Cons.prems(2)]
  obtain mg2 v where 2: "gen_inv P pid imms mg2" "snd mg1 \<le> snd mg2"
    "run_rely (gen_env P pid imms) (ghost (k v)) mg2 r mg'"
    "even (snd mg1) \<and> snd mg2 = snd mg1 \<longrightarrow>
       v = fold (\<lambda>f. f (imms (snd mg1))) fs (f (d_imm (pool_get P (fst mg1) pid)) dst)"
    using Cons.IH [OF mg1(2) inv1(1)] by blast
  have "v = fold (\<lambda>f. f (imms (snd mg))) (f # fs) dst" if "even (snd mg)" "snd mg2 = snd mg"
  proof -
    have "snd mg1 = snd mg" using that 2(2) inv1(2) by simp
    then show ?thesis using 2(4) that inv1(1) by (simp add: gen_inv_def Let_def)
  qed
  then show ?case using 2 inv1(2) by (intro exI [of _ mg2] exI [of _ v]) auto
qed

lemma mod_window:
  fixes a b :: nat
  assumes "a mod n = b mod n" "a \<le> b" "b < a + n"
  shows "a = b"
  using assms by (metis le_add_diff_inverse less_diff_conv2 mod_eq_dvd_iff_nat nat_dvd_not_less
      add.commute add_cancel_right_right gr0I)

context descriptor_pool
begin

theorem read_immutables_consistent:
  assumes run: "run_rely (gen_env P (ptr_pid p) imms) (ghost (read_immutables P p)) mg (Inr (Inr v)) mg'"
    and inv: "gen_inv P (ptr_pid p) imms mg" and even: "even (unat (ptr_seq p))"
    and window: "snd mg' < snd mg + 2 ^ 32"
  shows "\<exists>g. snd mg \<le> g \<and> g \<le> snd mg' \<and> even g \<and> g mod 2 ^ 32 = unat (ptr_seq p) \<and> v = imms g"
proof -
  let ?R = "gen_env P (ptr_pid p) imms" and ?inv = "gen_inv P (ptr_pid p) imms"
  have pid: "unat (ptr_pid p) < max_threads"
    using run by (cases "unat (ptr_pid p) < max_threads") (auto simp: read_immutables_def split_beta)
  let ?k = "\<lambda>result. pbind (load_state P (ptr_pid p)) (\<lambda>state.
      if ptr_seq p \<noteq> st_seq state then Ret (Inl Bottom) else Ret (Inr result))"
  obtain mg1 where 1: "?R mg mg1" "ptr_seq p = st_seq (d_state (pool_get P (fst mg1) (ptr_pid p)))"
    "run_rely ?R (ghost (pbind (load_members P (ptr_pid p) (imm_members P) (imm_default P)) ?k)) mg1 (Inr (Inr v)) mg'"
    using run pid by (auto simp: read_immutables_def split_beta load_state_def rely_ghost_access
        split: if_splits)
  note i1 = gen_envD [OF 1(1) inv]
  obtain mg2 w where 2: "?inv mg2" "snd mg1 \<le> snd mg2" "run_rely ?R (ghost (?k w)) mg2 (Inr (Inr v)) mg'"
    "even (snd mg1) \<and> snd mg2 = snd mg1 \<longrightarrow>
       w = fold (\<lambda>f. f (imms (snd mg1))) (imm_members P) (imm_default P)"
    using rely_load_members [OF 1(3) i1(1)] by blast
  obtain mg3 where 3: "?R mg2 mg3" "ptr_seq p = st_seq (d_state (pool_get P (fst mg3) (ptr_pid p)))"
    "v = w" "?R mg3 mg'"
    using 2(3) by (auto simp: load_state_def rely_ghost_access split: if_splits)
  note i3 = gen_envD [OF 3(1) 2(1)] and i4 = gen_envD [OF 3(4) gen_envD(1) [OF 3(1) 2(1)]]
  have seq: "unat (ptr_seq p) = snd mg1 mod 2 ^ 32" "unat (ptr_seq p) = snd mg3 mod 2 ^ 32"
    using i1(1) i3(1) 1(2) 3(2) by (simp_all add: gen_inv_def Let_def)
  have le: "snd mg1 \<le> snd mg3" "snd mg3 < snd mg1 + 2 ^ 32"
    using 2(2) i1(2) i3(2) i4(2) window by linarith+
  have "snd mg1 = snd mg3" by (rule mod_window [OF _ le]) (metis seq)
  then have same: "snd mg2 = snd mg1" using 2(2) i3(2) by simp
  have "even (snd mg1)" using even seq(1) by (simp add: dvd_mod_iff)
  then have "v = imms (snd mg1)" using 2(4) same 3(3) copy_members by simp
  then show ?thesis
    using \<open>even (snd mg1)\<close> i1(2) i4(2) i3(2) 2(2) seq(1) by (intro exI [of _ "snd mg1"]) auto
qed

end

section \<open>What a writer guarantees\<close>

lemma steps_access: "steps (Suc n) (pbind (access h) f) m = steps n (f (fst (h m))) (snd (h m))"
  by (simp add: access_def)

lemma steps_Ret [simp]: "steps n (Ret a) m = (Ret a, m)"
  by (cases n) simp_all

lemma unat_st_seq_combine: "unat (st_seq (st_combine mu s)) = unat s mod 2 ^ 32"
  by (simp add: st_extract_combine layout_defs unat_and_mask)

context descriptor_pool
begin

text \<open>
  At an odd generation the immutables are free, so storing the members keeps the invariant
  wherever it is stopped, and once it is done the descriptor holds the new immutables.
\<close>

lemma steps_store_members:
  assumes "odd g" "gen_inv P pid imms (m, g)"
    and after: "\<And>n m'. gen_inv P pid imms (m', g) \<Longrightarrow>
      d_imm (pool_get P m' pid) = fold (\<lambda>f. f src) fs (d_imm (pool_get P m pid)) \<Longrightarrow>
      \<exists>g' \<in> G. gen_inv P pid imms (snd (steps n k m'), g')"
    and "g \<in> G"
  shows "\<exists>g' \<in> G.
    gen_inv P pid imms (snd (steps n (pbind (store_members P pid fs src) (\<lambda>_. k)) m), g')"
  using assms
proof (induction fs arbitrary: m n)
  case Nil
  then show ?case by simp
next
  case (Cons f fs)
  show ?case
  proof (cases n)
    case 0
    then show ?thesis using Cons.prems by auto
  next
    case (Suc n')
    have "gen_inv P pid imms (pool_put P pid
        ((pool_get P m pid)\<lparr>d_imm := f src (d_imm (pool_get P m pid))\<rparr>) m, g)"
      using Cons.prems(1,2) by (simp add: gen_inv_def get_put Let_def)
    from Cons.IH [OF Cons.prems(1) this] Cons.prems(3,4) show ?thesis
      by (simp add: Suc pbind_assoc steps_access get_put Let_def)
  qed
qed

theorem create_new_keeps_gen_inv:
  assumes inv: "gen_inv P pid imms (m, g)" and "even g" and pid: "unat pid < max_threads"
    and new: "imms (g + 2) = immutables"
  shows "\<exists>g' \<in> {g, g + 1, g + 2}. gen_inv P pid imms (snd (steps n (create_new P pid mutables immutables) m), g')"
proof -
  let ?s0 = "st_seq (d_state (pool_get P m pid))"
  let ?s1 = "sequence_inc ?s0" and ?s2 = "sequence_inc (sequence_inc ?s0)"
  let ?m1 = "pool_put P pid ((pool_get P m pid)\<lparr>d_state := st_combine (st_mut (d_state (pool_get P m pid))) ?s1\<rparr>) m"
  let ?last = "pbind (store_state P pid (st_combine mutables ?s2)) (\<lambda>_. Ret (ptr_combine 0 pid ?s2))"
  let ?rest = "pbind (store_members P pid (imm_members P) immutables) (\<lambda>_. ?last)"
  have s0: "unat ?s0 = g mod 2 ^ 32" using inv by (simp add: gen_inv_def Let_def)
  have s1: "unat ?s1 mod 2 ^ 32 = (g + 1) mod 2 ^ 32" and s2: "unat ?s2 mod 2 ^ 32 = (g + 2) mod 2 ^ 32"
    using s0 by (simp_all add: unat_sequence_inc mod_Suc_eq)
  have inv1: "gen_inv P pid imms (?m1, g + 1)"
    using s1 \<open>even g\<close> by (simp add: gen_inv_def get_put unat_st_seq_combine Let_def)
  have last: "\<exists>g' \<in> {g, g + 1, g + 2}. gen_inv P pid imms (snd (steps n ?last m'), g')"
    if "gen_inv P pid imms (m', g + 1)" "d_imm (pool_get P m' pid) = immutables" for n m'
  proof (cases n)
    case (Suc n')
    then show ?thesis using that s2 new
      by (intro bexI [of _ "g + 2"])
        (simp_all add: store_state_def steps_access gen_inv_def get_put unat_st_seq_combine Let_def)
  qed (use that in \<open>intro bexI [of _ "g + 1"], simp_all\<close>)
  have rest: "\<exists>g' \<in> {g, g + 1, g + 2}. gen_inv P pid imms (snd (steps n ?rest ?m1), g')" for n
    by (rule steps_store_members [OF _ inv1]) (use \<open>even g\<close> last copy_members in auto)
  have "create_new P pid mutables immutables = pbind (load_state P pid) (\<lambda>old_state.
      let (old_mutables, old_sequence) = st_extract old_state;
          old_sequence_1 = sequence_inc old_sequence
      in pbind (store_state P pid (st_combine old_mutables old_sequence_1)) (\<lambda>_.
         pbind (store_members P pid (imm_members P) immutables) (\<lambda>_.
         let old_sequence_2 = sequence_inc old_sequence_1
         in pbind (store_state P pid (st_combine mutables old_sequence_2)) (\<lambda>_.
            Ret (ptr_combine 0 pid old_sequence_2)))))"
    using pid by (simp add: create_new_def)
  then show ?thesis
    using rest inv
    by (cases n; cases "n - 1")
      (auto simp: load_state_def store_state_def steps_access split_beta Let_def)
qed

end

section \<open>Properties\<close>

lemma rely_ghost_solo:
  "run p m = (r, m') \<Longrightarrow> (\<And>x. R x x) \<Longrightarrow> run_rely R (ghost p) (m, g) r (m', g)"
proof (induction p arbitrary: m)
  case (Step h)
  have mem: "h m \<in> range h" "fst (h m) \<in> Basic_BNFs.fsts (h m)" by (simp_all add: fsts.simps prod.collapse)
  have "run_rely R (ghost (fst (h m))) (snd (h m), g) r (m', g)"
    by (rule Step.IH [OF mem _ Step.prems(2)]) (use Step.prems(1) in simp)
  then show ?case unfolding rely_ghost_Step_iff by (intro exI [of _ "(m, g)"]) (simp add: Step.prems(2))
qed (auto intro: rely_ret rely_halt)

lemma idle_gen_inv: "gen_inv kcas_pool pid (\<lambda>_. imm_default kcas_pool) (idle_mem, 0)"
  by (simp add: gen_inv_def idle_descriptor Let_def)

text \<open>
  A reader of a kcas descriptor, interrupted before every access by any number of writes that
  keep the generation invariant, returns either bottom or exactly the immutables of one even
  generation whose sequence number is the pointer's, provided that fewer than 2 to the 32
  increments happen between its first and its last access: it never returns a mix.
\<close>

theorem kcas_descriptor_read_consistent:
  assumes "run_rely (gen_env kcas_pool (ptr_pid p) imms) (ghost (read_immutables kcas_pool p)) (m, g)
      (Inr (Inr v)) (m', g')"
    and "gen_inv kcas_pool (ptr_pid p) imms (m, g)" and "even (unat (ptr_seq p))" and "g' < g + 2 ^ 32"
  shows "\<exists>h. g \<le> h \<and> h \<le> g' \<and> even h \<and> h mod 2 ^ 32 = unat (ptr_seq p) \<and> v = imms h"
  using kcas.read_immutables_consistent [OF assms(1,2,3)] assms(4) by simp

lemma kcas_descriptor_read_consistent_witness:
  "\<exists>h. 0 \<le> h \<and> h \<le> (0::nat) \<and> even h \<and> h mod 2 ^ 32 = unat (ptr_seq 0) \<and>
     imm_default kcas_pool = (\<lambda>_. imm_default kcas_pool) h"
proof (rule kcas_descriptor_read_consistent)
  show "run_rely (gen_env kcas_pool (ptr_pid 0) (\<lambda>_. imm_default kcas_pool))
     (ghost (read_immutables kcas_pool 0)) (idle_mem, 0) (Inr (Inr (imm_default kcas_pool))) (idle_mem, 0)"
    by (rule rely_ghost_solo)
      (simp_all add: kcas.run_read_immutables max_threads_def idle_descriptor gen_env_def)
qed (simp_all add: idle_gen_inv)

text \<open>
  A thread that creates a new kcas descriptor keeps the readers' invariant at every point of
  the way: stopped after any number of its accesses, the memory is that of the old generation, of
  the odd one in between, or of the new one, whose immutables are the new ones.
\<close>

theorem kcas_create_new_prefix_safe:
  assumes "gen_inv kcas_pool pid imms (m, g)" and "even g" and "unat pid < max_threads"
    and "imms (g + 2) = immutables"
  shows "\<exists>g' \<in> {g, g + 1, g + 2}.
     gen_inv kcas_pool pid imms (snd (steps n (create_new kcas_pool pid mutables immutables) m), g')"
  using kcas.create_new_keeps_gen_inv [OF assms] by simp

lemma kcas_create_new_prefix_safe_witness:
  "\<exists>g' \<in> {0, 0 + 1, 0 + 2}.
     gen_inv kcas_pool 3 (\<lambda>_. imm_default kcas_pool)
       (snd (steps 4 (create_new kcas_pool 3 1 (imm_default kcas_pool)) idle_mem), g')"
  by (rule kcas_create_new_prefix_safe) (simp_all add: idle_gen_inv max_threads_def)

end
