(* ===== verification/Mw_Dcss.thy ===== *)
theory Mw_Dcss
  imports Mw_Memory
begin

text \<open>
  Double-compare single-swap: \<^verbatim>\<open>src/thread/detail/multiword_dcss.cpp\<close>. \<open>dcss\<close> publishes a flagged
  descriptor pointer in the second word and lets \<open>dcss_help\<close>, run by the owner or by any reader
  that meets the flag, replace it by the new or the old value.
\<close>

unbundle bit_operations_syntax

section \<open>Operations\<close>

definition dcss_create_new ::
  "u64 \<Rightarrow> u64 \<Rightarrow> a1_loader \<Rightarrow> u64 \<Rightarrow> u64 \<Rightarrow> u64 \<Rightarrow> u64 \<Rightarrow> (mem, u64) prog" where
  "dcss_create_new pid a1 ld e1 a2 e2 n2 =
     dassert (\<not> has_flag dcss_flag_bit e1 \<and> \<not> has_flag dcss_flag_bit e2 \<and> \<not> has_flag dcss_flag_bit n2)
      (create_new dcss_pool pid 0
        \<lparr>di_a1 = a1, di_a1_load = ld, di_e1 = e1, di_a2 = a2, di_e2 = e2, di_n2 = n2\<rparr>)"

definition dcss_help :: "u64 \<Rightarrow> (mem, unit) prog" where
  "dcss_help fdes =
     pbind (unset_flag dcss_flag_bit fdes) (\<lambda>des.
     pbind (read_immutables dcss_pool des) (\<lambda>values.
       case values of
         Inl _ \<Rightarrow> Ret ()
       | Inr v \<Rightarrow> pbind (a1_load_call (di_a1_load v) (di_a1 v)) (\<lambda>x.
           if x = di_e1 v then pbind (cas_word_weak (di_a2 v) fdes (di_n2 v)) (\<lambda>_. Ret ())
           else pbind (cas_word_weak (di_a2 v) fdes (di_e2 v)) (\<lambda>_. Ret ()))))"

primrec dcss_install :: "nat \<Rightarrow> u64 \<Rightarrow> u64 \<Rightarrow> u64 \<Rightarrow> (mem, u64) prog" where
  "dcss_install 0 a2 e2 fdes = Halt Out_of_fuel"
| "dcss_install (Suc fuel) a2 e2 fdes =
     pbind (cas_word_weak a2 e2 fdes) (\<lambda>(ok, r).
       if ok \<or> \<not> has_flag dcss_flag_bit r then Ret r
       else pbind (dcss_help r) (\<lambda>_. dcss_install fuel a2 e2 fdes))"

definition dcss ::
  "nat \<Rightarrow> u64 \<Rightarrow> u64 \<Rightarrow> a1_loader \<Rightarrow> u64 \<Rightarrow> u64 \<Rightarrow> u64 \<Rightarrow> u64 \<Rightarrow> (mem, u64) prog" where
  "dcss fuel pid a1 ld e1 a2 e2 n2 =
     pbind (dcss_create_new pid a1 ld e1 a2 e2 n2) (\<lambda>des.
     pbind (set_flag dcss_flag_bit des) (\<lambda>fdes.
     pbind (dcss_install fuel a2 e2 fdes) (\<lambda>r.
       if r = e2 then pbind (dcss_help fdes) (\<lambda>_. Ret r) else Ret r)))"

primrec dcss_read :: "nat \<Rightarrow> u64 \<Rightarrow> (mem, u64) prog" where
  "dcss_read 0 a = Halt Out_of_fuel"
| "dcss_read (Suc fuel) a =
     pbind (load_word a) (\<lambda>r.
       if \<not> has_flag dcss_flag_bit r then Ret r
       else pbind (dcss_help r) (\<lambda>_. dcss_read fuel a))"

section \<open>The logical value of a word\<close>

text \<open>
  A word that holds a flagged pointer belongs to an operation that is still in progress. Its
  logical value is what helping that operation to its end would leave there. The pending pointer
  is genuine (\<open>dcss_ok\<close>) when its descriptor has not been reused and is about this word.
\<close>

abbreviation dcss_imm_of :: "mem \<Rightarrow> u64 \<Rightarrow> dcss_immutables" where
  "dcss_imm_of m w \<equiv> d_imm (dcss_descriptors m (ptr_pid w))"

definition dcss_outcome :: "mem \<Rightarrow> dcss_immutables \<Rightarrow> u64" where
  "dcss_outcome m v = (if a1_value m (di_a1_load v) (di_a1 v) = di_e1 v then di_n2 v else di_e2 v)"

definition dcss_value :: "mem \<Rightarrow> u64 \<Rightarrow> u64" where
  "dcss_value m a =
     (let w = words m a in if has_flag dcss_flag_bit w then dcss_outcome m (dcss_imm_of m w) else w)"

definition dcss_imm_ok :: "dcss_immutables \<Rightarrow> bool" where
  "dcss_imm_ok v \<longleftrightarrow>
     \<not> has_flag dcss_flag_bit (di_e2 v) \<and> \<not> has_flag dcss_flag_bit (di_n2 v) \<and>
     a1_valid (di_a1_load v) (di_a1 v) \<and>
     (di_a1_load v = Load_default \<longrightarrow> di_a1 v \<noteq> di_a2 v)"

definition dcss_ok :: "mem \<Rightarrow> u64 \<Rightarrow> bool" where
  "dcss_ok m a \<longleftrightarrow>
     (let w = words m a in has_flag dcss_flag_bit w \<longrightarrow>
       unat (ptr_pid w) < max_threads \<and>
       ptr_seq w = st_seq (d_state (dcss_descriptors m (ptr_pid w))) \<and>
       di_a2 (dcss_imm_of m w) = a \<and> dcss_imm_ok (dcss_imm_of m w))"

lemma dcss_ok_unflagged: "\<not> has_flag dcss_flag_bit (words m a) \<Longrightarrow> dcss_ok m a"
  by (simp add: dcss_ok_def)

lemma dcss_value_unflagged [simp]:
  "\<not> has_flag dcss_flag_bit (words m a) \<Longrightarrow> dcss_value m a = words m a"
  by (simp add: dcss_value_def)

lemma dcss_value_not_flagged: "dcss_ok m a \<Longrightarrow> \<not> has_flag dcss_flag_bit (dcss_value m a)"
  by (simp add: dcss_ok_def dcss_value_def dcss_outcome_def dcss_imm_ok_def Let_def)

lemma a1_value_own_word:
  "dcss_imm_ok v \<Longrightarrow>
     a1_value (m\<lparr>words := (words m)(di_a2 v := w)\<rparr>) (di_a1_load v) (di_a1 v) =
     a1_value m (di_a1_load v) (di_a1 v)"
  by (cases "di_a1_load v") (simp_all add: dcss_imm_ok_def a1_value_def)

section \<open>Solo runs\<close>

lemma run_unset_flag [run_simps]:
  "has_flag f w \<Longrightarrow> run (unset_flag f w) m = (Inr (toggle_flag f w), m)"
  by (simp add: unset_flag_def)

lemma run_set_flag [run_simps]:
  "\<not> has_flag f w \<Longrightarrow> run (set_flag f w) m = (Inr (toggle_flag f w), m)"
  by (simp add: set_flag_def)

lemma run_dcss_help:
  assumes "weak_failures m = []" "has_flag dcss_flag_bit (words m a)" "dcss_ok m a"
  shows "run (dcss_help (words m a)) m = (Inr (), m\<lparr>words := (words m)(a := dcss_value m a)\<rparr>)"
  using assms
  by (simp add: dcss_help_def dcss_ok_def dcss_imm_ok_def dcss_value_def dcss_outcome_def Let_def
      run_pbind run_unset_flag dcss.run_read_immutables ptr_extract_toggle run_a1_load_call
      cas_word_weak_def)

text \<open>A pointer whose descriptor has moved on, or that is no longer in the word, helps nobody.\<close>

lemma run_dcss_help_stale:
  assumes "has_flag dcss_flag_bit w" "unat (ptr_pid w) < max_threads"
    and "ptr_seq w \<noteq> st_seq (d_state (dcss_descriptors m (ptr_pid w)))"
  shows "run (dcss_help w) m = (Inr (), m)"
  using assms
  by (simp add: dcss_help_def run_pbind run_unset_flag dcss.run_read_immutables ptr_extract_toggle
      Let_def)

lemma run_dcss_install_unflagged:
  assumes "weak_failures m = []" "\<not> has_flag dcss_flag_bit (words m a2)"
  shows "run (dcss_install (Suc fuel) a2 e2 fdes) m =
     (Inr (words m a2), if words m a2 = e2 then m\<lparr>words := (words m)(a2 := fdes)\<rparr> else m)"
  using assms by (simp add: cas_word_weak_def)

lemma run_dcss_install:
  assumes "weak_failures m = []" "dcss_ok m a2" "\<not> has_flag dcss_flag_bit e2"
    and "0 < n" "has_flag dcss_flag_bit (words m a2) \<longrightarrow> 1 < n"
  shows "run (dcss_install n a2 e2 fdes) m =
     (Inr (dcss_value m a2),
      m\<lparr>words := (words m)(a2 := if dcss_value m a2 = e2 then fdes else dcss_value m a2)\<rparr>)"
proof (cases "has_flag dcss_flag_bit (words m a2)")
  case False
  then show ?thesis using assms run_dcss_install_unflagged [of m a2 "n - 1" e2 fdes] by simp
next
  case True
  with assms(5) obtain fuel where n: "n = Suc (Suc fuel)" by (cases n; cases "n - 1") auto
  let ?m = "m\<lparr>words := (words m)(a2 := dcss_value m a2)\<rparr>"
  have ne: "words m a2 \<noteq> e2" using True assms(3) by blast
  have "run (dcss_install (Suc (Suc fuel)) a2 e2 fdes) m =
      run (pbind (dcss_help (words m a2)) (\<lambda>_. dcss_install (Suc fuel) a2 e2 fdes)) m"
    using assms(1) True ne by (simp add: cas_word_weak_def)
  also have "\<dots> = run (dcss_install (Suc fuel) a2 e2 fdes) ?m"
    by (rule run_pbind_Inr) (rule run_dcss_help [OF assms(1) True assms(2)])
  also have "\<dots> = (Inr (dcss_value m a2),
      if dcss_value m a2 = e2 then ?m\<lparr>words := (words ?m)(a2 := fdes)\<rparr> else ?m)"
    using assms dcss_value_not_flagged [OF assms(2)]
    by (subst run_dcss_install_unflagged) simp_all
  finally show ?thesis by (simp add: n)
qed

lemma new_pointer_unflagged:
  "\<not> has_flag dcss_flag_bit (ptr_combine 0 pid s)" "\<not> has_flag kcas_flag_bit (ptr_combine 0 pid s)"
  by (simp_all add: bit_pack)

text \<open>
  The state \<open>dcss\<close> publishes: its descriptor with the next sequence number.
\<close>

definition dcss_published :: "mem \<Rightarrow> u64 \<Rightarrow> dcss_immutables \<Rightarrow> dcss_immutables descriptor" where
  "dcss_published m pid v =
     \<lparr>d_state = st_combine 0 (next_seq (st_seq (d_state (dcss_descriptors m pid)))), d_imm = v\<rparr>"

theorem run_dcss:
  assumes solo: "weak_failures m = []" and pid: "unat pid < max_threads"
    and vals: "\<not> has_flag dcss_flag_bit e1" "\<not> has_flag dcss_flag_bit e2"
      "\<not> has_flag dcss_flag_bit n2"
    and a1: "a1_valid ld a1" "ld = Load_default \<longrightarrow> a1 \<noteq> a2"
    and a2: "dcss_ok m a2" "has_flag dcss_flag_bit (words m a2) \<longrightarrow> ptr_pid (words m a2) \<noteq> pid"
    and fuel: "0 < fuel" "has_flag dcss_flag_bit (words m a2) \<longrightarrow> 1 < fuel"
  shows "run (dcss fuel pid a1 ld e1 a2 e2 n2) m =
     (Inr (dcss_value m a2),
      m\<lparr>words := (words m)(a2 := if dcss_value m a2 = e2 \<and> a1_value m ld a1 = e1 then n2
                                else dcss_value m a2),
        dcss_descriptors := (dcss_descriptors m)(pid := dcss_published m pid
          \<lparr>di_a1 = a1, di_a1_load = ld, di_e1 = e1, di_a2 = a2, di_e2 = e2, di_n2 = n2\<rparr>)\<rparr>)"
    (is "_ = (_, m\<lparr>words := ?ws, dcss_descriptors := ?ds\<rparr>)")
proof -
  let ?v = "\<lparr>di_a1 = a1, di_a1_load = ld, di_e1 = e1, di_a2 = a2, di_e2 = e2, di_n2 = n2\<rparr>"
  let ?s = "next_seq (st_seq (d_state (dcss_descriptors m pid)))"
  let ?des = "ptr_combine 0 pid ?s"
  let ?fdes = "toggle_flag dcss_flag_bit ?des"
  let ?m1 = "m\<lparr>dcss_descriptors := ?ds\<rparr>"
  let ?m2 = "?m1\<lparr>words := (words m)(a2 := if dcss_value m a2 = e2 then ?fdes else dcss_value m a2)\<rparr>"
  have fdes: "ptr_pid ?fdes = pid" "ptr_seq ?fdes = ?s" "has_flag dcss_flag_bit ?fdes"
    using new_pointer_fields [OF pid] by (simp_all add: ptr_extract_toggle new_pointer_unflagged)
  have create: "run (dcss_create_new pid a1 ld e1 a2 e2 n2) m = (Inr ?des, ?m1)"
    using vals dcss.run_create_new [OF pid] by (simp add: dcss_create_new_def dcss_published_def)
  have ok1: "dcss_ok ?m1 a2" and val1: "dcss_value ?m1 a2 = dcss_value m a2"
    using a2 by (auto simp: dcss_ok_def dcss_value_def dcss_outcome_def Let_def)
  have install: "run (dcss_install fuel a2 e2 ?fdes) ?m1 = (Inr (dcss_value m a2), ?m2)"
    using run_dcss_install [OF _ ok1 vals(2) fuel(1)] solo fuel(2) by (simp add: val1)
  have ok2: "dcss_ok ?m2 a2" if "dcss_value m a2 = e2"
    using that vals a1 pid fdes
    by (simp add: dcss_ok_def dcss_imm_ok_def dcss_published_def st_extract_combine)
  have val2: "dcss_value ?m2 a2 = (if a1_value m ld a1 = e1 then n2 else e2)" if "dcss_value m a2 = e2"
  proof -
    have "dcss_imm_ok ?v" using vals a1 by (simp add: dcss_imm_ok_def)
    then have "a1_value ?m2 ld a1 = a1_value m ld a1"
      using a1_value_own_word [of ?v m ?fdes] that a1
      by (cases ld) (simp_all add: a1_value_def)
    then show ?thesis using that fdes
      by (simp add: dcss_value_def dcss_outcome_def dcss_published_def)
  qed
  have helped: "run (dcss_help ?fdes) ?m2 = (Inr (), m\<lparr>words := ?ws, dcss_descriptors := ?ds\<rparr>)"
    if "dcss_value m a2 = e2"
    using run_dcss_help [OF _ _ ok2 [OF that]] val2 [OF that] fdes(3) solo that by auto
  show ?thesis
    using create install helped
    by (simp add: dcss_def run_pbind run_set_flag new_pointer_unflagged)
qed

theorem run_dcss_read:
  assumes "weak_failures m = []" "dcss_ok m a"
  shows "run (dcss_read (Suc (Suc fuel)) a) m =
     (Inr (dcss_value m a), m\<lparr>words := (words m)(a := dcss_value m a)\<rparr>)"
proof (cases "has_flag dcss_flag_bit (words m a)")
  case False
  then show ?thesis by (simp add: load_word_def)
next
  case True
  have "run (dcss_read (Suc (Suc fuel)) a) m =
      run (pbind (dcss_help (words m a)) (\<lambda>_. dcss_read (Suc fuel) a)) m"
    using True by (simp add: load_word_def)
  also have "\<dots> = run (dcss_read (Suc fuel) a) (m\<lparr>words := (words m)(a := dcss_value m a)\<rparr>)"
    by (rule run_pbind_Inr) (rule run_dcss_help [OF assms(1) True assms(2)])
  also have "\<dots> = (Inr (dcss_value m a), m\<lparr>words := (words m)(a := dcss_value m a)\<rparr>)"
    using dcss_value_not_flagged [OF assms(2)] by (simp add: load_word_def)
  finally show ?thesis .
qed

text \<open>
  One spurious failure of the weak compare-exchange that should publish the descriptor, and
  \<open>dcss\<close> reports the expected value, its success, with the word untouched.
\<close>

theorem run_dcss_spurious:
  assumes wf: "weak_failures m = [True]" and pid: "unat pid < max_threads"
    and vals: "\<not> has_flag dcss_flag_bit e1" "\<not> has_flag dcss_flag_bit e2"
      "\<not> has_flag dcss_flag_bit n2"
    and a1: "a1_valid ld a1"
    and a2: "words m a2 = e2"
  shows "\<exists>dd. run (dcss (Suc fuel) pid a1 ld e1 a2 e2 n2) m =
     (Inr e2, m\<lparr>dcss_descriptors := dd, weak_failures := []\<rparr>)"
proof -
  let ?v = "\<lparr>di_a1 = a1, di_a1_load = ld, di_e1 = e1, di_a2 = a2, di_e2 = e2, di_n2 = n2\<rparr>"
  let ?s = "next_seq (st_seq (d_state (dcss_descriptors m pid)))"
  let ?fdes = "toggle_flag dcss_flag_bit (ptr_combine 0 pid ?s)"
  let ?ds = "(dcss_descriptors m)(pid := dcss_published m pid ?v)"
  let ?m1 = "m\<lparr>dcss_descriptors := ?ds\<rparr>" and ?m2 = "m\<lparr>dcss_descriptors := ?ds, weak_failures := []\<rparr>"
  have fdes: "ptr_pid ?fdes = pid" "ptr_seq ?fdes = ?s" "has_flag dcss_flag_bit ?fdes"
    using new_pointer_fields [OF pid] by (simp_all add: ptr_extract_toggle new_pointer_unflagged)
  have create: "run (dcss_create_new pid a1 ld e1 a2 e2 n2) m = (Inr (ptr_combine 0 pid ?s), ?m1)"
    using vals dcss.run_create_new [OF pid] by (simp add: dcss_create_new_def dcss_published_def)
  have install: "run (dcss_install (Suc fuel) a2 e2 ?fdes) ?m1 = (Inr e2, ?m2)"
    using wf a2 vals by (simp add: cas_word_weak_def next_weak_def)
  have "?fdes \<noteq> e2" using fdes(3) vals(2) by blast
  then have helped: "run (dcss_help ?fdes) ?m2 = (Inr (), ?m2)"
    using fdes pid a1 a2
    by (simp add: dcss_help_def run_pbind run_unset_flag dcss.run_read_immutables ptr_extract_toggle
        Let_def dcss_published_def st_extract_combine run_a1_load_call cas_word_weak_def)
  show ?thesis
    using create install helped by (auto simp: dcss_def run_pbind run_set_flag new_pointer_unflagged)
qed

section \<open>Properties\<close>

text \<open>
  an uninterrupted \<open>dcss\<close> returns the logical value of its second word and stores the new value
  exactly when that value is the expected one and the first word holds its expected value; an
  operation it finds pending in the word is completed first, no other word changes, and the
  calling thread's descriptor is the only one rewritten.
\<close>

theorem dcss_compares_both_words:
  assumes "weak_failures m = []" and "unat pid < max_threads"
    and "\<not> has_flag dcss_flag_bit e1" and "\<not> has_flag dcss_flag_bit e2" and "\<not> has_flag dcss_flag_bit n2"
    and "a1_valid ld a1" and "ld = Load_default \<longrightarrow> a1 \<noteq> a2"
    and "dcss_ok m a2" and "has_flag dcss_flag_bit (words m a2) \<longrightarrow> ptr_pid (words m a2) \<noteq> pid"
    and "1 < fuel"
  shows "\<exists>d. run (dcss fuel pid a1 ld e1 a2 e2 n2) m =
     (Inr (dcss_value m a2),
      m\<lparr>words := (words m)(a2 := if dcss_value m a2 = e2 \<and> a1_value m ld a1 = e1 then n2
                                else dcss_value m a2),
        dcss_descriptors := (dcss_descriptors m)(pid := d)\<rparr>)"
  using run_dcss [OF assms(1-9), of fuel] assms(10) by auto

lemma dcss_compares_both_words_witness:
  "\<exists>d. run (dcss 2 1 8 Load_default 0 16 0 7) idle_mem =
     (Inr (dcss_value idle_mem 16),
      idle_mem\<lparr>words := (words idle_mem)(16 := if dcss_value idle_mem 16 = 0 \<and>
          a1_value idle_mem Load_default 8 = 0 then 7 else dcss_value idle_mem 16),
        dcss_descriptors := (dcss_descriptors idle_mem)(1 := d)\<rparr>)"
  by (rule dcss_compares_both_words)
    (simp_all add: idle_descriptor max_threads_def a1_valid_def dcss_ok_def has_flag_def
      ptr_extract_def dcss_flag_bit_def layout_defs mask_eq_exp_minus_1)

text \<open>
  One spurious failure of the weak compare-exchange that should publish the descriptor makes
  \<open>dcss\<close> return the expected value, which is how it reports success, although it stored nothing.
\<close>

theorem dcss_spurious_success:
  assumes "weak_failures m = [True]" and "unat pid < max_threads"
    and "\<not> has_flag dcss_flag_bit e1" and "\<not> has_flag dcss_flag_bit e2" and "\<not> has_flag dcss_flag_bit n2"
    and "a1_valid ld a1" and "words m a2 = e2" and "0 < fuel"
  shows "\<exists>dd. run (dcss fuel pid a1 ld e1 a2 e2 n2) m = (Inr e2, m\<lparr>dcss_descriptors := dd, weak_failures := []\<rparr>)"
  using run_dcss_spurious [OF assms(1-7), of "fuel - 1"] assms(8) by simp

lemma dcss_spurious_success_witness:
  "\<exists>dd. run (dcss 1 1 8 Load_default 0 16 0 7) (idle_mem\<lparr>weak_failures := [True]\<rparr>) =
     (Inr 0, idle_mem\<lparr>weak_failures := [True], dcss_descriptors := dd, weak_failures := []\<rparr>)"
  by (rule dcss_spurious_success)
    (simp_all add: idle_descriptor max_threads_def a1_valid_def has_flag_def
      ptr_extract_def dcss_flag_bit_def layout_defs mask_eq_exp_minus_1)

end
