(* ===== verification/Mw_Kcas.thy ===== *)
theory Mw_Kcas
  imports Mw_Dcss
begin

text \<open>
  Compare-and-swap of several words: \<^verbatim>\<open>multiword_kcas.hpp\<close> and
  \<^verbatim>\<open>src/thread/detail/multiword_kcas.cpp\<close>. \<open>kcas_help\<close> installs the flagged descriptor pointer
  in each word with \<open>dcss\<close> while the operation is undecided, decides it, and replaces the pointer
  by the new or the old values. A thread that meets another operation's pointer helps it first.
\<close>

unbundle bit_operations_syntax

section \<open>Operations\<close>

fun kcas_finish :: "nat \<Rightarrow> u64 \<Rightarrow> u64 \<Rightarrow> bool \<Rightarrow> nat \<Rightarrow> (mem, bottom + unit) prog" where
  "kcas_finish 0 des fdes succeded i = Halt Out_of_fuel"
| "kcas_finish (Suc fuel) des fdes succeded i =
     pbind (read_immutables kcas_pool des) (\<lambda>immutables_result.
       case immutables_result of
         Inl _ \<Rightarrow> Ret (Inl Bottom)
       | Inr immutables \<Rightarrow>
           if i \<ge> ki_k immutables then Ret (Inr ())
           else let a = ki_as immutables ! i;
                    n = (if succeded then ki_ns immutables ! i else ki_es immutables ! i)
                in pbind (cas_word_strong a fdes n) (\<lambda>_.
                   kcas_finish fuel des fdes succeded (Suc i)))"

text \<open>
  The fuel bounds both the loop over the words and the depth of the recursion into other
  operations; the process id is the one the thread has in the dcss pool.
\<close>

fun kcas_help :: "nat \<Rightarrow> u64 \<Rightarrow> u64 \<Rightarrow> (mem, bottom + bool) prog"
and kcas_install :: "nat \<Rightarrow> u64 \<Rightarrow> u64 \<Rightarrow> u64 \<Rightarrow> nat \<Rightarrow> (mem, bottom + u64) prog" where
  "kcas_help 0 pid fdes = Halt Out_of_fuel"
| "kcas_help (Suc fuel) pid fdes =
     pbind (unset_flag kcas_flag_bit fdes) (\<lambda>des.
     pbind (read_state des) (\<lambda>initial_state.
       case initial_state of
         Inl _ \<Rightarrow> Ret (Inl Bottom)
       | Inr s \<Rightarrow>
           pbind (if s = state_undecided
                  then pbind (kcas_install fuel pid des fdes 0) (\<lambda>installed.
                    case installed of
                      Inl _ \<Rightarrow> Ret (Inl Bottom)
                    | Inr state \<Rightarrow>
                        cas_mutable kcas_pool state_mask fuel des state_undecided state)
                  else Ret (Inr s)) (\<lambda>cas_result.
             case cas_result of
               Inl _ \<Rightarrow> Ret (Inl Bottom)
             | Inr _ \<Rightarrow>
                 pbind (read_state des) (\<lambda>state.
                 let state_is_succeded = (state = Inr state_succeded)
                 in pbind (kcas_finish fuel des fdes state_is_succeded 0) (\<lambda>finished.
                    case finished of
                      Inl _ \<Rightarrow> Ret (Inl Bottom)
                    | Inr _ \<Rightarrow> Ret (Inr state_is_succeded))))))"
| "kcas_install 0 pid des fdes i = Halt Out_of_fuel"
| "kcas_install (Suc fuel) pid des fdes i =
     pbind (read_immutables kcas_pool des) (\<lambda>immutables_result.
       case immutables_result of
         Inl _ \<Rightarrow> Ret (Inl Bottom)
       | Inr immutables \<Rightarrow>
           if i \<ge> ki_k immutables then Ret (Inr state_succeded)
           else let a2 = ki_as immutables ! i; e2 = ki_es immutables ! i
           in pbind (dcss fuel pid des Load_kcas_state state_undecided a2 e2 fdes) (\<lambda>val.
              if has_flag kcas_flag_bit val
              then if val \<noteq> fdes
                   then pbind (kcas_help fuel pid val) (\<lambda>_. kcas_install fuel pid des fdes i)
                   else kcas_install fuel pid des fdes (Suc i)
              else if val \<noteq> e2 then Ret (Inr state_failed)
              else kcas_install fuel pid des fdes (Suc i)))"

definition kcas_imm :: "nat \<Rightarrow> u64 \<Rightarrow> u64 \<Rightarrow> kcas_immutables \<Rightarrow> (mem, bool) prog" where
  "kcas_imm fuel kpid dpid immutables =
     pbind (create_new kcas_pool kpid state_undecided immutables) (\<lambda>des.
     pbind (set_flag kcas_flag_bit des) (\<lambda>fdes.
     pbind (kcas_help fuel dpid fdes) (\<lambda>result.
       case result of Inl _ \<Rightarrow> Halt Assertion_failed | Inr b \<Rightarrow> Ret b)))"

primrec kcas_read :: "nat \<Rightarrow> u64 \<Rightarrow> u64 \<Rightarrow> (mem, u64) prog" where
  "kcas_read 0 pid a = Halt Out_of_fuel"
| "kcas_read (Suc fuel) pid a =
     pbind (dcss_read fuel a) (\<lambda>r.
       if \<not> has_flag kcas_flag_bit r then Ret r
       else pbind (kcas_help fuel pid r) (\<lambda>_. kcas_read fuel pid a))"

record kcas_arg =
  ka_a :: u64
  ka_e :: u64
  ka_n :: u64

definition kcas_immutables_of :: "kcas_arg list \<Rightarrow> kcas_immutables" where
  "kcas_immutables_of args = \<lparr>
     ki_as = map ka_a args @ replicate (k_max - length args) 0,
     ki_es = map ka_e args @ replicate (k_max - length args) 0,
     ki_ns = map ka_n args @ replicate (k_max - length args) 0,
     ki_k = length args\<rparr>"

definition kcas :: "nat \<Rightarrow> u64 \<Rightarrow> u64 \<Rightarrow> kcas_arg list \<Rightarrow> (mem, bool) prog" where
  "kcas fuel kpid dpid args =
     dassert (list_all (\<lambda>arg. \<not> has_flag kcas_flag_bit (ka_e arg) \<and> \<not> has_flag kcas_flag_bit (ka_n arg)) args)
      (kcas_imm fuel kpid dpid (kcas_immutables_of args))"

section \<open>The contract: one atomic step\<close>

definition kcas_spec :: "kcas_arg list \<Rightarrow> (u64 \<Rightarrow> u64) \<Rightarrow> bool \<times> (u64 \<Rightarrow> u64)" where
  "kcas_spec args w =
     (if list_all (\<lambda>arg. w (ka_a arg) = ka_e arg) args
      then (True, fold (\<lambda>arg w. w(ka_a arg := ka_n arg)) args w)
      else (False, w))"

text \<open>What the two phases do to the words: install pointers, then replace them.\<close>

primrec install_words :: "u64 \<Rightarrow> kcas_arg list \<Rightarrow> (u64 \<Rightarrow> u64) \<Rightarrow> bool \<times> (u64 \<Rightarrow> u64)" where
  "install_words fdes [] w = (True, w)"
| "install_words fdes (arg # args) w =
     (if w (ka_a arg) = ka_e arg then install_words fdes args (w(ka_a arg := fdes)) else (False, w))"

definition finish_word :: "u64 \<Rightarrow> bool \<Rightarrow> kcas_arg \<Rightarrow> (u64 \<Rightarrow> u64) \<Rightarrow> (u64 \<Rightarrow> u64)" where
  "finish_word fdes succeded arg w =
     (if w (ka_a arg) = fdes then w(ka_a arg := if succeded then ka_n arg else ka_e arg) else w)"

lemma finish_words_other:
  "a \<notin> ka_a ` set args \<Longrightarrow>
     fold (finish_word fdes ok) args (w(a := v)) = (fold (finish_word fdes ok) args w)(a := v)"
proof (induction args arbitrary: w)
  case (Cons arg args)
  then have step: "finish_word fdes ok arg (w(a := v)) = (finish_word fdes ok arg w)(a := v)"
    by (auto simp: finish_word_def fun_upd_twist)
  have "a \<notin> ka_a ` set args" using Cons.prems by simp
  from Cons.IH [OF this] show ?case by (simp only: fold_simps step)
qed simp

lemma fold_upd_other:
  "a \<notin> ka_a ` set args \<Longrightarrow>
     fold (\<lambda>arg w. w(ka_a arg := ka_n arg)) args (w(a := v)) =
     (fold (\<lambda>arg w. w(ka_a arg := ka_n arg)) args w)(a := v)"
proof (induction args arbitrary: w)
  case (Cons arg args)
  then have step: "w(a := v, ka_a arg := ka_n arg) = w(ka_a arg := ka_n arg, a := v)"
    by (intro fun_upd_twist) auto
  have "a \<notin> ka_a ` set args" using Cons.prems by simp
  from Cons.IH [OF this] show ?case by (simp only: fold_simps step)
qed simp

lemma kcas_spec_other:
  assumes "\<forall>x \<in> set args. ka_a x \<noteq> a"
  shows "kcas_spec args (w(a := v)) = (fst (kcas_spec args w), (snd (kcas_spec args w))(a := v))"
proof -
  have "list_all (\<lambda>x. (w(a := v)) (ka_a x) = ka_e x) args = list_all (\<lambda>x. w (ka_a x) = ka_e x) args"
    using assms by (intro list.pred_cong) auto
  moreover have "a \<notin> ka_a ` set args" using assms by auto
  ultimately show ?thesis by (simp add: kcas_spec_def fold_upd_other del: fun_upd_apply)
qed

lemma kcas_spec_fail: "\<not> fst (kcas_spec args w) \<Longrightarrow> snd (kcas_spec args w) = w"
  by (simp add: kcas_spec_def split: if_splits)

lemma kcas_spec_Cons:
  assumes "\<forall>x \<in> set args. ka_a x \<noteq> ka_a arg" "w (ka_a arg) = ka_e arg"
  shows "kcas_spec (arg # args) w =
     (fst (kcas_spec args w),
      if fst (kcas_spec args w) then (snd (kcas_spec args w))(ka_a arg := ka_n arg) else w)"
proof -
  have "ka_a arg \<notin> ka_a ` set args" using assms(1) by auto
  from fold_upd_other [OF this] assms(2) show ?thesis
    by (simp add: kcas_spec_def del: fun_upd_apply)
qed

lemma install_words_other:
  "a \<notin> ka_a ` set args \<Longrightarrow> snd (install_words fdes args w) a = w a"
  by (induction args arbitrary: w) auto

lemma install_then_finish:
  assumes "distinct (map ka_a args)" "\<forall>arg \<in> set args. w (ka_a arg) \<noteq> fdes"
    and "install_words fdes args w = (ok, ws)"
  shows "(ok, fold (finish_word fdes ok) args ws) = kcas_spec args w"
  using assms
proof (induction args arbitrary: w)
  case Nil
  then show ?case by (simp add: kcas_spec_def)
next
  case (Cons arg args)
  let ?a = "ka_a arg"
  show ?case
  proof (cases "w ?a = ka_e arg")
    case False
    with Cons.prems(3) have ok: "ok = False" "ws = w" by auto
    have "fold (finish_word fdes False) xs w = w" if "\<forall>x \<in> set xs. w (ka_a x) \<noteq> fdes" for xs
      using that by (induction xs) (simp_all add: finish_word_def)
    from this [of "arg # args"] ok False Cons.prems(2) show ?thesis by (simp add: kcas_spec_def)
  next
    case True
    have a: "?a \<notin> ka_a ` set args" using Cons.prems(1) by auto
    then have ne: "\<forall>x \<in> set args. ka_a x \<noteq> ?a" by (metis image_eqI)
    have inst: "install_words fdes args (w(?a := fdes)) = (ok, ws)" using Cons.prems(3) True by simp
    have IH: "(ok, fold (finish_word fdes ok) args ws) = kcas_spec args (w(?a := fdes))"
      by (rule Cons.IH [OF _ _ inst]) (use Cons.prems(1,2) ne in auto)
    have ws: "ws ?a = fdes" using install_words_other [OF a, of fdes "w(?a := fdes)"] inst by simp
    have "fold (finish_word fdes ok) (arg # args) ws =
        (fold (finish_word fdes ok) args ws)(?a := if ok then ka_n arg else ka_e arg)"
      using ws finish_words_other [OF a] by (simp add: finish_word_def [of fdes ok arg])
    moreover have "ok = fst (kcas_spec args w)"
      "fold (finish_word fdes ok) args ws = (snd (kcas_spec args w))(?a := fdes)"
      using IH unfolding kcas_spec_other [OF ne] prod.inject by blast+
    ultimately show ?thesis
      using True kcas_spec_Cons [of args arg w, OF ne True] kcas_spec_fail [of args w]
      by (cases "fst (kcas_spec args w)") (auto simp: fun_eq_iff)
  qed
qed

section \<open>Solo runs on quiescent words\<close>

text \<open>
  The descriptor a pointer names is live for the arguments: its sequence number matches and its
  immutables are the arguments.
\<close>

definition kcas_live :: "mem \<Rightarrow> u64 \<Rightarrow> kcas_arg list \<Rightarrow> bool" where
  "kcas_live m des args \<longleftrightarrow>
     unat (ptr_pid des) < max_threads \<and>
     ptr_seq des = st_seq (d_state (kcas_descriptors m (ptr_pid des))) \<and>
     d_imm (kcas_descriptors m (ptr_pid des)) = kcas_immutables_of args"

lemma kcas_live_frame [simp]:
  "kcas_live (m\<lparr>words := w\<rparr>) des args = kcas_live m des args"
  "kcas_live (m\<lparr>dcss_descriptors := dd\<rparr>) des args = kcas_live m des args"
  by (simp_all add: kcas_live_def)

lemma run_read_kcas_immutables:
  "kcas_live m des args \<Longrightarrow>
     run (read_immutables kcas_pool des) m = (Inr (Inr (kcas_immutables_of args)), m)"
  by (simp add: kcas.run_read_immutables kcas_live_def Let_def)

lemma kcas_immutables_nth [simp]:
  "ki_k (kcas_immutables_of args) = length args"
  "i < length args \<Longrightarrow> ki_as (kcas_immutables_of args) ! i = ka_a (args ! i)"
  "i < length args \<Longrightarrow> ki_es (kcas_immutables_of args) ! i = ka_e (args ! i)"
  "i < length args \<Longrightarrow> ki_ns (kcas_immutables_of args) ! i = ka_n (args ! i)"
  by (simp_all add: kcas_immutables_of_def nth_append)

lemma run_kcas_finish:
  assumes "kcas_live m des args" "length args - i < fuel"
  shows "run (kcas_finish fuel des fdes ok i) m =
     (Inr (Inr ()), m\<lparr>words := fold (finish_word fdes ok) (drop i args) (words m)\<rparr>)"
  using assms
proof (induction fuel arbitrary: i m)
  case (Suc fuel)
  note rd = run_pbind_Inr [OF run_read_kcas_immutables [OF Suc.prems(1)]]
  show ?case
  proof (cases "i < length args")
    case False
    then show ?thesis by (simp add: rd)
  next
    case True
    have "run (kcas_finish (Suc fuel) des fdes ok i) m =
        run (kcas_finish fuel des fdes ok (Suc i)) (m\<lparr>words := finish_word fdes ok (args ! i) (words m)\<rparr>)"
      using True by (simp add: rd cas_word_strong_def finish_word_def Let_def)
    also have "\<dots> = (Inr (Inr ()), m\<lparr>words := fold (finish_word fdes ok) (drop (Suc i) args)
        (finish_word fdes ok (args ! i) (words m))\<rparr>)"
      using Suc.prems True by (subst Suc.IH) simp_all
    finally show ?thesis using True by (simp add: Cons_nth_drop_Suc [symmetric])
  qed
qed simp

definition plain :: "u64 \<Rightarrow> bool" where
  "plain w \<longleftrightarrow> \<not> has_flag dcss_flag_bit w \<and> \<not> has_flag kcas_flag_bit w"

lemma has_flag_undecided: "\<not> has_flag dcss_flag_bit state_undecided"
  by (simp add: bit_pack state_undecided_def)

lemma run_kcas_install:
  assumes "kcas_live m des args" "kcas_status m des = Inr state_undecided"
    and "weak_failures m = []" "unat pid < max_threads"
    and "\<not> has_flag dcss_flag_bit fdes"
    and "\<forall>arg \<in> set args. plain (ka_e arg)"
    and "\<forall>arg \<in> set (drop i args). plain (words m (ka_a arg))"
    and "distinct (map ka_a args)" "length args - i + 2 < fuel"
  shows "\<exists>dd. (\<forall>q. q \<noteq> pid \<longrightarrow> dd q = dcss_descriptors m q) \<and>
     run (kcas_install fuel pid des fdes i) m =
     (let (ok, ws) = install_words fdes (drop i args) (words m)
      in (Inr (Inr (if ok then state_succeded else state_failed)),
          m\<lparr>words := ws, dcss_descriptors := dd\<rparr>))"
  using assms
proof (induction fuel arbitrary: i m)
  case (Suc fuel)
  note rd = run_pbind_Inr [OF run_read_kcas_immutables [OF Suc.prems(1)]]
  show ?case
  proof (cases "i < length args")
    case False
    then show ?thesis by (intro exI [of _ "dcss_descriptors m"]) (simp add: rd)
  next
    case True
    let ?arg = "args ! i"
    have arg: "?arg \<in> set args" "?arg \<in> set (drop i args)"
      using True by (auto simp: Cons_nth_drop_Suc [symmetric])
    then have plains: "plain (ka_e ?arg)" "plain (words m (ka_a ?arg))" using Suc.prems by auto
    then have dv: "dcss_value m (ka_a ?arg) = words m (ka_a ?arg)" by (simp add: plain_def)
    have fuel: "0 < fuel" using Suc.prems(9) by simp
    let ?dd = "(dcss_descriptors m)(pid := dcss_published m pid \<lparr>di_a1 = des,
        di_a1_load = Load_kcas_state, di_e1 = state_undecided, di_a2 = ka_a ?arg,
        di_e2 = ka_e ?arg, di_n2 = fdes\<rparr>)"
    have "run (dcss fuel pid des Load_kcas_state state_undecided (ka_a ?arg) (ka_e ?arg) fdes) m =
        (Inr (words m (ka_a ?arg)), m\<lparr>words := (words m)(ka_a ?arg :=
            if words m (ka_a ?arg) = ka_e ?arg then fdes else words m (ka_a ?arg)),
          dcss_descriptors := ?dd\<rparr>)"
      using Suc.prems(1-5) plains run_dcss [of m pid state_undecided "ka_e ?arg" fdes Load_kcas_state des
          "ka_a ?arg" fuel]
      by (simp add: fuel plain_def a1_valid_def a1_value_def kcas_live_def dcss_ok_unflagged
          has_flag_undecided dv cong: if_cong)
    then obtain dd1 where frame: "\<forall>q. q \<noteq> pid \<longrightarrow> dd1 q = dcss_descriptors m q" and dcss1:
      "run (dcss fuel pid des Load_kcas_state state_undecided (ka_a ?arg) (ka_e ?arg) fdes) m =
        (Inr (words m (ka_a ?arg)), m\<lparr>words := (words m)(ka_a ?arg :=
            if words m (ka_a ?arg) = ka_e ?arg then fdes else words m (ka_a ?arg)),
          dcss_descriptors := dd1\<rparr>)"
      using that [of ?dd] by simp
    show ?thesis
    proof (cases "words m (ka_a ?arg) = ka_e ?arg")
      case False
      then have "run (kcas_install (Suc fuel) pid des fdes i) m =
          (Inr (Inr state_failed), m\<lparr>words := words m, dcss_descriptors := dd1\<rparr>)"
        using True plains dcss1 by (simp add: rd Let_def run_pbind_Inr [OF dcss1] plain_def)
      with False True frame show ?thesis
        by (intro exI [of _ dd1]) (simp add: Cons_nth_drop_Suc [symmetric])
    next
      case eq: True
      let ?m = "m\<lparr>words := (words m)(ka_a ?arg := fdes), dcss_descriptors := dd1\<rparr>"
      have "run (kcas_install (Suc fuel) pid des fdes i) m = run (kcas_install fuel pid des fdes (Suc i)) ?m"
        using True plains dcss1 eq by (simp add: rd Let_def run_pbind_Inr [OF dcss1] plain_def)
      moreover have "\<exists>dd. (\<forall>q. q \<noteq> pid \<longrightarrow> dd q = dcss_descriptors ?m q) \<and>
          run (kcas_install fuel pid des fdes (Suc i)) ?m =
          (let (ok, ws) = install_words fdes (drop (Suc i) args) (words ?m)
           in (Inr (Inr (if ok then state_succeded else state_failed)),
               ?m\<lparr>words := ws, dcss_descriptors := dd\<rparr>))"
      proof (rule Suc.IH)
        have "ka_a ?arg \<notin> ka_a ` set (drop (Suc i) args)"
          using Suc.prems(8) True
          by (metis Cons_nth_drop_Suc distinct.simps(2) distinct_drop drop_map list.set_map list.simps(9))
        then have "\<forall>arg \<in> set (drop (Suc i) args). ka_a arg \<noteq> ka_a ?arg" by (metis image_eqI)
        then show "\<forall>arg \<in> set (drop (Suc i) args). plain (words ?m (ka_a arg))"
          using Suc.prems(7) True by (auto simp: Cons_nth_drop_Suc [symmetric])
      qed (use Suc.prems True in auto)
      ultimately show ?thesis
        using eq True frame by (auto simp: Cons_nth_drop_Suc [symmetric] split: prod.splits)
    qed
  qed
qed simp

text \<open>Deciding an undecided operation writes its state, and that state is read back.\<close>

lemma mutables_mask_state:
  "mutables_mask AND state_mask = state_mask" "state_succeded AND NOT state_mask = 0"
  "state_failed AND NOT state_mask = 0" "state_undecided AND NOT state_mask = 0"
  "state_succeded AND state_mask = state_succeded" "state_failed AND state_mask = state_failed"
  by (simp_all add: kcas_state_defs layout_defs mask_eq_exp_minus_1)

definition kcas_decided :: "mem \<Rightarrow> u64 \<Rightarrow> u64 \<Rightarrow> mem" where
  "kcas_decided m des state =
     (let d = kcas_descriptors m (ptr_pid des)
      in m\<lparr>kcas_descriptors := (kcas_descriptors m)(ptr_pid des := d\<lparr>d_state :=
           st_combine ((st_mut (d_state d) AND NOT state_mask) OR state) (ptr_seq des)\<rparr>)\<rparr>)"

lemma ptr_seq_masked: "ptr_seq p AND st_sequence_mask = ptr_seq p"
  by (rule word_eq_bitsI) (auto simp: bit_pack layout_defs bit_simps)

lemma run_decide:
  assumes "kcas_live m des args" "kcas_status m des = Inr state_undecided" "weak_failures m = []"
    and "state = state_succeded \<or> state = state_failed"
  shows "run (cas_mutable kcas_pool state_mask (Suc fuel) des state_undecided state) m =
           (Inr (Inr state), kcas_decided m des state)"
    and "kcas_live (kcas_decided m des state) des args"
    and "kcas_status (kcas_decided m des state) des = Inr state"
proof -
  have seq: "ptr_seq des = st_seq (d_state (kcas_descriptors m (ptr_pid des)))"
    and pid: "unat (ptr_pid des) < max_threads"
    using assms(1) by (simp_all add: kcas_live_def)
  have undecided: "st_mut (d_state (kcas_descriptors m (ptr_pid des))) AND state_mask = state_undecided"
    using assms(2) seq by (simp add: kcas_status_def Let_def)
  show "run (cas_mutable kcas_pool state_mask (Suc fuel) des state_undecided state) m =
      (Inr (Inr state), kcas_decided m des state)"
    using assms(3,4) seq pid undecided
    by (subst kcas.run_cas_mutable) (auto simp: mutables_mask_state kcas_decided_def Let_def)
  show "kcas_live (kcas_decided m des state) des args"
    using assms(1) ptr_seq_masked [of des]
    by (simp add: kcas_live_def kcas_decided_def Let_def st_extract_combine)
  have "(mu AND NOT state_mask OR state) AND mutables_mask AND state_mask = state" for mu
    using assms(4) mutables_mask_state
    by (auto simp: and.assoc bit.conj_disj_distrib2)
  then show "kcas_status (kcas_decided m des state) des = Inr state"
    using ptr_seq_masked [of des]
    by (simp add: kcas_status_def kcas_decided_def Let_def st_extract_combine and.assoc)
qed

theorem run_kcas:
  assumes solo: "weak_failures m = []"
    and pids: "unat kpid < max_threads" "unat dpid < max_threads"
    and addrs: "distinct (map ka_a args)"
    and vals: "\<forall>arg \<in> set args. plain (ka_e arg) \<and> \<not> has_flag kcas_flag_bit (ka_n arg)"
    and quiet: "\<forall>arg \<in> set args. plain (words m (ka_a arg))"
    and fuel: "length args + 3 < fuel"
  shows "\<exists>dd kd. (\<forall>q. q \<noteq> dpid \<longrightarrow> dd q = dcss_descriptors m q) \<and>
     (\<forall>q. q \<noteq> kpid \<longrightarrow> kd q = kcas_descriptors m q) \<and>
     st_seq (d_state (kd kpid)) = next_seq (st_seq (d_state (kcas_descriptors m kpid))) \<and>
     run (kcas fuel kpid dpid args) m =
     (Inr (fst (kcas_spec args (words m))),
      m\<lparr>words := snd (kcas_spec args (words m)),
        dcss_descriptors := dd,
        kcas_descriptors := kd\<rparr>)"
proof -
  let ?s = "next_seq (st_seq (d_state (kcas_descriptors m kpid)))"
  let ?des = "ptr_combine 0 kpid ?s" and ?fdes = "toggle_flag kcas_flag_bit (ptr_combine 0 kpid ?s)"
  let ?m1 = "m\<lparr>kcas_descriptors := (kcas_descriptors m)(kpid :=
      \<lparr>d_state = st_combine state_undecided ?s, d_imm = kcas_immutables_of args\<rparr>)\<rparr>"
  obtain f where f: "fuel = Suc f" "length args + 2 < f" using fuel by (cases fuel) auto
  have des: "ptr_pid ?des = kpid" "ptr_seq ?des = ?s" using new_pointer_fields [OF pids(1)] by simp_all
  have live: "kcas_live ?m1 ?des args" and und: "kcas_status ?m1 ?des = Inr state_undecided"
    using pids des by (simp_all add: kcas_live_def kcas_status_def st_extract_combine state_undecided_def)
  have flags: "has_flag kcas_flag_bit ?fdes" "\<not> has_flag dcss_flag_bit ?fdes"
    by (simp_all add: new_pointer_unflagged)
  obtain ok ws where inst: "install_words ?fdes args (words m) = (ok, ws)" by fastforce
  have spec: "(ok, fold (finish_word ?fdes ok) args ws) = kcas_spec args (words m)"
    using flags quiet by (intro install_then_finish [OF addrs _ inst]) (auto simp: plain_def)
  let ?st = "if ok then state_succeded else state_failed"
  obtain dd where frame: "\<forall>q. q \<noteq> dpid \<longrightarrow> dd q = dcss_descriptors m q" and install: "run (kcas_install f dpid ?des ?fdes 0) ?m1 =
      (Inr (Inr ?st), ?m1\<lparr>words := ws, dcss_descriptors := dd\<rparr>)"
    using run_kcas_install [OF live und _ pids(2) flags(2), where i = 0 and fuel = f]
      solo vals quiet addrs f inst by auto
  let ?m2 = "?m1\<lparr>words := ws, dcss_descriptors := dd\<rparr>"
  let ?m3 = "kcas_decided ?m2 ?des ?st"
  have decide: "run (cas_mutable kcas_pool state_mask f ?des state_undecided ?st) ?m2 =
      (Inr (Inr ?st), ?m3)" "kcas_live ?m3 ?des args" "kcas_status ?m3 ?des = Inr ?st"
    using run_decide(1) [of ?m2 ?des args ?st "f - 1"] run_decide(2,3) [of ?m2 ?des args ?st] live und solo f(2)
    by auto
  have finish: "run (kcas_finish f ?des ?fdes ok 0) ?m3 =
      (Inr (Inr ()), ?m3\<lparr>words := snd (kcas_spec args (words m))\<rparr>)"
    using run_kcas_finish [OF decide(2), of 0 f ?fdes ok] f spec [symmetric]
    by (simp add: kcas_decided_def Let_def)
  have read: "run (read_state ?des) m' = (Inr (kcas_status m' ?des), m')" for m'
    using run_read_state des pids by simp
  have ok: "(?st = state_succeded) = ok" by (simp add: kcas_state_defs)
  have helped: "run (kcas_help fuel dpid ?fdes) ?m1 =
      (Inr (Inr ok), ?m3\<lparr>words := snd (kcas_spec args (words m))\<rparr>)"
    using flags und install decide finish ok
    by (simp add: f run_pbind run_unset_flag read Let_def)
  have "list_all (\<lambda>arg. \<not> has_flag kcas_flag_bit (ka_e arg) \<and> \<not> has_flag kcas_flag_bit (ka_n arg)) args"
    using vals by (auto simp: list_all_iff plain_def)
  moreover have "run (create_new kcas_pool kpid state_undecided (kcas_immutables_of args)) m = (Inr ?des, ?m1)"
    using kcas.run_create_new [OF pids(1)] by simp
  ultimately have "run (kcas fuel kpid dpid args) m =
      (Inr ok, ?m3\<lparr>words := snd (kcas_spec args (words m))\<rparr>)"
    using helped by (simp add: kcas_def kcas_imm_def run_pbind run_set_flag new_pointer_unflagged)
  moreover have "ok = fst (kcas_spec args (words m))" using spec by (metis fst_conv)
  ultimately show ?thesis using frame
    by (intro exI [of _ dd] exI [of _ "kcas_descriptors ?m3"]) (simp add: kcas_decided_def Let_def des st_extract_combine)
qed

section \<open>Properties\<close>

text \<open>
  C1: on words no other operation is working on, \<open>kcas\<close> is one atomic step: it terminates, returns
  whether every word held its expected value, and then has replaced all of them by the new values,
  or else none; no other word changes, and only the calling thread's two descriptors are rewritten.
\<close>

theorem kcas_atomic:
  assumes "weak_failures m = []" and "unat kpid < max_threads" and "unat dpid < max_threads"
    and "distinct (map ka_a args)"
    and "\<forall>arg \<in> set args. plain (ka_e arg) \<and> \<not> has_flag kcas_flag_bit (ka_n arg)"
    and "\<forall>arg \<in> set args. plain (words m (ka_a arg))"
    and "length args + 3 < fuel"
  shows "\<exists>d k. run (kcas fuel kpid dpid args) m =
     (Inr (fst (kcas_spec args (words m))),
      m\<lparr>words := snd (kcas_spec args (words m)),
        dcss_descriptors := (dcss_descriptors m)(dpid := d), kcas_descriptors := (kcas_descriptors m)(kpid := k)\<rparr>)"
proof -
  have upd: "f = g(p := f p)" if "\<forall>q. q \<noteq> p \<longrightarrow> f q = g q" for f g :: "u64 \<Rightarrow> 'z descriptor" and p
    using that by (auto simp: fun_eq_iff)
  obtain dd kd where frame: "\<forall>q. q \<noteq> dpid \<longrightarrow> dd q = dcss_descriptors m q"
      "\<forall>q. q \<noteq> kpid \<longrightarrow> kd q = kcas_descriptors m q"
    and run: "run (kcas fuel kpid dpid args) m = (Inr (fst (kcas_spec args (words m))),
      m\<lparr>words := snd (kcas_spec args (words m)), dcss_descriptors := dd, kcas_descriptors := kd\<rparr>)"
    using run_kcas [OF assms] by blast
  have "dd = (dcss_descriptors m)(dpid := dd dpid)" "kd = (kcas_descriptors m)(kpid := kd kpid)"
    by (rule upd [OF frame(1)], rule upd [OF frame(2)])
  with run show ?thesis by metis
qed

lemma kcas_atomic_witness:
  "\<exists>d k. run (kcas 6 1 2 [\<lparr>ka_a = 8, ka_e = 0, ka_n = 5\<rparr>, \<lparr>ka_a = 16, ka_e = 0, ka_n = 6\<rparr>]) idle_mem =
     (Inr (fst (kcas_spec [\<lparr>ka_a = 8, ka_e = 0, ka_n = 5\<rparr>, \<lparr>ka_a = 16, ka_e = 0, ka_n = 6\<rparr>] (words idle_mem))),
      idle_mem\<lparr>words := snd (kcas_spec [\<lparr>ka_a = 8, ka_e = 0, ka_n = 5\<rparr>, \<lparr>ka_a = 16, ka_e = 0, ka_n = 6\<rparr>] (words idle_mem)),
        dcss_descriptors := (dcss_descriptors idle_mem)(2 := d), kcas_descriptors := (kcas_descriptors idle_mem)(1 := k)\<rparr>)"
  by (rule kcas_atomic)
    (simp_all add: idle_descriptor max_threads_def plain_def has_flag_def
      ptr_extract_def dcss_flag_bit_def kcas_flag_bit_def layout_defs mask_eq_exp_minus_1)

end
