(* ===== verification/Mw_Kcas_Order.thy ===== *)
theory Mw_Kcas_Order
  imports Mw_Kcas
begin

text \<open>
  The order of a \<open>kcas\<close>'s words. \<open>kcas_help\<close> installs its pointer word by word in the order of the
  arguments, and helps any other operation whose pointer it meets. Two operations on the same two
  words in opposite orders, each stopped after its first installation, then help each other
  without end: \<open>kcas\<close> needs its callers to agree on an order of the words, which nothing in the
  sources imposes (\<open>channel_impl::try_fulfill_impl\<close> passes the sender's flag first).
\<close>

unbundle bit_operations_syntax

section \<open>Meeting another operation's pointer\<close>

lemma run_dcss_no_fuel:
  assumes "unat pid < max_threads" "\<not> has_flag dcss_flag_bit e1" "\<not> has_flag dcss_flag_bit e2"
    "\<not> has_flag dcss_flag_bit n2"
  shows "fst (run (dcss 0 pid a1 ld e1 a2 e2 n2) m) = Inl Out_of_fuel"
  using assms dcss.run_create_new [OF assms(1)]
  by (simp add: dcss_def dcss_create_new_def run_pbind run_set_flag new_pointer_unflagged)

definition kcas_undecided :: "mem \<Rightarrow> u64 \<Rightarrow> kcas_arg list \<Rightarrow> bool" where
  "kcas_undecided m des args \<longleftrightarrow>
     kcas_live m des args \<and> kcas_status m des = Inr state_undecided \<and>
     \<not> has_flag kcas_flag_bit des \<and> \<not> has_flag dcss_flag_bit des \<and>
     (\<forall>arg \<in> set args. plain (ka_e arg))"

lemma kcas_undecided_frame [simp]:
  "kcas_undecided (m\<lparr>dcss_descriptors := dd\<rparr>) des args = kcas_undecided m des args"
  by (simp add: kcas_undecided_def)

lemma kcas_undecided_cong:
  assumes "kcas_undecided m des args" "kcas_descriptors m' (ptr_pid des) = kcas_descriptors m (ptr_pid des)"
  shows "kcas_undecided m' des args"
  using assms(1) unfolding kcas_undecided_def kcas_live_def kcas_status_def assms(2) .

lemma run_kcas_install_met:
  assumes und: "kcas_undecided m des args" and i: "i < length args"
    and w: "words m (ka_a (args ! i)) = w" "has_flag kcas_flag_bit w" "\<not> has_flag dcss_flag_bit w"
    and fdes: "\<not> has_flag dcss_flag_bit fdes"
    and solo: "weak_failures m = []" and pid: "unat pid < max_threads"
  shows "\<exists>dd. run (kcas_install (Suc (Suc fuel)) pid des fdes i) m =
     run (if w \<noteq> fdes
          then pbind (kcas_help (Suc fuel) pid w) (\<lambda>_. kcas_install (Suc fuel) pid des fdes i)
          else kcas_install (Suc fuel) pid des fdes (Suc i)) (m\<lparr>dcss_descriptors := dd\<rparr>)"
proof -
  let ?arg = "args ! i"
  have live: "kcas_live m des args" and st: "kcas_status m des = Inr state_undecided"
    and e: "plain (ka_e ?arg)" using und i by (auto simp: kcas_undecided_def)
  have dv: "dcss_value m (ka_a ?arg) = w" "w \<noteq> ka_e ?arg"
    using w e by (auto simp: plain_def)
  let ?dd = "(dcss_descriptors m)(pid := dcss_published m pid \<lparr>di_a1 = des,
      di_a1_load = Load_kcas_state, di_e1 = state_undecided, di_a2 = ka_a ?arg,
      di_e2 = ka_e ?arg, di_n2 = fdes\<rparr>)"
  have ok: "dcss_ok m (ka_a ?arg)" using w by (simp add: dcss_ok_unflagged)
  have same: "m\<lparr>words := (words m)(ka_a ?arg := w), dcss_descriptors := ?dd\<rparr> = m\<lparr>dcss_descriptors := ?dd\<rparr>"
    using w(1) by auto
  have "run (dcss (Suc fuel) pid des Load_kcas_state state_undecided (ka_a ?arg) (ka_e ?arg) fdes) m =
      (Inr w, m\<lparr>dcss_descriptors := ?dd\<rparr>)"
    using run_dcss [OF solo pid _ _ fdes, of state_undecided "ka_e ?arg" Load_kcas_state des "ka_a ?arg"
        "Suc fuel"] live e w dv ok same
    by (simp add: plain_def kcas_live_def a1_valid_def has_flag_undecided)
  then have "run (kcas_install (Suc (Suc fuel)) pid des fdes i) m =
     run (if w \<noteq> fdes
          then pbind (kcas_help (Suc fuel) pid w) (\<lambda>_. kcas_install (Suc fuel) pid des fdes i)
          else kcas_install (Suc fuel) pid des fdes (Suc i)) (m\<lparr>dcss_descriptors := ?dd\<rparr>)"
    using run_read_kcas_immutables [OF live] i w(2)
    by (subst kcas_install.simps) (simp add: run_pbind Let_def del: kcas_install.simps kcas_help.simps)
  then show ?thesis by blast
qed

lemma run_kcas_install_little_fuel:
  assumes "kcas_undecided m des args" "i < length args" "\<not> has_flag dcss_flag_bit fdes"
    and "unat pid < max_threads" "fuel \<le> 1"
  shows "fst (run (kcas_install fuel pid des fdes i) m) = Inl Out_of_fuel"
proof (cases fuel)
  case (Suc n)
  with assms(5) have n: "n = 0" by simp
  have e: "plain (ka_e (args ! i))" and live: "kcas_live m des args"
    using assms(1,2) by (auto simp: kcas_undecided_def)
  have "fst (run (dcss 0 pid des Load_kcas_state state_undecided (ka_a (args ! i)) (ka_e (args ! i))
      fdes) m) = Inl Out_of_fuel"
    using e assms by (intro run_dcss_no_fuel) (simp_all add: plain_def has_flag_undecided)
  then show ?thesis
    using run_read_kcas_immutables [OF live] assms(2)
    by (auto simp: Suc n run_pbind Let_def split: sum.splits prod.splits)
qed simp

section \<open>Mutual help never ends\<close>

definition installed_first :: "mem \<Rightarrow> u64 \<Rightarrow> u64 \<Rightarrow> u64 \<Rightarrow> u64 \<Rightarrow> kcas_arg list \<Rightarrow> bool" where
  "installed_first m x y des des' args \<longleftrightarrow>
     kcas_undecided m des args \<and> map ka_a args = [x, y] \<and>
     words m x = toggle_flag kcas_flag_bit des \<and> words m y = toggle_flag kcas_flag_bit des'"

lemma mutual_help_out_of_fuel:
  assumes "installed_first m x y des des' args" "installed_first m y x des' des args'"
    and "des \<noteq> des'" "weak_failures m = []" "unat pid < max_threads"
  shows "fst (run (kcas_help fuel pid (toggle_flag kcas_flag_bit des)) m) = Inl Out_of_fuel"
  using assms
proof (induction fuel arbitrary: m x y des des' args args' rule: less_induct)
  case (less fuel)
  let ?f = "toggle_flag kcas_flag_bit des" and ?f' = "toggle_flag kcas_flag_bit des'"
  have und: "kcas_undecided m des args" and und': "kcas_undecided m des' args'"
    and args: "length args = 2" "ka_a (args ! 0) = x" "ka_a (args ! 1) = y"
    and wx: "words m x = ?f" and wy: "words m y = ?f'"
    using less.prems(1,2) by (auto simp: installed_first_def)
  have flags: "has_flag kcas_flag_bit ?f" "\<not> has_flag dcss_flag_bit ?f"
    "has_flag kcas_flag_bit ?f'" "\<not> has_flag dcss_flag_bit ?f'"
    using und und' by (simp_all add: kcas_undecided_def)
  have ne: "?f' \<noteq> ?f" using less.prems(3) by (metis toggle_toggle(2))
  have inst: "fst (run (kcas_install f pid des ?f 0) m) = Inl Out_of_fuel" if "f < fuel" for f
  proof (cases "f \<le> 1")
    case True
    then show ?thesis using run_kcas_install_little_fuel [OF und _ flags(2) less.prems(5)] args by simp
  next
    case False
    then obtain g where g: "f = Suc (Suc g)" by (cases f; cases "f - 1") auto
    obtain dd where 1: "run (kcas_install f pid des ?f 0) m =
        run (kcas_install (Suc g) pid des ?f 1) (m\<lparr>dcss_descriptors := dd\<rparr>)"
      using run_kcas_install_met [OF und, of 0 ?f ?f pid g] args wx flags less.prems by (auto simp: g)
    let ?m = "m\<lparr>dcss_descriptors := dd\<rparr>"
    have und1: "kcas_undecided ?m des args" using und by simp
    show ?thesis
    proof (cases g)
      case 0
      then show ?thesis
        using 1 run_kcas_install_little_fuel [OF und1 _ flags(2) less.prems(5), of "Suc 0" 1] args
        by (simp del: kcas_install.simps kcas_help.simps)
    next
      case (Suc h)
      obtain dd' where 2: "run (kcas_install (Suc g) pid des ?f 1) ?m =
          run (pbind (kcas_help g pid ?f') (\<lambda>_. kcas_install g pid des ?f 1)) (?m\<lparr>dcss_descriptors := dd'\<rparr>)"
        using run_kcas_install_met [OF und1, of 1 ?f' ?f pid h] args wy flags less.prems ne
        by (auto simp: Suc)
      have "fst (run (kcas_help g pid ?f') (?m\<lparr>dcss_descriptors := dd'\<rparr>)) = Inl Out_of_fuel"
        by (rule less.IH [of g _ y x des' des args' args])
          (use less.prems g that in \<open>auto simp: installed_first_def\<close>)
      then show ?thesis using 1 2 by (auto simp: run_pbind split: sum.splits prod.splits)
    qed
  qed
  show ?case
  proof (cases fuel)
    case (Suc f)
    have "unat (ptr_pid des) < max_threads" "kcas_status m des = Inr state_undecided"
      using und by (simp_all add: kcas_undecided_def kcas_live_def)
    then show ?thesis
      using inst [of f] flags(1)
      by (auto simp: Suc run_pbind run_unset_flag run_read_state split: sum.splits prod.splits)
  qed simp
qed

lemma run_install_second:
  assumes inst: "installed_first m x y des des' args" "installed_first m y x des' des args'"
    and ne: "des \<noteq> des'" and solo: "weak_failures m = []" and pid: "unat pid < max_threads"
  shows "fst (run (kcas_install fuel pid des (toggle_flag kcas_flag_bit des) 1) m) = Inl Out_of_fuel"
proof -
  let ?f = "toggle_flag kcas_flag_bit des" and ?f' = "toggle_flag kcas_flag_bit des'"
  have und: "kcas_undecided m des args" and und': "kcas_undecided m des' args'"
    and args: "length args = 2" "ka_a (args ! 1) = y" and wy: "words m y = ?f'"
    using inst by (auto simp: installed_first_def)
  have flags: "\<not> has_flag dcss_flag_bit ?f" "has_flag kcas_flag_bit ?f'" "\<not> has_flag dcss_flag_bit ?f'"
    using und und' by (simp_all add: kcas_undecided_def)
  have ne': "?f' \<noteq> ?f" using ne by (metis toggle_toggle(2))
  show ?thesis
  proof (cases "fuel \<le> 1")
    case True
    then show ?thesis
      using run_kcas_install_little_fuel [OF und _ flags(1) pid] args by (simp del: kcas_install.simps)
  next
    case False
    then obtain g where g: "fuel = Suc (Suc g)" by (cases fuel; cases "fuel - 1") auto
    obtain dd where 1: "run (kcas_install fuel pid des ?f 1) m =
        run (pbind (kcas_help (Suc g) pid ?f') (\<lambda>_. kcas_install (Suc g) pid des ?f 1)) (m\<lparr>dcss_descriptors := dd\<rparr>)"
      using run_kcas_install_met [OF und, of 1 ?f' ?f pid g] args wy flags ne' solo pid
      by (auto simp: g simp del: kcas_install.simps kcas_help.simps)
    have "fst (run (kcas_help (Suc g) pid ?f') (m\<lparr>dcss_descriptors := dd\<rparr>)) = Inl Out_of_fuel"
      by (rule mutual_help_out_of_fuel [of _ y x des' des args' args])
        (use inst ne solo pid in \<open>auto simp: installed_first_def\<close>)
    then show ?thesis
      using 1 by (auto simp: run_pbind simp del: kcas_install.simps kcas_help.simps split: sum.splits prod.splits)
  qed
qed

section \<open>The interleaving is reachable\<close>

text \<open>
  A \<open>kcas\<close> on words that hold the expected values comes, by its own accesses, to where it has
  installed its pointer in its first word and goes on with the second.
\<close>

lemma kcas_help_undecided:
  "\<exists>B K. kcas_help (Suc fuel) pid fdes =
       pbind (unset_flag kcas_flag_bit fdes) (\<lambda>des. pbind (read_state des) (B des)) \<and>
     (\<forall>des. B des (Inr state_undecided) = pbind (kcas_install fuel pid des fdes 0) (K des))"
  by (subst kcas_help.simps, intro exI conjI, rule refl)
    (simp add: pbind_assoc del: kcas_install.simps, rule allI, rule refl)

lemma reaches_first_installed:
  assumes solo: "weak_failures m = []" and pids: "unat kpid < max_threads" "unat dpid < max_threads"
    and vals: "\<forall>arg \<in> set args. plain (ka_e arg) \<and> \<not> has_flag kcas_flag_bit (ka_n arg)"
    and args: "args \<noteq> []" "words m (ka_a (args ! 0)) = ka_e (args ! 0)"
  shows "\<exists>des dd kd K. ptr_pid des = kpid \<and> (\<forall>q. q \<noteq> kpid \<longrightarrow> kd q = kcas_descriptors m q) \<and>
     (let m' = m\<lparr>words := (words m)(ka_a (args ! 0) := toggle_flag kcas_flag_bit des),
           dcss_descriptors := dd, kcas_descriptors := kd\<rparr>
      in kcas_undecided m' des args \<and>
         reaches (kcas (Suc (Suc (Suc fuel))) kpid dpid args) m
           (pbind (kcas_install (Suc fuel) dpid des (toggle_flag kcas_flag_bit des) 1) K) m')"
proof -
  let ?x = "ka_a (args ! 0)" and ?e = "ka_e (args ! 0)"
  let ?s = "next_seq (st_seq (d_state (kcas_descriptors m kpid)))"
  let ?des = "ptr_combine 0 kpid ?s" and ?fdes = "toggle_flag kcas_flag_bit (ptr_combine 0 kpid ?s)"
  let ?m1 = "m\<lparr>kcas_descriptors := (kcas_descriptors m)(kpid :=
      \<lparr>d_state = st_combine state_undecided ?s, d_imm = kcas_immutables_of args\<rparr>)\<rparr>"
  have des: "ptr_pid ?des = kpid" "ptr_seq ?des = ?s" using new_pointer_fields [OF pids(1)] by simp_all
  have und: "kcas_undecided ?m1 ?des args"
    using pids des vals
    by (simp add: kcas_undecided_def kcas_live_def kcas_status_def st_extract_combine state_undecided_def
        new_pointer_unflagged)
  then have live: "kcas_live ?m1 ?des args" and st: "kcas_status ?m1 ?des = Inr state_undecided"
    by (simp_all add: kcas_undecided_def)
  have flags: "has_flag kcas_flag_bit ?fdes" "\<not> has_flag dcss_flag_bit ?fdes"
    by (simp_all add: new_pointer_unflagged)
  have e: "plain ?e" "plain (words ?m1 ?x)" using vals args by auto
  let ?dd = "(dcss_descriptors m)(dpid := dcss_published ?m1 dpid \<lparr>di_a1 = ?des,
      di_a1_load = Load_kcas_state, di_e1 = state_undecided, di_a2 = ?x, di_e2 = ?e, di_n2 = ?fdes\<rparr>)"
  let ?m2 = "m\<lparr>words := (words m)(?x := ?fdes), dcss_descriptors := ?dd,
      kcas_descriptors := kcas_descriptors ?m1\<rparr>"
  have dcss1: "run (dcss (Suc fuel) dpid ?des Load_kcas_state state_undecided ?x ?e ?fdes) ?m1 = (Inr ?e, ?m2)"
    using run_dcss [of ?m1 dpid state_undecided ?e ?fdes Load_kcas_state ?des ?x "Suc fuel"]
      solo pids flags e args st
    by (simp add: plain_def a1_valid_def a1_value_def des dcss_ok_unflagged has_flag_undecided cong: if_cong)
  have create: "run (create_new kcas_pool kpid state_undecided (kcas_immutables_of args)) m = (Inr ?des, ?m1)"
    using kcas.run_create_new [OF pids(1)] by simp
  have read: "run (read_state ?des) ?m1 = (Inr (Inr state_undecided), ?m1)"
    using run_read_state [of ?des ?m1] st des pids by simp
  have imms: "run (read_immutables kcas_pool ?des) ?m1 = (Inr (Inr (kcas_immutables_of args)), ?m1)"
    by (rule run_read_kcas_immutables [OF live])
  have install: "reaches (kcas_install (Suc (Suc fuel)) dpid ?des ?fdes 0) ?m1
      (kcas_install (Suc fuel) dpid ?des ?fdes 1) ?m2"
    using args e
    by (subst kcas_install.simps)
      (intro reaches_then [OF imms], simp add: Let_def plain_def del: kcas_install.simps kcas_help.simps,
       intro reaches_then [OF dcss1], simp add: plain_def reaches_refl del: kcas_install.simps kcas_help.simps)
  obtain B K where BK: "kcas_help (Suc (Suc (Suc fuel))) dpid ?fdes =
       pbind (unset_flag kcas_flag_bit ?fdes) (\<lambda>des. pbind (read_state des) (B des))"
     "\<forall>des. B des (Inr state_undecided) = pbind (kcas_install (Suc (Suc fuel)) dpid des ?fdes 0) (K des)"
    using kcas_help_undecided by blast
  have unset: "run (unset_flag kcas_flag_bit ?fdes) ?m1 = (Inr ?des, ?m1)"
    using run_unset_flag [OF flags(1), of ?m1] by simp
  have K: "reaches (kcas_help (Suc (Suc (Suc fuel))) dpid ?fdes) ?m1
      (pbind (kcas_install (Suc fuel) dpid ?des ?fdes 1) (K ?des)) ?m2"
    unfolding BK(1)
    by (rule reaches_then [OF unset], rule reaches_then [OF read])
      (unfold BK(2) [rule_format], rule reaches_pbind [OF install])
  from reaches_pbind [OF K] obtain K' where "reaches (kcas (Suc (Suc (Suc fuel))) kpid dpid args) m
      (pbind (kcas_install (Suc fuel) dpid ?des ?fdes 1) K') ?m2"
    using vals that
    by (auto simp: kcas_def kcas_imm_def list_all_iff plain_def pbind_assoc
        simp del: kcas_install.simps kcas_help.simps
        intro!: reaches_then [OF create] reaches_then [OF run_set_flag [OF new_pointer_unflagged(2)]])
  moreover have "kcas_undecided ?m2 ?des args" by (rule kcas_undecided_cong [OF und]) simp
  moreover have "\<forall>q. q \<noteq> kpid \<longrightarrow> kcas_descriptors ?m1 q = kcas_descriptors m q" by simp
  ultimately show ?thesis using des(1)
    by (intro exI [of _ ?des] exI [of _ ?dd] exI [of _ "kcas_descriptors ?m1"] exI [of _ K'])
      (simp add: Let_def del: kcas_install.simps One_nat_def fun_upd_apply)
qed

text \<open>
  Two threads, the same two words in opposite orders, from a memory where both operations would
  succeed: after some accesses of the first thread and then some of the second, what is left of
  the first thread exhausts its fuel, whatever the fuel it was started with.
\<close>

lemma kcas_opposite_orders:
  assumes solo: "weak_failures m = []" and ne: "x \<noteq> y"
    and pids: "unat k1 < max_threads" "unat d1 < max_threads" "unat k2 < max_threads" "unat d2 < max_threads"
      "k1 \<noteq> k2"
    and vals: "plain ex" "plain ey" "\<not> has_flag kcas_flag_bit nx" "\<not> has_flag kcas_flag_bit ny"
    and m: "words m x = ex" "words m y = ey"
  defines "ax \<equiv> \<lparr>ka_a = x, ka_e = ex, ka_n = nx\<rparr>" and "ay \<equiv> \<lparr>ka_a = y, ka_e = ey, ka_n = ny\<rparr>"
  shows "\<exists>p1 m1 p2 m2 des1 des2.
     reaches (kcas (Suc (Suc (Suc fuel))) k1 d1 [ax, ay]) m p1 m1 \<and>
     reaches (kcas (Suc (Suc (Suc fuel2))) k2 d2 [ay, ax]) m1 p2 m2 \<and>
     installed_first m2 x y des1 des2 [ax, ay] \<and> installed_first m2 y x des2 des1 [ay, ax] \<and>
     fst (run p1 m2) = Inl Out_of_fuel"
proof -
  note del = kcas_install.simps(2) kcas_help.simps(2)
  obtain des1 dd1 kd1 K1 m1 where 1: "ptr_pid des1 = k1" "kcas_undecided m1 des1 [ax, ay]"
    "m1 = m\<lparr>words := (words m)(x := toggle_flag kcas_flag_bit des1), dcss_descriptors := dd1, kcas_descriptors := kd1\<rparr>"
    "reaches (kcas (Suc (Suc (Suc fuel))) k1 d1 [ax, ay]) m
       (pbind (kcas_install (Suc fuel) d1 des1 (toggle_flag kcas_flag_bit des1) 1) K1) m1"
    using reaches_first_installed [OF solo pids(1,2), of "[ax, ay]" fuel] vals m
    by (auto simp: ax_def ay_def Let_def plain_def simp del: del)
  have m1: "weak_failures m1 = []" "words m1 y = ey" using 1(3) solo m ne by simp_all
  obtain des2 dd2 kd2 K2 m2 where 2: "ptr_pid des2 = k2" "kcas_undecided m2 des2 [ay, ax]"
    "\<forall>q. q \<noteq> k2 \<longrightarrow> kd2 q = kcas_descriptors m1 q"
    "m2 = m1\<lparr>words := (words m1)(y := toggle_flag kcas_flag_bit des2), dcss_descriptors := dd2, kcas_descriptors := kd2\<rparr>"
    "reaches (kcas (Suc (Suc (Suc fuel2))) k2 d2 [ay, ax]) m1
       (pbind (kcas_install (Suc fuel2) d2 des2 (toggle_flag kcas_flag_bit des2) 1) K2) m2"
    using reaches_first_installed [OF m1(1) pids(3,4), of "[ay, ax]" fuel2] vals m1(2)
    by (auto simp: ax_def ay_def Let_def plain_def simp del: del)
  have und1: "kcas_undecided m2 des1 [ax, ay]"
    by (rule kcas_undecided_cong [OF 1(2)]) (use 1(1) 2(3,4) pids(5) in simp)
  have w: "words m2 x = toggle_flag kcas_flag_bit des1" "words m2 y = toggle_flag kcas_flag_bit des2"
    using 1(3) 2(4) ne by simp_all
  have inst: "installed_first m2 x y des1 des2 [ax, ay]" "installed_first m2 y x des2 des1 [ay, ax]"
    using und1 2(2) w by (simp_all add: installed_first_def ax_def ay_def)
  have des: "des1 \<noteq> des2" using 1(1) 2(1) pids(5) by blast
  have solo2: "weak_failures m2 = []" using 2(4) m1 by simp
  note out = run_install_second [OF inst des solo2 pids(2), of "Suc fuel"]
  have "fst (run (pbind (kcas_install (Suc fuel) d1 des1 (toggle_flag kcas_flag_bit des1) 1) K1) m2) =
      Inl Out_of_fuel"
    using out by (auto simp: run_pbind simp del: del split: sum.splits prod.splits)
  then show ?thesis using 1(4) 2(5) inst by blast
qed

section \<open>Properties\<close>

text \<open>
  C38: two threads start \<open>kcas\<close> on the same two words in opposite orders. There is an interleaving
  (some accesses of the first, then some of the second) after which each has installed its pointer
  in its own first word, and the rest of the first thread, running alone, never ends: it exhausts
  any amount of fuel.
\<close>

theorem kcas_opposite_orders_diverge:
  assumes "weak_failures m = []" and "x \<noteq> y" and "k1 \<noteq> k2"
    and "unat k1 < max_threads" and "unat d1 < max_threads"
    and "unat k2 < max_threads" and "unat d2 < max_threads"
    and "plain (words m x)" and "plain (words m y)"
    and "\<not> has_flag kcas_flag_bit nx" and "\<not> has_flag kcas_flag_bit ny"
  shows "\<exists>p1 m1 p2 m2 des1 des2.
     reaches (kcas (fuel + 3) k1 d1 [\<lparr>ka_a = x, ka_e = words m x, ka_n = nx\<rparr>,
       \<lparr>ka_a = y, ka_e = words m y, ka_n = ny\<rparr>]) m p1 m1 \<and>
     reaches (kcas (fuel2 + 3) k2 d2 [\<lparr>ka_a = y, ka_e = words m y, ka_n = ny\<rparr>,
       \<lparr>ka_a = x, ka_e = words m x, ka_n = nx\<rparr>]) m1 p2 m2 \<and>
     words m2 x = toggle_flag kcas_flag_bit des1 \<and> words m2 y = toggle_flag kcas_flag_bit des2 \<and>
     kcas_status m2 des1 = Inr state_undecided \<and> kcas_status m2 des2 = Inr state_undecided \<and>
     fst (run p1 m2) = Inl Out_of_fuel"
proof -
  have und: "kcas_status m' des = Inr state_undecided \<and> words m' a = toggle_flag kcas_flag_bit des"
    if "installed_first m' a b des des' args" for m' a b des des' args
    using that by (simp add: installed_first_def kcas_undecided_def)
  have fuel: "f + 3 = Suc (Suc (Suc f))" for f :: nat by simp
  show ?thesis unfolding fuel
    using kcas_opposite_orders [OF assms(1,2,4-7,3,8-11) refl refl, of fuel fuel2] und by meson
qed

lemma kcas_opposite_orders_diverge_witness:
  "\<exists>p1 m1 p2 m2 des1 des2.
     reaches (kcas (100 + 3) 1 1 [\<lparr>ka_a = 8, ka_e = words idle_mem 8, ka_n = 1\<rparr>,
       \<lparr>ka_a = 16, ka_e = words idle_mem 16, ka_n = 1\<rparr>]) idle_mem p1 m1 \<and>
     reaches (kcas (100 + 3) 2 2 [\<lparr>ka_a = 16, ka_e = words idle_mem 16, ka_n = 1\<rparr>,
       \<lparr>ka_a = 8, ka_e = words idle_mem 8, ka_n = 1\<rparr>]) m1 p2 m2 \<and>
     words m2 8 = toggle_flag kcas_flag_bit des1 \<and> words m2 16 = toggle_flag kcas_flag_bit des2 \<and>
     kcas_status m2 des1 = Inr state_undecided \<and> kcas_status m2 des2 = Inr state_undecided \<and>
     fst (run p1 m2) = Inl Out_of_fuel"
  by (rule kcas_opposite_orders_diverge)
    (simp_all add: idle_descriptor max_threads_def plain_def has_flag_def
      ptr_extract_def dcss_flag_bit_def kcas_flag_bit_def layout_defs mask_eq_exp_minus_1)

end
