(* ===== verification/Rely_History.thy ===== *)
theory Rely_History
  imports Atomic_Prog "HOL-Library.Sublist"
begin

text \<open>
  Many threads on one memory. The ghost component is the history of the memory, the list of
  all its states up to now; a thread is verified alone, against what the others may append to the history,
  and answers for what it appends itself. The statement is on programs with their accesses, so it
  holds for all interleavings of the threads put together.
\<close>

section \<open>Interference\<close>

definition interference :: "('m list \<Rightarrow> 'm \<Rightarrow> bool) \<Rightarrow> 'm list \<Rightarrow> 'm list \<Rightarrow> bool" where
  "interference e = (\<lambda>H H'. \<exists>m. H' = H @ [m] \<and> e H m)\<^sup>*\<^sup>*"

lemma interference_refl [simp]: "interference e H H"
  by (simp add: interference_def)

lemma interference_trans: "interference e H H' \<Longrightarrow> interference e H' H'' \<Longrightarrow> interference e H H''"
  by (simp add: interference_def)

lemma interference_snoc: "e H m \<Longrightarrow> interference e H (H @ [m])"
  unfolding interference_def by (rule r_into_rtranclp) blast

lemma interference_induct [consumes 1, case_names here more]:
  assumes "interference e H H'" "P H"
    and "\<And>H' m. interference e H H' \<Longrightarrow> P H' \<Longrightarrow> e H' m \<Longrightarrow> P (H' @ [m])"
  shows "P H'"
  using assms(1) unfolding interference_def
  by (induction rule: rtranclp_induct) (use assms(2,3) in \<open>auto simp: interference_def\<close>)

lemma interference_prefix: "interference e H H' \<Longrightarrow> prefix H H'"
  by (induction rule: interference_induct) (auto simp: prefix_def)

section \<open>A thread under interference\<close>

text \<open>
  \<open>guards e g p H Q\<close>: with the history at \<open>H\<close> and others appending by \<open>e\<close>, every access of \<open>p\<close> appends by \<open>g\<close>, no
  assertion fails, and a return is with \<open>Q\<close>.
\<close>

primrec guards ::
  "('m list \<Rightarrow> 'm \<Rightarrow> bool) \<Rightarrow> ('m list \<Rightarrow> 'm \<Rightarrow> bool) \<Rightarrow> ('m, 'a) prog \<Rightarrow> 'm list \<Rightarrow> ('a \<Rightarrow> 'm list \<Rightarrow> bool) \<Rightarrow> bool"
where
  "guards e g (Ret a) = (\<lambda>H Q. \<forall>H'. interference e H H' \<longrightarrow> Q a H')"
| "guards e g (Halt x) = (\<lambda>H Q. x = Out_of_fuel)"
| "guards e g (Step f) = (\<lambda>H Q. \<forall>H'. interference e H H' \<longrightarrow>
     (let r = map_prod (guards e g) id (f (last H')) in g H' (snd r) \<and> fst r (H' @ [snd r]) Q))"

lemma guards_Step [simp]:
  "guards e g (Step f) H Q \<longleftrightarrow> (\<forall>H'. interference e H H' \<longrightarrow>
     g H' (snd (f (last H'))) \<and> guards e g (fst (f (last H'))) (H' @ [snd (f (last H'))]) Q)"
  by (simp add: Let_def)

declare guards.simps(3) [simp del]

lemma guards_interference: "guards e g p H Q \<Longrightarrow> interference e H H' \<Longrightarrow> guards e g p H' Q"
  by (cases p) (auto dest: interference_trans)

lemma guards_mono: "guards e g p H Q \<Longrightarrow> (\<And>a H'. Q a H' \<Longrightarrow> Q' a H') \<Longrightarrow> guards e g p H Q'"
proof (induction p arbitrary: H)
  case (Step f)
  have "guards e g (fst (f m)) H' Q'" if "guards e g (fst (f m)) H' Q" for m H'
    by (rule Step.IH [OF rangeI _ that Step.prems(2)]) (simp_all add: fsts.simps prod.collapse)
  then show ?case using Step.prems(1) by simp
qed auto

lemma guards_pbind:
  "guards e g p H (\<lambda>a H'. guards e g (f a) H' Q) \<Longrightarrow> guards e g (pbind p f) H Q"
proof (induction p arbitrary: H)
  case (Ret a)
  then show ?case by (auto intro: guards_interference)
next
  case (Step h)
  have "guards e g (pbind (fst (h m)) f) H' Q"
    if "guards e g (fst (h m)) H' (\<lambda>a H'. guards e g (f a) H' Q)" for m H'
    by (rule Step.IH [OF rangeI _ that]) (simp add: fsts.simps prod.collapse)
  then show ?case using Step.prems by (simp add: map_prod_def split_beta)
qed simp

lemma guards_then:
  "guards e g p H P \<Longrightarrow> (\<And>a H'. P a H' \<Longrightarrow> guards e g (f a) H' Q) \<Longrightarrow> guards e g (pbind p f) H Q"
  by (rule guards_pbind) (erule guards_mono)

lemma guards_access:
  "(\<And>H'. interference e H H' \<Longrightarrow> g H' (snd (h (last H'))) \<and>
      guards e g (f (fst (h (last H')))) (H' @ [snd (h (last H'))]) Q) \<Longrightarrow>
   guards e g (pbind (access h) f) H Q"
  by (simp add: access_def)

section \<open>All threads together\<close>

text \<open>A step of the machine is an access of some thread, or a change of the memory from outside.\<close>

inductive par_step ::
  "('m \<Rightarrow> 'm \<Rightarrow> bool) \<Rightarrow> ('m, 'a) prog list \<Rightarrow> 'm list \<Rightarrow> ('m, 'a) prog list \<Rightarrow> 'm list \<Rightarrow> bool" for E where
  par_access: "i < length ps \<Longrightarrow> ps ! i = Step f \<Longrightarrow>
    par_step E ps H (ps[i := fst (f (last H))]) (H @ [snd (f (last H))])"
| par_outside: "E (last H) m \<Longrightarrow> par_step E ps H ps (H @ [m])"

inductive par_run ::
  "('m \<Rightarrow> 'm \<Rightarrow> bool) \<Rightarrow> ('m, 'a) prog list \<Rightarrow> 'm list \<Rightarrow> ('m, 'a) prog list \<Rightarrow> 'm list \<Rightarrow> bool" for E ps H where
  par_here: "par_run E ps H ps H"
| par_more: "par_run E ps H ps' H' \<Longrightarrow> par_step E ps' H' ps'' H'' \<Longrightarrow> par_run E ps H ps'' H''"

lemma par_run_guards:
  assumes "par_run E ps H ps' H'"
    and start: "\<And>i. i < length ps \<Longrightarrow> guards (e i) (g i) (ps ! i) H (Q i)"
    and others: "\<And>i j H m. i < length ps \<Longrightarrow> j < length ps \<Longrightarrow> i \<noteq> j \<Longrightarrow> g i H m \<Longrightarrow> e j H m"
    and outside: "\<And>j H m. j < length ps \<Longrightarrow> E (last H) m \<Longrightarrow> e j H m"
    and inv: "I H" "\<And>i H m. i < length ps \<Longrightarrow> I H \<Longrightarrow> g i H m \<Longrightarrow> I (H @ [m])" "\<And>H m. I H \<Longrightarrow> E (last H) m \<Longrightarrow> I (H @ [m])"
  shows "length ps' = length ps \<and> (\<forall>i<length ps. guards (e i) (g i) (ps' ! i) H' (Q i)) \<and> I H'"
  using assms(1)
proof (induction rule: par_run.induct)
  case (par_more ps' H' ps'' H'')
  then have len: "length ps' = length ps" and IH: "I H'"
    and all: "\<And>i. i < length ps \<Longrightarrow> guards (e i) (g i) (ps' ! i) H' (Q i)" by auto
  from par_more(2) show ?case
  proof cases
    case (par_access i f)
    have own: "g i H' (snd (f (last H')))" "guards (e i) (g i) (fst (f (last H'))) H'' (Q i)"
      using all [of i] par_access len by auto
    have "guards (e j) (g j) (ps'' ! j) H'' (Q j)" if "j < length ps" for j
    proof (cases "j = i")
      case False
      have "e j H' (snd (f (last H')))" by (rule others [OF _ that _ own(1)]) (use par_access len False in auto)
      then show ?thesis
        using guards_interference [OF all [OF that] interference_snoc] par_access False by simp
    qed (use own par_access len that in simp)
    then show ?thesis using par_access len inv(2) [OF _ IH own(1)] by simp
  next
    case (par_outside m)
    have "interference (e j) H' (H' @ [m])" if "j < length ps" for j
      by (rule interference_snoc) (rule outside [OF that par_outside(3)])
    then have "guards (e j) (g j) (ps'' ! j) H'' (Q j)" if "j < length ps" for j
      using guards_interference [OF all [OF that]] that par_outside by simp
    then show ?thesis using par_outside len inv(3) [OF IH] by simp
  qed
qed (use start inv(1) in simp)

lemma par_run_trans: "par_run E ps' H' ps'' H'' \<Longrightarrow> par_run E ps H ps' H' \<Longrightarrow> par_run E ps H ps'' H''"
  by (induction rule: par_run.induct) (auto intro: par_run.intros)

text \<open>One thread alone for a while.\<close>

lemma par_run_steps:
  assumes "i < length ps"
  shows "\<exists>F. par_run E ps H (ps[i := fst (steps n (ps ! i) (last H))]) (H @ F) \<and> last (H @ F) = snd (steps n (ps ! i) (last H))"
  using assms
proof (induction n arbitrary: ps H)
  case 0
  then show ?case by (intro exI [of _ "[]"]) (simp add: par_here)
next
  case (Suc n)
  show ?case
  proof (cases "ps ! i")
    case (Step f)
    let ?p = "fst (f (last H))" and ?H = "H @ [snd (f (last H))]"
    have one: "par_run E ps H (ps[i := ?p]) ?H" by (rule par_more [OF par_here]) (rule par_access [OF Suc.prems Step])
    obtain F where "par_run E (ps[i := ?p]) ?H (ps[i := ?p, i := fst (steps n ?p (last ?H))]) (?H @ F)"
      "last (?H @ F) = snd (steps n ?p (last ?H))"
      using Suc.IH [of "ps[i := ?p]" ?H] Suc.prems by auto
    then show ?thesis using par_run_trans [OF _ one] Step by (intro exI [of _ "snd (f (last H)) # F"]) auto
  qed (intro exI [of _ "[]"], simp add: par_here, metis list_update_id par_here)+
qed

lemma par_run_reaches:
  assumes "par_run E ps0 H0 ps H" "i < length ps" "reaches (ps ! i) (last H) p m"
  obtains H' where "par_run E ps0 H0 (ps[i := p]) H'" "last H' = m"
proof -
  obtain n where n: "steps n (ps ! i) (last H) = (p, m)" using assms(3) by (auto simp: reaches_def)
  then obtain F where "par_run E ps H (ps[i := p]) (H @ F)" "last (H @ F) = m"
    using par_run_steps [OF assms(2), of E H n] by auto
  then show thesis using that par_run_trans [OF _ assms(1)] by blast
qed

end
