(* ===== verification/Mw_Dcss_Stuck.thy ===== *)
theory Mw_Dcss_Stuck
  imports Mw_Dcss
begin

unbundle bit_operations_syntax

text \<open>
  The weak compare-exchange at the end of \<open>dcss_help\<close> (\<^verbatim>\<open>thread/detail/multiword_dcss.cpp\<close>) may fail spuriously, and
  nobody tries again: a \<open>dcss\<close> then returns and leaves its descriptor in the word. Once the thread has used its
  descriptor for another \<open>dcss\<close>, that word can never be read or changed again.
\<close>

lemma next_seq_neq: "next_seq s \<noteq> s"
proof
  assume eq: "next_seq s = s"
  have "unat s mod 2 ^ 32 = unat s" using unat_next_seq [of s] eq by (metis mod_mod_trivial)
  then have lt: "unat s < 2 ^ 32" by (metis mod_less_divisor zero_less_numeral zero_less_power)
  have m: "(unat s + 2) mod 2 ^ 32 = unat s" using unat_next_seq [of s] eq by simp
  show False
  proof (cases "unat s + 2 < 2 ^ 32")
    case False
    then have "(unat s + 2) mod 2 ^ 32 = unat s + 2 - 2 ^ 32" using lt by (subst le_mod_geq) simp_all
    then show False using m lt by simp
  qed (use m in simp)
qed

text \<open>A word with a pointer to a descriptor that has moved on.\<close>

definition dead_word :: "mem \<Rightarrow> u64 \<Rightarrow> bool" where
  "dead_word m a \<longleftrightarrow> weak_failures m = [] \<and> has_flag dcss_flag_bit (words m a) \<and> unat (ptr_pid (words m a)) < max_threads \<and>
     ptr_seq (words m a) \<noteq> st_seq (d_state (dcss_descriptors m (ptr_pid (words m a))))"

lemma dead_read: "dead_word m a \<Longrightarrow> run (dcss_read fuel a) m = (Inl Out_of_fuel, m)"
  by (induction fuel) (simp_all add: dead_word_def load_word_def run_pbind run_dcss_help_stale)

lemma dead_install:
  "dead_word m a \<Longrightarrow> \<not> has_flag dcss_flag_bit e \<Longrightarrow> run (dcss_install fuel a e fdes) m = (Inl Out_of_fuel, m)"
proof (induction fuel)
  case (Suc fuel)
  then have "words m a \<noteq> e" by (auto simp: dead_word_def)
  then show ?case using Suc by (simp add: dead_word_def cas_word_weak_def next_weak_def run_pbind run_dcss_help_stale)
qed simp

lemma dead_dcss:
  assumes "dead_word m a" "unat q < max_threads" "ptr_pid (words m a) \<noteq> q"
    and "\<not> has_flag dcss_flag_bit e1" "\<not> has_flag dcss_flag_bit e2" "\<not> has_flag dcss_flag_bit n2"
  shows "fst (run (dcss fuel q a1 ld e1 a e2 n2) m) = Inl Out_of_fuel"
proof -
  let ?v = "\<lparr>di_a1 = a1, di_a1_load = ld, di_e1 = e1, di_a2 = a, di_e2 = e2, di_n2 = n2\<rparr>"
  let ?m = "m\<lparr>dcss_descriptors := (dcss_descriptors m)(q := dcss_published m q ?v)\<rparr>"
  have "run (dcss_create_new q a1 ld e1 a e2 n2) m =
      (Inr (ptr_combine 0 q (next_seq (st_seq (d_state (dcss_descriptors m q))))), ?m)"
    using assms(4-6) dcss.run_create_new [OF assms(2)] by (simp add: dcss_create_new_def dcss_published_def)
  moreover have "dead_word ?m a" using assms(1,3) by (simp add: dead_word_def)
  ultimately show ?thesis
    using dead_install [OF _ assms(5)] by (simp add: dcss_def run_pbind run_set_flag new_pointer_unflagged)
qed

text \<open>The \<open>dcss\<close> whose last compare-exchange fails.\<close>

lemma run_dcss_unfinished:
  assumes wf: "weak_failures m = [False, True]" and pid: "unat pid < max_threads"
    and vals: "\<not> has_flag dcss_flag_bit e1" "\<not> has_flag dcss_flag_bit e2" "\<not> has_flag dcss_flag_bit n2"
    and a1: "a1_valid ld a1" and a2: "words m a2 = e2"
  defines "v \<equiv> \<lparr>di_a1 = a1, di_a1_load = ld, di_e1 = e1, di_a2 = a2, di_e2 = e2, di_n2 = n2\<rparr>"
    and "fdes \<equiv> toggle_flag dcss_flag_bit (ptr_combine 0 pid (next_seq (st_seq (d_state (dcss_descriptors m pid)))))"
  shows "run (dcss (Suc fuel) pid a1 ld e1 a2 e2 n2) m =
     (Inr e2, m\<lparr>words := (words m)(a2 := fdes), dcss_descriptors := (dcss_descriptors m)(pid := dcss_published m pid v), weak_failures := []\<rparr>)"
proof -
  let ?s = "next_seq (st_seq (d_state (dcss_descriptors m pid)))"
  let ?ds = "(dcss_descriptors m)(pid := dcss_published m pid v)"
  let ?m1 = "m\<lparr>dcss_descriptors := ?ds\<rparr>"
  let ?m2 = "m\<lparr>words := (words m)(a2 := fdes), dcss_descriptors := ?ds, weak_failures := [True]\<rparr>"
  have f: "ptr_pid fdes = pid" "ptr_seq fdes = ?s" "has_flag dcss_flag_bit fdes"
    using new_pointer_fields [OF pid] by (simp_all add: fdes_def ptr_extract_toggle new_pointer_unflagged)
  have create: "run (dcss_create_new pid a1 ld e1 a2 e2 n2) m = (Inr (ptr_combine 0 pid ?s), ?m1)"
    using vals dcss.run_create_new [OF pid] by (simp add: dcss_create_new_def dcss_published_def v_def)
  have install: "run (dcss_install (Suc fuel) a2 e2 fdes) ?m1 = (Inr e2, ?m2)"
    using wf a2 vals by (simp add: cas_word_weak_def next_weak_def)
  have helped: "run (dcss_help fdes) ?m2 = (Inr (), ?m2\<lparr>weak_failures := []\<rparr>)"
    using f pid a1 by (simp add: dcss_help_def run_pbind run_unset_flag dcss.run_read_immutables ptr_extract_toggle
        Let_def dcss_published_def st_extract_combine run_a1_load_call cas_word_weak_def next_weak_def v_def)
  show ?thesis
    using create install helped by (simp add: dcss_def run_pbind run_set_flag new_pointer_unflagged fdes_def)
qed

section \<open>Properties\<close>

text \<open>
  C35: A spurious failure at the end of \<open>dcss_help\<close> loses a word for ever. A \<open>dcss\<close> to which it happens returns
  the expected value, its success, and leaves the word pointing to its descriptor. If the same
  thread then does one more \<open>dcss\<close>, on another word and before anybody has helped, the sequence number has moved on: from
  then on helping does nothing, no read of the word returns, and no \<open>dcss\<close> of another thread on it, however long
  they try.
\<close>

theorem dcss_help_failure_is_fatal:
  assumes "weak_failures m = [False, True]" "unat pid < max_threads"
    and "\<not> has_flag dcss_flag_bit e1" "\<not> has_flag dcss_flag_bit e2" "\<not> has_flag dcss_flag_bit n2" "a1_valid ld a1" "words m a2 = e2"
    and "\<not> has_flag dcss_flag_bit f1" "\<not> has_flag dcss_flag_bit f2" "\<not> has_flag dcss_flag_bit k2" "a1_valid ld' b1"
    and "ld' = Load_default \<longrightarrow> b1 \<noteq> b2" "b2 \<noteq> a2" "\<not> has_flag dcss_flag_bit (words m b2)" "0 < fuel"
  shows "\<exists>m1 m2. run (dcss fuel pid a1 ld e1 a2 e2 n2) m = (Inr e2, m1) \<and> has_flag dcss_flag_bit (words m1 a2) \<and>
     run (dcss fuel pid b1 ld' f1 b2 f2 k2) m1 = (Inr (words m b2), m2) \<and>
     (\<forall>n. run (dcss_read n a2) m2 = (Inl Out_of_fuel, m2)) \<and>
     (\<forall>n q c1 lc x1 x2 y2. unat q < max_threads \<longrightarrow> q \<noteq> pid \<longrightarrow> \<not> has_flag dcss_flag_bit x1 \<longrightarrow> \<not> has_flag dcss_flag_bit x2 \<longrightarrow>
        \<not> has_flag dcss_flag_bit y2 \<longrightarrow> fst (run (dcss n q c1 lc x1 a2 x2 y2) m2) = Inl Out_of_fuel)"
proof -
  let ?s = "next_seq (st_seq (d_state (dcss_descriptors m pid)))"
  define fdes where "fdes = toggle_flag dcss_flag_bit (ptr_combine 0 pid ?s)"
  have f: "ptr_pid fdes = pid" "ptr_seq fdes = ?s" "has_flag dcss_flag_bit fdes"
    using new_pointer_fields [OF assms(2)] by (simp_all add: fdes_def ptr_extract_toggle new_pointer_unflagged)
  obtain m1 where m1: "run (dcss fuel pid a1 ld e1 a2 e2 n2) m = (Inr e2, m1)" "words m1 = (words m)(a2 := fdes)" "weak_failures m1 = []"
    "st_seq (d_state (dcss_descriptors m1 pid)) = ?s"
    using run_dcss_unfinished [OF assms(1-7), of "fuel - 1"] assms(15)
    by (simp add: fdes_def dcss_published_def st_extract_combine)
  have w: "words m1 b2 = words m b2" using assms(13) by (simp add: m1(2))
  then have unfl: "\<not> has_flag dcss_flag_bit (words m1 b2)" using assms(14) by simp
  obtain m2 where m2: "run (dcss fuel pid b1 ld' f1 b2 f2 k2) m1 = (Inr (words m b2), m2)" "words m2 a2 = fdes" "weak_failures m2 = []"
    "st_seq (d_state (dcss_descriptors m2 pid)) = next_seq ?s"
    using run_dcss [OF m1(3) assms(2,8-12) dcss_ok_unflagged [OF unfl] _ assms(15)] unfl w assms(13)
    by (simp add: m1(2-4) dcss_published_def st_extract_combine)
  have "next_seq ?s \<noteq> ?s" by (rule next_seq_neq)
  then have dead: "dead_word m2 a2" using assms(2) by (simp add: dead_word_def m2 f)
  have "fst (run (dcss n q c1 lc x1 a2 x2 y2) m2) = Inl Out_of_fuel"
    if "unat q < max_threads" "q \<noteq> pid" "\<not> has_flag dcss_flag_bit x1" "\<not> has_flag dcss_flag_bit x2" "\<not> has_flag dcss_flag_bit y2"
    for n q c1 lc x1 x2 y2
    using dead_dcss [OF dead that(1) _ that(3-5)] that(2) by (simp add: m2(2) f(1))
  then show ?thesis using m1(1,2) m2(1) dead_read [OF dead] f(3) by auto
qed

theorem dcss_help_failure_is_fatal_witness:
  "\<exists>m1 m2. run (dcss 1 1 8 Load_default 0 16 0 7) (idle_mem\<lparr>weak_failures := [False, True]\<rparr>) = (Inr 0, m1) \<and>
     run (dcss 1 1 8 Load_default 0 24 0 9) m1 = (Inr 0, m2) \<and> (\<forall>n. run (dcss_read n 16) m2 = (Inl Out_of_fuel, m2))"
proof -
  have flags: "\<not> has_flag dcss_flag_bit (n :: u64)" if "n \<in> {0, 7, 9}" for n
    using that by (auto simp: has_flag_def ptr_extract_def dcss_flag_bit_def layout_defs mask_eq_exp_minus_1)
  show ?thesis
    using dcss_help_failure_is_fatal [of "idle_mem\<lparr>weak_failures := [False, True]\<rparr>" 1 0 0 7 Load_default 8 16 0 0 9 Load_default 8 24 1]
    by (simp add: idle_descriptor max_threads_def a1_valid_def flags) blast
qed

end
