(* ===== verification/Mw_Kcas_Dead.thy ===== *)
theory Mw_Kcas_Dead
  imports Mw_Kcas_Order Rely_History Mw_Dcss_Stuck
begin

text \<open>
  A helper that comes too late. \<open>kcas_help\<close> stores its pointer with a \<open>dcss\<close>, which reads the state of the operation
  first and stores the pointer later. In between, the operation can fail, be cleaned up and forgotten,
  its descriptor reused; the pointer then stays in the word.
\<close>

section \<open>A word nobody can help\<close>

definition dead_kcas_word :: "mem \<Rightarrow> u64 \<Rightarrow> bool" where
  "dead_kcas_word m a \<longleftrightarrow> (let w = words m a in weak_failures m = [] \<and> has_flag kcas_flag_bit w \<and> \<not> has_flag dcss_flag_bit w \<and>
     unat (ptr_pid w) < max_threads \<and> ptr_seq w \<noteq> st_seq (d_state (kcas_descriptors m (ptr_pid w))))"



lemma dead_kcas_word_frame [simp]: "dead_kcas_word (m\<lparr>dcss_descriptors := dd\<rparr>) a = dead_kcas_word m a"
  by (simp add: dead_kcas_word_def)




section \<open>A thread stopped inside an installation\<close>








section \<open>Three threads\<close>





















section \<open>Property\<close>



end
