(* ===== verification/Mw_Dcss_Race.thy ===== *)
theory Mw_Dcss_Race
  imports Mw_Dcss Rely_History
begin

text \<open>
  \<open>dcss\<close> and \<open>dcss_read\<close> of \<^verbatim>\<open>src/thread/detail/multiword_dcss.cpp\<close> with every access interleaved. Any number of threads, each
  with its own reusable descriptor, work on the data words \<open>D\<close>; they meet each other's descriptors in the words,
  help, and are overtaken while they help. The history of the memory is the ghost component: what a thread
  knows of the past (that it saw a pointer in a word, when it read the control word) is a fact
  on the history, and what nobody may do is a condition on how it goes on. \<open>Ops p\<close> are the calls thread \<open>p\<close> may make.

  Compare-exchanges do not fail spuriously here; what happens when they do is the subject of \<open>dcss_spurious_success\<close>
  and of \<open>Mw_Dcss_Stuck\<close>. Sequence numbers do not wrap around, which bounds the number of calls.
\<close>

section \<open>Histories\<close>

abbreviation flagged :: "u64 \<Rightarrow> bool" where
  "flagged w \<equiv> has_flag dcss_flag_bit w"

definition dcss_seq :: "mem \<Rightarrow> u64 \<Rightarrow> nat" where
  "dcss_seq m p = unat (st_seq (d_state (dcss_descriptors m p)))"

text \<open>Every pointer in a data word is that of a call in progress, on this word.\<close>

definition genuine :: "u64 set \<Rightarrow> (u64 \<Rightarrow> dcss_immutables set) \<Rightarrow> mem \<Rightarrow> bool" where
  "genuine D Ops m \<longleftrightarrow> weak_failures m = [] \<and>
     (\<forall>a\<in>D. let w = words m a in flagged w \<longrightarrow> unat (ptr_pid w) < max_threads \<and> even (dcss_seq m (ptr_pid w)) \<and>
       unat (ptr_seq w) = dcss_seq m (ptr_pid w) \<and> di_a2 (dcss_imm_of m w) = a \<and> dcss_imm_of m w \<in> Ops (ptr_pid w))"

text \<open>
  How a word may change: a pointer that was never anywhere before replaces the value its call expects; a
  pointer is replaced by the value that helping it would have stored at some moment since it came.
\<close>

definition installs :: "u64 set \<Rightarrow> mem list \<Rightarrow> mem \<Rightarrow> u64 \<Rightarrow> bool" where
  "installs D H m a \<longleftrightarrow> \<not> flagged (words (last H) a) \<and> flagged (words m a) \<and>
     di_e2 (dcss_imm_of m (words m a)) = words (last H) a \<and> (\<forall>h\<in>set H. \<forall>b\<in>D. words h b \<noteq> words m a)"

definition removes :: "mem list \<Rightarrow> mem \<Rightarrow> u64 \<Rightarrow> bool" where
  "removes H m a \<longleftrightarrow> flagged (words (last H) a) \<and>
     (\<exists>d<length H. (\<forall>j. d \<le> j \<and> j < length H \<longrightarrow> words (H ! j) a = words (last H) a) \<and> words m a = dcss_value (H ! d) a)"

definition may_follow :: "u64 set \<Rightarrow> mem list \<Rightarrow> mem \<Rightarrow> bool" where
  "may_follow D H m \<longleftrightarrow>
     (\<forall>p. dcss_seq m p = dcss_seq (last H) p \<or> dcss_seq m p = Suc (dcss_seq (last H) p)) \<and>
     (\<forall>p. d_imm (dcss_descriptors m p) \<noteq> d_imm (dcss_descriptors (last H) p) \<longrightarrow>
       odd (dcss_seq m p) \<and> dcss_seq m p = dcss_seq (last H) p) \<and>
     (\<forall>a\<in>D. words m a \<noteq> words (last H) a \<longrightarrow> installs D H m a \<or> removes H m a)"

inductive history :: "u64 set \<Rightarrow> (u64 \<Rightarrow> dcss_immutables set) \<Rightarrow> mem list \<Rightarrow> bool" for D Ops where
  history_begin: "genuine D Ops m \<Longrightarrow> history D Ops [m]"
| history_snoc: "history D Ops H \<Longrightarrow> genuine D Ops m \<Longrightarrow> may_follow D H m \<Longrightarrow> history D Ops (H @ [m])"

definition ops_ok :: "u64 set \<Rightarrow> (u64 \<Rightarrow> dcss_immutables set) \<Rightarrow> bool" where
  "ops_ok D Ops \<longleftrightarrow> (\<forall>p. \<forall>v\<in>Ops p. dcss_imm_ok v \<and> di_a2 v \<in> D \<and> \<not> has_flag dcss_flag_bit (di_e1 v) \<and>
     (di_a1_load v = Load_default \<longrightarrow> di_a1 v \<notin> D))"

lemma history_nonempty: "history D Ops H \<Longrightarrow> H \<noteq> []"
  by (cases rule: history.cases) auto

lemma history_nth: "history D Ops H \<Longrightarrow> k < length H \<Longrightarrow> genuine D Ops (H ! k)"
  by (induction arbitrary: k rule: history.induct) (auto simp: nth_append less_Suc_eq)

lemma history_last: "history D Ops H \<Longrightarrow> genuine D Ops (last H)"
  using history_nth [of D Ops H "length H - 1"] history_nonempty [of D Ops H] by (simp add: last_conv_nth)

lemma history_next:
  "history D Ops H \<Longrightarrow> Suc k < length H \<Longrightarrow> may_follow D (take (Suc k) H) (H ! Suc k)"
proof (induction arbitrary: k rule: history.induct)
  case (history_snoc H m)
  then show ?case by (cases "Suc k = length H") (auto simp: nth_append)
qed simp

lemma last_take: "Suc k \<le> length H \<Longrightarrow> last (take (Suc k) H) = H ! k"
  by (simp add: take_Suc_conv_app_nth)

lemma history_same: "history D Ops H \<Longrightarrow> history D Ops (H @ [last H])"
  by (rule history_snoc) (auto simp: history_last may_follow_def)

lemma last_snoc_nth: "i < length H \<Longrightarrow> (H @ F) ! i = H ! i"
  by (simp add: nth_append)

text \<open>Sequence numbers only grow, and at an even one the members do not change.\<close>

lemma seq_mono:
  assumes "history D Ops H" "i \<le> j" "j < length H"
  shows "dcss_seq (H ! i) p \<le> dcss_seq (H ! j) p"
  using assms(2,3)
proof (induction rule: dec_induct)
  case (step n)
  have "may_follow D (take (Suc n) H) (H ! Suc n)" using history_next [OF assms(1)] step by simp
  then have "dcss_seq (H ! n) p \<le> dcss_seq (H ! Suc n) p"
    using step unfolding may_follow_def by (metis last_take Suc_lessD le_SucI less_imp_le order_refl)
  then show ?case using step by simp
qed simp

lemma imm_const:
  assumes "history D Ops H" "i \<le> j" "j < length H" "dcss_seq (H ! i) p = dcss_seq (H ! j) p" "even (dcss_seq (H ! i) p)"
  shows "d_imm (dcss_descriptors (H ! i) p) = d_imm (dcss_descriptors (H ! j) p)"
  using assms(2-5)
proof (induction rule: dec_induct)
  case (step n)
  have le: "dcss_seq (H ! i) p \<le> dcss_seq (H ! n) p" "dcss_seq (H ! n) p \<le> dcss_seq (H ! Suc n) p"
    by (rule seq_mono [OF assms(1)]; use step in simp)+
  have "may_follow D (take (Suc n) H) (H ! Suc n)" using history_next [OF assms(1)] step by simp
  then have "d_imm (dcss_descriptors (H ! Suc n) p) = d_imm (dcss_descriptors (H ! n) p)"
    using step le unfolding may_follow_def by (metis last_take Suc_lessD less_imp_le)
  then show ?case using step le by simp
qed simp

lemma value_unflagged:
  assumes "ops_ok D Ops" "genuine D Ops m" "a \<in> D"
  shows "\<not> flagged (dcss_value m a)"
proof (cases "flagged (words m a)")
  case True
  then have "dcss_imm_ok (dcss_imm_of m (words m a))"
    using assms by (auto simp: genuine_def ops_ok_def Let_def)
  then show ?thesis using True by (auto simp: dcss_value_def dcss_outcome_def dcss_imm_ok_def Let_def)
qed simp

lemma first_change:
  assumes "i < (j :: nat)" "P i" "\<not> P j"
  obtains k where "i \<le> k" "k < j" "P k" "\<not> P (Suc k)"
proof -
  have "\<exists>k. i \<le> k \<and> k < j \<and> P k \<and> \<not> P (Suc k)"
    using assms(1,3)
  proof (induction j)
    case (Suc j)
    show ?case
    proof (cases "P j")
      case True
      then show ?thesis using Suc.prems by (intro exI [of _ j]) auto
    next
      case False
      then have "i < j" using Suc.prems(1) assms(2) by (cases "i = j") auto
      then show ?thesis using Suc.IH [OF _ False] by (auto intro: less_SucI)
    qed
  qed simp
  then show thesis using that by blast
qed

lemma history_change:
  assumes "history D Ops H" "Suc k < length H" "a \<in> D" "words (H ! Suc k) a \<noteq> words (H ! k) a"
  shows "installs D (take (Suc k) H) (H ! Suc k) a \<or> removes (take (Suc k) H) (H ! Suc k) a"
  using history_next [OF assms(1,2)] assms(2-4) unfolding may_follow_def by (simp add: last_take)

text \<open>A pointer stays in a word for one stretch of time.\<close>

lemma one_stretch:
  assumes ok: "ops_ok D Ops" and h: "history D Ops H" and a: "a \<in> D"
    and ij: "i \<le> k" "k \<le> j" "j < length H" and w: "words (H ! i) a = w" "words (H ! j) a = w" "flagged w"
  shows "words (H ! k) a = w"
proof (rule ccontr)
  assume ne: "words (H ! k) a \<noteq> w"
  then have "k < j" using ij w(2) by (cases "k = j") auto
  then obtain n where n: "k \<le> n" "n < j" "words (H ! n) a \<noteq> w" "\<not> words (H ! Suc n) a \<noteq> w"
    by (rule first_change [where P = "\<lambda>n. words (H ! n) a \<noteq> w"]) (use ne w(2) in auto)
  then have len: "Suc n < length H" using ij by simp
  have "installs D (take (Suc n) H) (H ! Suc n) a \<or> removes (take (Suc n) H) (H ! Suc n) a"
    using history_change [OF h len a] n by auto
  then show False
  proof
    assume "installs D (take (Suc n) H) (H ! Suc n) a"
    moreover have "H ! i \<in> set (take (Suc n) H)" using ij(1) n(1) len by (auto simp: in_set_conv_nth intro!: exI [of _ i])
    ultimately show False using a n(4) w(1) unfolding installs_def by blast
  next
    assume "removes (take (Suc n) H) (H ! Suc n) a"
    then obtain d where "d < Suc n" "words (H ! Suc n) a = dcss_value (H ! d) a"
      unfolding removes_def by auto
    then show False using value_unflagged [OF ok history_nth [OF h] a, of d] n(4) w(3) len by auto
  qed
qed

text \<open>When it is gone, it was removed, with a value it stood for meanwhile.\<close>

lemma removal:
  assumes ok: "ops_ok D Ops" and h: "history D Ops H" and a: "a \<in> D"
    and ij: "i < j" "j < length H" and w: "words (H ! i) a = w" "words (H ! j) a \<noteq> w" "flagged w"
  obtains k d where "i \<le> k" "k < j" "words (H ! k) a = w" "d \<le> k" "\<And>l. d \<le> l \<Longrightarrow> l \<le> k \<Longrightarrow> words (H ! l) a = w"
    "words (H ! Suc k) a = dcss_value (H ! d) a" "\<not> flagged (words (H ! Suc k) a)"
proof -
  obtain k where k: "i \<le> k" "k < j" "words (H ! k) a = w" "words (H ! Suc k) a \<noteq> w"
    using first_change [OF ij(1), where P = "\<lambda>n. words (H ! n) a = w"] w by metis
  have len: "Suc k < length H" using k(2) ij(2) by simp
  have lt: "last (take (Suc k) H) = H ! k" by (rule last_take) (use len in simp)
  have "\<not> installs D (take (Suc k) H) (H ! Suc k) a" using k(3) w(3) lt by (simp add: installs_def)
  moreover have "words (H ! Suc k) a \<noteq> words (H ! k) a" using k(3,4) by simp
  ultimately have "removes (take (Suc k) H) (H ! Suc k) a" using history_change [OF h len a] by blast
  then obtain d where d: "d < length (take (Suc k) H)"
    "\<forall>l. d \<le> l \<and> l < length (take (Suc k) H) \<longrightarrow> words (take (Suc k) H ! l) a = words (H ! k) a"
    "words (H ! Suc k) a = dcss_value (take (Suc k) H ! d) a"
    unfolding removes_def lt by blast
  have n: "length (take (Suc k) H) = Suc k" using len by simp
  have d1: "d < Suc k" using d(1) unfolding n .
  have d2: "words (H ! l) a = w" if "d \<le> l" "l \<le> k" for l using d(2) that k(3) unfolding n by simp
  have d3: "words (H ! Suc k) a = dcss_value (H ! d) a" using d(3) d1 by simp
  show thesis
  proof (rule that [OF k(1,2,3), of d])
    show "d \<le> k" using d1 by simp
    show "\<And>l. d \<le> l \<Longrightarrow> l \<le> k \<Longrightarrow> words (H ! l) a = w" by (rule d2)
    show "words (H ! Suc k) a = dcss_value (H ! d) a" by (rule d3)
    show "\<not> flagged (words (H ! Suc k) a)"
      using value_unflagged [OF ok history_nth [OF h] a, of d] d1 d3 len by simp
  qed
qed

section \<open>What a thread does, and what the others do\<close>

text \<open>Only the owner writes a descriptor, and only it puts pointers to it into words.\<close>

definition own :: "u64 set \<Rightarrow> u64 \<Rightarrow> mem \<Rightarrow> mem \<Rightarrow> bool" where
  "own D q m m' \<longleftrightarrow> (\<forall>p. p \<noteq> q \<longrightarrow> dcss_descriptors m' p = dcss_descriptors m p) \<and>
     (\<forall>a\<in>D. flagged (words m' a) \<longrightarrow> ptr_pid (words m' a) \<noteq> q \<longrightarrow> words m a = words m' a)"

definition alien :: "u64 set \<Rightarrow> u64 \<Rightarrow> mem \<Rightarrow> mem \<Rightarrow> bool" where
  "alien D q m m' \<longleftrightarrow> dcss_descriptors m' q = dcss_descriptors m q \<and>
     (\<forall>a\<in>D. flagged (words m' a) \<longrightarrow> ptr_pid (words m' a) = q \<longrightarrow> words m a = words m' a)"

definition self :: "u64 set \<Rightarrow> (u64 \<Rightarrow> dcss_immutables set) \<Rightarrow> u64 \<Rightarrow> mem list \<Rightarrow> mem \<Rightarrow> bool" where
  "self D Ops q H m \<longleftrightarrow> (history D Ops H \<longrightarrow> history D Ops (H @ [m]) \<and> own D q (last H) m)"

definition others :: "u64 set \<Rightarrow> (u64 \<Rightarrow> dcss_immutables set) \<Rightarrow> u64 \<Rightarrow> mem list \<Rightarrow> mem \<Rightarrow> bool" where
  "others D Ops q H m \<longleftrightarrow> (history D Ops H \<longrightarrow> history D Ops (H @ [m]) \<and> alien D q (last H) m)"

abbreviation "meanwhile D Ops q \<equiv> interference (others D Ops q)"
abbreviation "thread D Ops q \<equiv> guards (others D Ops q) (self D Ops q)"

lemma self_others: "self D Ops p H m \<Longrightarrow> p \<noteq> q \<Longrightarrow> others D Ops q H m"
  by (auto simp: self_def others_def own_def alien_def)

lemma meanwhile_history: "meanwhile D Ops q H H' \<Longrightarrow> history D Ops H \<Longrightarrow> history D Ops H'"
  by (induction rule: interference_induct) (auto simp: others_def)

lemma meanwhile_keeps:
  assumes "meanwhile D Ops q H H'" "history D Ops H" "P (last H)"
    and "\<And>m m'. P m \<Longrightarrow> alien D q m m' \<Longrightarrow> P m'"
  shows "P (last H')"
proof -
  have "history D Ops H' \<and> P (last H')"
    using assms(1) by (induction rule: interference_induct) (use assms(2-4) in \<open>auto simp: others_def\<close>)
  then show ?thesis ..
qed

lemma meanwhile_descriptor:
  "meanwhile D Ops q H H' \<Longrightarrow> history D Ops H \<Longrightarrow> dcss_descriptors (last H') q = dcss_descriptors (last H) q"
  by (rule meanwhile_keeps [where P = "\<lambda>m. dcss_descriptors m q = dcss_descriptors (last H) q"]) (auto simp: alien_def)

lemma meanwhile_nth: "meanwhile D Ops q H H' \<Longrightarrow> k < length H \<Longrightarrow> H' ! k = H ! k"
  by (drule interference_prefix) (auto simp: prefix_def nth_append)

lemma meanwhile_length: "meanwhile D Ops q H H' \<Longrightarrow> length H \<le> length H'"
  using interference_prefix prefix_length_le by blast

lemma alien_same: "alien D q m m" by (simp add: alien_def)
lemma own_same: "own D q m m" by (simp add: own_def)

lemma meanwhile_append:
  "meanwhile D Ops q H H' \<Longrightarrow> history D Ops (H' @ [m]) \<Longrightarrow> alien D q (last H') m \<Longrightarrow> meanwhile D Ops q H (H' @ [m])"
  by (rule interference_trans [OF _ interference_snoc]) (simp_all add: others_def)

lemma meanwhile_same: "meanwhile D Ops q H H' \<Longrightarrow> history D Ops H' \<Longrightarrow> meanwhile D Ops q H (H' @ [last H'])"
  by (intro meanwhile_append history_same alien_same)

lemma thread_read:
  assumes "history D Ops H"
    and "\<And>H'. meanwhile D Ops q H H' \<Longrightarrow> history D Ops H' \<Longrightarrow> thread D Ops q (f (v (last H'))) (H' @ [last H']) Q"
  shows "thread D Ops q (pbind (access (\<lambda>m. (v m, m))) f) H Q"
  by (rule guards_access) (use assms meanwhile_history in \<open>auto simp: self_def own_same history_same\<close>)

lemma thread_load_members:
  assumes "history D Ops H"
    and "\<And>r H'. meanwhile D Ops q H H' \<Longrightarrow> history D Ops H' \<Longrightarrow>
      (\<And>v. (\<And>k. length H \<le> Suc k \<Longrightarrow> k < length H' \<Longrightarrow> d_imm (dcss_descriptors (H' ! k) p) = v) \<Longrightarrow>
        r = fold (\<lambda>f. f v) fs dst) \<Longrightarrow> thread D Ops q (f r) H' Q"
  shows "thread D Ops q (pbind (load_members dcss_pool p fs dst) f) H Q"
  using assms
proof (induction fs arbitrary: dst H)
  case Nil
  then show ?case by simp
next
  case (Cons g fs)
  show ?case
    unfolding load_members.simps pbind_assoc pool_simps
  proof (rule thread_read [OF Cons.prems(1)])
    fix H1
    assume 1: "meanwhile D Ops q H H1" "history D Ops H1"
    note len = meanwhile_length [OF 1(1)] history_nonempty [OF 1(2)]
    show "thread D Ops q (pbind (load_members dcss_pool p fs (g (d_imm (dcss_descriptors (last H1) p)) dst)) f)
       (H1 @ [last H1]) Q"
    proof (rule Cons.IH [OF history_same [OF 1(2)] Cons.prems(2)])
      fix r H'
      assume 2: "meanwhile D Ops q (H1 @ [last H1]) H'" "history D Ops H'"
        and r: "\<And>v. (\<And>k. length (H1 @ [last H1]) \<le> Suc k \<Longrightarrow> k < length H' \<Longrightarrow> d_imm (dcss_descriptors (H' ! k) p) = v) \<Longrightarrow>
          r = fold (\<lambda>f. f v) fs (g (d_imm (dcss_descriptors (last H1) p)) dst)"
      show "meanwhile D Ops q H H'" by (rule interference_trans [OF meanwhile_same [OF 1] 2(1)])
      show "history D Ops H'" by (rule 2(2))
      fix v
      assume v: "\<And>k. length H \<le> Suc k \<Longrightarrow> k < length H' \<Longrightarrow> d_imm (dcss_descriptors (H' ! k) p) = v"
      have "H' ! length H1 = last H1" using meanwhile_nth [OF 2(1), of "length H1"] by simp
      then have "d_imm (dcss_descriptors (last H1) p) = v"
        using v [of "length H1"] len meanwhile_length [OF 2(1)] by simp
      then show "r = fold (\<lambda>f. f v) (g # fs) dst" using r [of v] v len by simp
    qed
  qed
qed

text \<open>What \<open>read_immutables\<close> accepts are the members of the call the pointer names, at some moment of the read.\<close>

lemma thread_read_immutables:
  assumes h: "history D Ops H" and pid: "unat (ptr_pid des) < max_threads" and ev: "even (unat (ptr_seq des))"
    and bot: "\<And>H'. meanwhile D Ops q H H' \<Longrightarrow> history D Ops H' \<Longrightarrow>
      dcss_seq (last H') (ptr_pid des) \<noteq> unat (ptr_seq des) \<Longrightarrow> thread D Ops q (f (Inl Bottom)) H' Q"
    and ok: "\<And>H' k. meanwhile D Ops q H H' \<Longrightarrow> history D Ops H' \<Longrightarrow> length H \<le> Suc k \<Longrightarrow> k < length H' \<Longrightarrow>
      dcss_seq (H' ! k) (ptr_pid des) = unat (ptr_seq des) \<Longrightarrow>
      thread D Ops q (f (Inr (d_imm (dcss_descriptors (H' ! k) (ptr_pid des))))) H' Q"
  shows "thread D Ops q (pbind (read_immutables dcss_pool des) f) H Q"
proof -
  let ?p = "ptr_pid des" and ?s = "unat (ptr_seq des)"
  have eq: "(ptr_seq des \<noteq> st_seq (d_state (dcss_descriptors m ?p))) = (dcss_seq m ?p \<noteq> ?s)" for m
    by (auto simp: dcss_seq_def word_unat_eq_iff)
  have "read_immutables dcss_pool des = pbind (access (\<lambda>m. (d_state (dcss_descriptors m ?p), m))) (\<lambda>state.
      if ptr_seq des \<noteq> st_seq state then Ret (Inl Bottom)
      else pbind (load_members dcss_pool ?p (imm_members dcss_pool) (imm_default dcss_pool)) (\<lambda>result.
        pbind (access (\<lambda>m. (d_state (dcss_descriptors m ?p), m))) (\<lambda>state.
          if ptr_seq des \<noteq> st_seq state then Ret (Inl Bottom) else Ret (Inr result))))"
    unfolding read_immutables_def split_beta load_state_def pool_simps Let_def using pid by simp
  then show ?thesis
  proof (simp only: pbind_assoc, intro thread_read [OF h])
    fix H1
    assume 1: "meanwhile D Ops q H H1" "history D Ops H1"
    let ?H1 = "H1 @ [last H1]"
    note same1 = meanwhile_same [OF 1] history_same [OF 1(2)]
    show "thread D Ops q (pbind (if ptr_seq des \<noteq> st_seq (d_state (dcss_descriptors (last H1) ?p)) then Ret (Inl Bottom)
      else pbind (load_members dcss_pool ?p (imm_members dcss_pool) (imm_default dcss_pool)) (\<lambda>result.
        pbind (access (\<lambda>m. (d_state (dcss_descriptors m ?p), m))) (\<lambda>state.
          if ptr_seq des \<noteq> st_seq state then Ret (Inl Bottom) else Ret (Inr result)))) f) ?H1 Q"
    proof (cases "dcss_seq (last H1) ?p = ?s")
      case False
      then show ?thesis using bot [OF same1] by (simp add: eq)
    next
      case True
      then have s1: "\<not> ptr_seq des \<noteq> st_seq (d_state (dcss_descriptors (last H1) ?p))" unfolding eq by simp
      show ?thesis
        unfolding if_not_P [OF s1] pbind_assoc
      proof (rule thread_load_members [OF same1(2)], rule thread_read)
        fix r H2 H3
        assume 2: "meanwhile D Ops q ?H1 H2" "history D Ops H2"
          and r: "\<And>v. (\<And>k. length ?H1 \<le> Suc k \<Longrightarrow> k < length H2 \<Longrightarrow> d_imm (dcss_descriptors (H2 ! k) ?p) = v) \<Longrightarrow>
            r = fold (\<lambda>f. f v) (imm_members dcss_pool) (imm_default dcss_pool)"
          and 3: "meanwhile D Ops q H2 H3" "history D Ops H3"
        let ?H3 = "H3 @ [last H3]" and ?k = "length H1"
        note same3 = meanwhile_same [OF 3] history_same [OF 3(2)]
        have all: "meanwhile D Ops q ?H1 ?H3" by (rule interference_trans [OF 2(1) same3(1)])
        then have whole: "meanwhile D Ops q H ?H3" by (rule interference_trans [OF same1(1)])
        have k: "length H \<le> ?k" "?k < length H2" "length H2 \<le> length H3"
          using meanwhile_length [OF 1(1)] meanwhile_length [OF 2(1)] meanwhile_length [OF 3(1)] by simp_all
        have at_k: "?H3 ! ?k = last H1" using meanwhile_nth [OF all, of ?k] by simp
        show "thread D Ops q (pbind (if ptr_seq des \<noteq> st_seq (d_state (dcss_descriptors (last H3) ?p))
             then Ret (Inl Bottom) else Ret (Inr r)) f) ?H3 Q"
        proof (cases "dcss_seq (last H3) ?p = ?s")
          case False
          then show ?thesis using bot [OF whole same3(2)] by (simp add: eq)
        next
          case True
          have "d_imm (dcss_descriptors (H2 ! j) ?p) = d_imm (dcss_descriptors (last H1) ?p)"
            if j: "length ?H1 \<le> Suc j" "j < length H2" for j
          proof -
            have at: "?H3 ! j = H2 ! j" using meanwhile_nth [OF 3(1) j(2)] j(2) k(3) by (simp add: nth_append)
            have "dcss_seq (?H3 ! ?k) ?p \<le> dcss_seq (?H3 ! j) ?p" "dcss_seq (?H3 ! j) ?p \<le> dcss_seq (?H3 ! length H3) ?p"
              by (rule seq_mono [OF same3(2)]; use j k in simp)+
            then have "dcss_seq (?H3 ! ?k) ?p = dcss_seq (?H3 ! j) ?p"
              using True s1 at_k by (simp add: eq)
            then show ?thesis
              using imm_const [OF same3(2), of ?k j ?p] j k ev at at_k s1 by (simp add: eq)
          qed
          then have "r = fold (\<lambda>f. f (d_imm (dcss_descriptors (last H1) ?p))) (imm_members dcss_pool) (imm_default dcss_pool)"
            by (rule r)
          then have "r = d_imm (dcss_descriptors (?H3 ! ?k) ?p)" by (simp add: dcss.copy_members at_k)
          then show ?thesis
            using ok [OF whole same3(2), of ?k] True s1 k at_k by (simp add: eq)
        qed
      qed (use 1 in \<open>simp_all\<close>)
    qed
  qed
qed

section \<open>Helping\<close>

lemma thread_a1_load:
  assumes h: "history D Ops H" and a1: "a1_valid ld a1"
    and f: "\<And>H'. meanwhile D Ops q H H' \<Longrightarrow> history D Ops H' \<Longrightarrow>
      thread D Ops q (f (a1_value (last H') ld a1)) (H' @ [last H']) Q"
  shows "thread D Ops q (pbind (a1_load_call ld a1) f) H Q"
proof (cases ld)
  case Load_default
  show ?thesis
    unfolding a1_load_call_def Load_default a1_loader.case load_word_def
    by (rule thread_read [OF h]) (use f Load_default in \<open>simp add: a1_value_def\<close>)
next
  case Load_kcas_state
  let ?v = "\<lambda>m. a1_value m ld a1"
  have pid: "unat (ptr_pid a1) < max_threads" using a1 Load_kcas_state by (simp add: a1_valid_def)
  have "pbind (a1_load_call ld a1) f = pbind (access (\<lambda>m. (d_state (kcas_descriptors m (ptr_pid a1)), m)))
      (\<lambda>s. f (if ptr_seq a1 \<noteq> st_seq s then state_succeded else st_mut s AND state_mask))"
    unfolding a1_load_call_def read_state_def read_mutables_def load_state_def pool_simps split_beta Let_def Load_kcas_state
    using pid by (simp add: pbind_assoc if_distrib [where f = "\<lambda>p. pbind p g" for g] if_distrib [where f = f] cong: if_cong)
  moreover have "thread D Ops q \<dots> H Q"
  proof (rule thread_read [OF h])
    fix H'
    assume "meanwhile D Ops q H H'" "history D Ops H'"
    from f [OF this] show "thread D Ops q (f (if ptr_seq a1 \<noteq> st_seq (d_state (kcas_descriptors (last H') (ptr_pid a1)))
        then state_succeded else st_mut (d_state (kcas_descriptors (last H') (ptr_pid a1))) AND state_mask)) (H' @ [last H']) Q"
      by (simp add: a1_value_def Load_kcas_state kcas_status_def Let_def split: if_splits)
  qed
  ultimately show ?thesis by simp
qed (use a1 in \<open>simp add: a1_valid_def\<close>)

definition seen :: "u64 \<Rightarrow> u64 \<Rightarrow> mem list \<Rightarrow> bool" where
  "seen a w H \<longleftrightarrow> (\<exists>k<length H. words (H ! k) a = w)"

lemma seen_meanwhile: "seen a w H \<Longrightarrow> meanwhile D Ops q H H' \<Longrightarrow> seen a w H'"
  unfolding seen_def by (metis meanwhile_nth meanwhile_length order_less_le_trans)

lemma seen_here: "H \<noteq> [] \<Longrightarrow> seen a (words (last H) a) H"
  unfolding seen_def by (rule exI [of _ "length H - 1"]) (simp add: last_conv_nth)

lemma stays_gone:
  assumes "ops_ok D Ops" "history D Ops H" "meanwhile D Ops q H H'" "a \<in> D" "seen a w H" "flagged w" "words (last H) a \<noteq> w"
  shows "words (last H') a \<noteq> w"
proof
  assume w: "words (last H') a = w"
  note h' = meanwhile_history [OF assms(3,2)]
  obtain k where k: "k < length H" "words (H ! k) a = w" using assms(5) by (auto simp: seen_def)
  have ne: "H \<noteq> []" "H' \<noteq> []" using history_nonempty assms(2) h' by blast+
  have "words (H' ! (length H - 1)) a = w"
  proof (rule one_stretch [OF assms(1) h' assms(4)])
    show "words (H' ! k) a = w" using meanwhile_nth [OF assms(3) k(1)] k(2) by simp
    show "words (H' ! (length H' - 1)) a = w" using w ne by (simp add: last_conv_nth)
  qed (use k ne meanwhile_length [OF assms(3)] assms(6) in auto)
  then show False using assms(7) meanwhile_nth [OF assms(3), of "length H - 1"] ne by (simp add: last_conv_nth)
qed

text \<open>Storing the outcome of some moment since the pointer was seen.\<close>

lemma remove_pointer:
  assumes ok: "ops_ok D Ops" and h: "history D Ops H" and a: "a \<in> D" and w: "flagged (words (last H) a)"
    and k: "words (H ! k) a = words (last H) a" "k \<le> d" "d < length H"
  defines "m \<equiv> (last H)\<lparr>words := (words (last H))(a := dcss_value (H ! d) a)\<rparr>"
  shows "history D Ops (H @ [m])" "alien D q (last H) m" "own D q (last H) m" "words m a \<noteq> words (last H) a"
proof -
  have ne: "H \<noteq> []" by (rule history_nonempty [OF h])
  have x: "\<not> flagged (dcss_value (H ! d) a)" by (rule value_unflagged [OF ok history_nth [OF h k(3)] a])
  have "words (H ! j) a = words (last H) a" if "d \<le> j" "j < length H" for j
    by (rule one_stretch [OF ok h a, of k j "length H - 1"]) (use that k w ne in \<open>auto simp: last_conv_nth\<close>)
  then have "removes H m a" using w k(3) by (auto simp: removes_def m_def)
  then have "may_follow D H m" by (auto simp: may_follow_def m_def dcss_seq_def)
  moreover have "genuine D Ops m"
    using history_last [OF h] x by (auto simp: genuine_def m_def dcss_seq_def Let_def)
  ultimately show "history D Ops (H @ [m])" by (intro history_snoc h)
  show "alien D q (last H) m" "own D q (last H) m" "words m a \<noteq> words (last H) a"
    using x w by (auto simp: alien_def own_def m_def)
qed

lemma seen_genuine:
  assumes ok: "ops_ok D Ops" and h: "history D Ops H" and a: "a \<in> D" and w: "seen a w H" "flagged w"
    and k: "k < length H" "dcss_seq (H ! k) (ptr_pid w) = unat (ptr_seq w)"
  shows "di_a2 (dcss_imm_of (H ! k) w) = a" "dcss_imm_of (H ! k) w \<in> Ops (ptr_pid w)"
proof -
  obtain j where j: "j < length H" "words (H ! j) a = w" using w(1) by (auto simp: seen_def)
  have g: "even (dcss_seq (H ! j) (ptr_pid w))" "unat (ptr_seq w) = dcss_seq (H ! j) (ptr_pid w)"
    "di_a2 (dcss_imm_of (H ! j) w) = a" "dcss_imm_of (H ! j) w \<in> Ops (ptr_pid w)"
    using history_nth [OF h j(1)] a j(2) w(2) by (auto simp: genuine_def Let_def)
  have "dcss_imm_of (H ! k) w = dcss_imm_of (H ! j) w"
  proof (cases "j \<le> k")
    case True
    then show ?thesis using imm_const [OF h True k(1), of "ptr_pid w"] g(1,2) k(2) by simp
  next
    case False
    then show ?thesis using imm_const [OF h _ j(1), of k "ptr_pid w"] g(1,2) k(2) by simp
  qed
  then show "di_a2 (dcss_imm_of (H ! k) w) = a" "dcss_imm_of (H ! k) w \<in> Ops (ptr_pid w)" using g(3,4) by simp_all
qed

lemma seen_pid:
  assumes "history D Ops H" "a \<in> D" "seen a w H" "flagged w"
  shows "unat (ptr_pid w) < max_threads" "even (unat (ptr_seq w))"
proof -
  obtain j where j: "j < length H" "words (H ! j) a = w" using assms(3) by (auto simp: seen_def)
  show "unat (ptr_pid w) < max_threads" "even (unat (ptr_seq w))"
    using history_nth [OF assms(1) j(1)] assms(2,4) j(2) by (auto simp: genuine_def Let_def)
qed

text \<open>
  After \<open>dcss_help\<close> of a pointer seen in a word, nothing of what the helper knows of its own has changed; if the pointer
  is its own, it is gone from the word.
\<close>

definition helped :: "u64 set \<Rightarrow> (u64 \<Rightarrow> dcss_immutables set) \<Rightarrow> u64 \<Rightarrow> u64 \<Rightarrow> u64 \<Rightarrow> mem list \<Rightarrow> mem list \<Rightarrow> bool" where
  "helped D Ops q a w H H' \<longleftrightarrow> meanwhile D Ops q H H' \<and>
     (ptr_pid w = q \<and> dcss_seq (last H) q = unat (ptr_seq w) \<longrightarrow> words (last H') a \<noteq> w)"

lemma helped_return:
  assumes "ops_ok D Ops" "history D Ops H" "meanwhile D Ops q H H'" "a \<in> D" "seen a w H" "flagged w"
    and "ptr_pid w = q \<and> dcss_seq (last H) q = unat (ptr_seq w) \<longrightarrow> words (last H') a \<noteq> w"
  shows "thread D Ops q (Ret ()) H' (\<lambda>_. helped D Ops q a w H)"
  using assms stays_gone [OF assms(1) meanwhile_history [OF assms(3,2)] _ assms(4) seen_meanwhile [OF assms(5,3)] assms(6)]
  by (auto simp: helped_def intro: interference_trans)

lemma thread_help_cas:
  assumes ok: "ops_ok D Ops" and h: "history D Ops H" and h1: "meanwhile D Ops q H H1" "history D Ops H1" and a: "a \<in> D"
    and w: "seen a w H" "flagged w" and d: "length H \<le> Suc d" "d < length H1"
    and x: "words (H1 ! d) a = w \<Longrightarrow> x = dcss_value (H1 ! d) a"
  shows "thread D Ops q (pbind (cas_word_weak a w x) (\<lambda>_. Ret ())) H1 (\<lambda>_. helped D Ops q a w H)"
  unfolding cas_word_weak_def
proof (rule guards_access)
  fix H2
  assume 2: "meanwhile D Ops q H1 H2"
  note h2 = meanwhile_history [OF 2 h1(2)] and all = interference_trans [OF h1(1) 2]
  let ?m = "last H2" and ?r = "let (spurious, m1) = next_weak (last H2); v = words m1 a
      in if \<not> spurious \<and> v = w then ((True, v), m1\<lparr>words := (words m1)(a := x)\<rparr>) else ((False, v), m1)"
  have nw: "next_weak ?m = (False, ?m)" using history_last [OF h2] by (simp add: genuine_def)
  show "self D Ops q H2 (snd ?r) \<and> thread D Ops q (Ret ()) (H2 @ [snd ?r]) (\<lambda>_. helped D Ops q a w H)"
  proof (cases "words ?m a = w")
    case False
    have "thread D Ops q (Ret ()) (H2 @ [?m]) (\<lambda>_. helped D Ops q a w H)"
      by (rule helped_return [OF ok h meanwhile_same [OF all h2] a w]) (use False in simp)
    then show ?thesis using False nw h2 by (simp add: self_def history_same own_same)
  next
    case True
    obtain k where k: "k < length H" "words (H ! k) a = w" using w(1) by (auto simp: seen_def)
    have k2: "words (H2 ! k) a = w" using meanwhile_nth [OF all k(1)] k(2) by simp
    have ne: "H2 \<noteq> []" by (rule history_nonempty [OF h2])
    have d2: "d < length H2" "H2 ! d = H1 ! d" using d(2) meanwhile_length [OF 2] meanwhile_nth [OF 2 d(2)] by simp_all
    have "words (H2 ! d) a = w"
      by (rule one_stretch [OF ok h2 a, of k d "length H2 - 1"]) (use k d d2 k2 True w ne in \<open>auto simp: last_conv_nth\<close>)
    then have x': "x = dcss_value (H2 ! d) a" using x d2 by simp
    have fl: "flagged (words ?m a)" using True w(2) by simp
    have kd: "words (H2 ! k) a = words ?m a" "k \<le> d" using k2 True k(1) d(1) by simp_all
    note rm = remove_pointer [OF ok h2 a fl kd d2(1), folded x']
    have "thread D Ops q (Ret ()) (H2 @ [?m\<lparr>words := (words ?m)(a := x)\<rparr>]) (\<lambda>_. helped D Ops q a w H)"
      by (rule helped_return [OF ok h meanwhile_append [OF all rm(1,2)] a w]) (use rm(4) True in simp)
    then show ?thesis using True nw rm(1,3) by (simp add: self_def)
  qed
qed

lemma thread_help:
  assumes ok: "ops_ok D Ops" and h: "history D Ops H" and a: "a \<in> D" and w: "seen a w H" "flagged w"
  shows "thread D Ops q (dcss_help w) H (\<lambda>_. helped D Ops q a w H)"
proof -
  have des: "ptr_pid (toggle_flag dcss_flag_bit w) = ptr_pid w" "ptr_seq (toggle_flag dcss_flag_bit w) = ptr_seq w"
    by (simp_all add: ptr_extract_toggle)
  have "dcss_help w = pbind (read_immutables dcss_pool (toggle_flag dcss_flag_bit w)) (\<lambda>values.
       case values of
         Inl _ \<Rightarrow> Ret ()
       | Inr v \<Rightarrow> pbind (a1_load_call (di_a1_load v) (di_a1 v)) (\<lambda>x.
           if x = di_e1 v then pbind (cas_word_weak (di_a2 v) w (di_n2 v)) (\<lambda>_. Ret ())
           else pbind (cas_word_weak (di_a2 v) w (di_e2 v)) (\<lambda>_. Ret ())))"
    using w(2) by (simp add: dcss_help_def unset_flag_def)
  moreover have "thread D Ops q \<dots> H (\<lambda>_. helped D Ops q a w H)"
  proof (rule thread_read_immutables [OF h])
    fix H'
    assume 1: "meanwhile D Ops q H H'" "history D Ops H'"
      "dcss_seq (last H') (ptr_pid (toggle_flag dcss_flag_bit w)) \<noteq> unat (ptr_seq (toggle_flag dcss_flag_bit w))"
    have "dcss_seq (last H') q = dcss_seq (last H) q" using meanwhile_descriptor [OF 1(1) h] by (simp add: dcss_seq_def)
    then have "thread D Ops q (Ret ()) H' (\<lambda>_. helped D Ops q a w H)"
      by (intro helped_return [OF ok h 1(1) a w]) (use 1(3) in \<open>auto simp: des\<close>)
    then show "thread D Ops q (case Inl Bottom of Inl _ \<Rightarrow> Ret () | Inr v \<Rightarrow> pbind (a1_load_call (di_a1_load v) (di_a1 v)) (\<lambda>x.
           if x = di_e1 v then pbind (cas_word_weak (di_a2 v) w (di_n2 v)) (\<lambda>_. Ret ())
           else pbind (cas_word_weak (di_a2 v) w (di_e2 v)) (\<lambda>_. Ret ()))) H' (\<lambda>_. helped D Ops q a w H)"
      by simp
  next
    fix H' k
    assume 1: "meanwhile D Ops q H H'" "history D Ops H'" "length H \<le> Suc k" "k < length H'"
      "dcss_seq (H' ! k) (ptr_pid (toggle_flag dcss_flag_bit w)) = unat (ptr_seq (toggle_flag dcss_flag_bit w))"
    let ?v = "d_imm (dcss_descriptors (H' ! k) (ptr_pid (toggle_flag dcss_flag_bit w)))"
    have v: "di_a2 ?v = a" "?v \<in> Ops (ptr_pid w)"
      using seen_genuine [OF ok 1(2) a seen_meanwhile [OF w(1) 1(1)] w(2) 1(4)] 1(5) by (simp_all add: des)
    then have okv: "dcss_imm_ok ?v" "a1_valid (di_a1_load ?v) (di_a1 ?v)" using ok by (auto simp: ops_ok_def dcss_imm_ok_def)
    have "thread D Ops q (pbind (a1_load_call (di_a1_load ?v) (di_a1 ?v)) (\<lambda>x.
           if x = di_e1 ?v then pbind (cas_word_weak (di_a2 ?v) w (di_n2 ?v)) (\<lambda>_. Ret ())
           else pbind (cas_word_weak (di_a2 ?v) w (di_e2 ?v)) (\<lambda>_. Ret ()))) H' (\<lambda>_. helped D Ops q a w H)"
    proof (rule thread_a1_load [OF 1(2) okv(2)])
      fix H2
      assume 2: "meanwhile D Ops q H' H2" "history D Ops H2"
      let ?H = "H2 @ [last H2]" and ?d = "length H2"
      let ?x = "a1_value (last H2) (di_a1_load ?v) (di_a1 ?v)"
      note all = meanwhile_same [OF interference_trans [OF 1(1) 2(1)] 2(2)] and h2 = history_same [OF 2(2)]
      have len: "length H \<le> Suc ?d" "?d < length ?H" "length H' \<le> ?d" using meanwhile_length [OF all] meanwhile_length [OF 2(1)] by simp_all
      have val: "dcss_value (?H ! ?d) a = (if ?x = di_e1 ?v then di_n2 ?v else di_e2 ?v)" if at: "words (?H ! ?d) a = w"
      proof -
        have "dcss_seq (?H ! ?d) (ptr_pid w) = unat (ptr_seq w)"
          using history_nth [OF h2 len(2)] a at w(2) by (auto simp: genuine_def Let_def)
        moreover have "dcss_seq (?H ! k) (ptr_pid w) = unat (ptr_seq w)"
          using 1(4,5) len(3) meanwhile_nth [OF 2(1) 1(4)] by (simp add: des nth_append)
        moreover have "even (unat (ptr_seq w))" by (rule seen_pid [OF h a w])
        ultimately have "dcss_imm_of (?H ! ?d) w = dcss_imm_of (?H ! k) w"
          using imm_const [OF h2, of k ?d "ptr_pid w"] 1(4) len by simp
        then have "dcss_imm_of (?H ! ?d) w = ?v"
          using 1(4) len(3) meanwhile_nth [OF 2(1) 1(4)] by (simp add: des nth_append)
        then show ?thesis using at w(2) by (simp add: dcss_value_def dcss_outcome_def)
      qed
      show "thread D Ops q (if ?x = di_e1 ?v then pbind (cas_word_weak (di_a2 ?v) w (di_n2 ?v)) (\<lambda>_. Ret ())
           else pbind (cas_word_weak (di_a2 ?v) w (di_e2 ?v)) (\<lambda>_. Ret ())) ?H (\<lambda>_. helped D Ops q a w H)"
        unfolding v(1) using thread_help_cas [OF ok h all h2 a w len(1,2)] val by (auto split: if_splits)
    qed
    then show "thread D Ops q (case Inr ?v of Inl _ \<Rightarrow> Ret () | Inr v \<Rightarrow> pbind (a1_load_call (di_a1_load v) (di_a1 v)) (\<lambda>x.
           if x = di_e1 v then pbind (cas_word_weak (di_a2 v) w (di_n2 v)) (\<lambda>_. Ret ())
           else pbind (cas_word_weak (di_a2 v) w (di_e2 v)) (\<lambda>_. Ret ()))) H' (\<lambda>_. helped D Ops q a w H)"
      by simp
  qed (use seen_pid [OF h a w] in \<open>simp_all add: des\<close>)
  ultimately show ?thesis by simp
qed

section \<open>A new descriptor\<close>

text \<open>No word points to the descriptor of thread \<open>q\<close>.\<close>

definition unused :: "u64 set \<Rightarrow> u64 \<Rightarrow> mem \<Rightarrow> bool" where
  "unused D q m \<longleftrightarrow> (\<forall>a\<in>D. flagged (words m a) \<longrightarrow> ptr_pid (words m a) \<noteq> q)"

lemma unused_alien: "unused D q m \<Longrightarrow> alien D q m m' \<Longrightarrow> unused D q m'"
  by (auto simp: unused_def alien_def)

lemma unused_meanwhile: "meanwhile D Ops q H H' \<Longrightarrow> history D Ops H \<Longrightarrow> unused D q (last H) \<Longrightarrow> unused D q (last H')"
  by (erule meanwhile_keeps [where P = "unused D q"]) (auto intro: unused_alien)

lemma write_descriptor:
  assumes h: "history D Ops H" and u: "unused D q (last H)"
    and seq: "unat (st_seq (d_state d)) = dcss_seq (last H) q \<or> unat (st_seq (d_state d)) = Suc (dcss_seq (last H) q)"
    and imm: "d_imm d \<noteq> d_imm (dcss_descriptors (last H) q) \<Longrightarrow>
      odd (dcss_seq (last H) q) \<and> unat (st_seq (d_state d)) = dcss_seq (last H) q"
  defines "m \<equiv> (last H)\<lparr>dcss_descriptors := (dcss_descriptors (last H))(q := d)\<rparr>"
  shows "history D Ops (H @ [m])" "own D q (last H) m" "unused D q m"
proof -
  have "may_follow D H m" using seq imm by (auto simp: may_follow_def m_def dcss_seq_def)
  moreover have "genuine D Ops m"
    using history_last [OF h] u by (simp add: genuine_def m_def dcss_seq_def unused_def Let_def)
  ultimately show "history D Ops (H @ [m])" by (intro history_snoc h)
  show "own D q (last H) m" "unused D q m" using u by (simp_all add: own_def unused_def m_def)
qed

lemma thread_write:
  assumes h: "history D Ops H" and u: "unused D q (last H)"
  defines "d \<equiv> dcss_descriptors (last H) q"
  assumes seq: "unat (st_seq (d_state (upd d))) = dcss_seq (last H) q \<or> unat (st_seq (d_state (upd d))) = Suc (dcss_seq (last H) q)"
    and imm: "d_imm (upd d) \<noteq> d_imm d \<Longrightarrow> odd (dcss_seq (last H) q) \<and> unat (st_seq (d_state (upd d))) = dcss_seq (last H) q"
    and f: "\<And>H1 m. history D Ops H1 \<Longrightarrow> history D Ops (H1 @ [m]) \<Longrightarrow> prefix H H1 \<Longrightarrow> dcss_descriptors (last H1) q = d \<Longrightarrow>
      unused D q m \<Longrightarrow> dcss_descriptors m q = upd d \<Longrightarrow> thread D Ops q (f ()) (H1 @ [m]) Q"
  shows "thread D Ops q (pbind (access (\<lambda>m. ((), m\<lparr>dcss_descriptors := (dcss_descriptors m)(q := upd (dcss_descriptors m q))\<rparr>))) f) H Q"
proof (rule guards_access)
  fix H1
  assume 1: "meanwhile D Ops q H H1"
  note h1 = meanwhile_history [OF 1 h]
  have d1: "dcss_descriptors (last H1) q = d" "dcss_seq (last H1) q = dcss_seq (last H) q"
    using meanwhile_descriptor [OF 1 h] by (simp_all add: d_def dcss_seq_def)
  let ?m = "(last H1)\<lparr>dcss_descriptors := (dcss_descriptors (last H1))(q := upd (dcss_descriptors (last H1) q))\<rparr>"
  have w: "history D Ops (H1 @ [?m])" "own D q (last H1) ?m" "unused D q ?m"
    using write_descriptor [OF h1 unused_meanwhile [OF 1 h u], of "upd d"] seq imm by (simp_all add: d1)
  have "thread D Ops q (f ()) (H1 @ [?m]) Q"
    by (rule f [OF h1 w(1) interference_prefix [OF 1] d1(1) w(3)]) (simp add: d1)
  then show "self D Ops q H1 (snd ((), ?m)) \<and> thread D Ops q (f (fst ((), ?m))) (H1 @ [snd ((), ?m)]) Q"
    using w by (simp add: self_def)
qed

lemma thread_store_members:
  assumes "history D Ops H" "unused D q (last H)" "odd (dcss_seq (last H) q)"
    and "\<And>H'. history D Ops H' \<Longrightarrow> prefix H H' \<Longrightarrow> unused D q (last H') \<Longrightarrow>
      dcss_descriptors (last H') q = (dcss_descriptors (last H) q)
        \<lparr>d_imm := fold (\<lambda>f. f src) fs (d_imm (dcss_descriptors (last H) q))\<rparr> \<Longrightarrow> thread D Ops q (f ()) H' Q"
  shows "thread D Ops q (pbind (store_members dcss_pool q fs src) f) H Q"
  using assms
proof (induction fs arbitrary: H)
  case Nil
  then show ?case by simp
next
  case (Cons g fs)
  let ?d = "dcss_descriptors (last H) q"
  show ?case
    unfolding store_members.simps pbind_assoc pool_simps Let_def
  proof (rule thread_write [OF Cons.prems(1,2), where upd = "\<lambda>d. d\<lparr>d_imm := g src (d_imm d)\<rparr>"])
    fix H1 m
    assume 1: "history D Ops (H1 @ [m])" "prefix H H1" "unused D q m" "dcss_descriptors m q = ?d\<lparr>d_imm := g src (d_imm ?d)\<rparr>"
    have s: "dcss_seq m q = dcss_seq (last H) q" using 1(4) by (simp add: dcss_seq_def)
    show "thread D Ops q (pbind (store_members dcss_pool q fs src) f) (H1 @ [m]) Q"
      by (rule Cons.IH [OF 1(1)]; (rule Cons.prems(4))?)
        (use 1 s Cons.prems(3) in \<open>auto simp: prefix_def\<close>)
  qed (use Cons.prems(3) in \<open>auto simp: dcss_seq_def\<close>)
qed

text \<open>
  \<open>ready\<close>: the descriptor holds the call \<open>v\<close>, its flagged pointer is \<open>w\<close>, and \<open>w\<close> has not been in any word.
\<close>

definition ready :: "u64 set \<Rightarrow> u64 \<Rightarrow> dcss_immutables \<Rightarrow> u64 \<Rightarrow> mem list \<Rightarrow> bool" where
  "ready D q v w H \<longleftrightarrow> d_imm (dcss_descriptors (last H) q) = v \<and> dcss_seq (last H) q = unat (ptr_seq w) \<and>
     unused D q (last H) \<and> (\<forall>h\<in>set H. \<forall>a\<in>D. words h a \<noteq> w)"

lemma ready_meanwhile:
  assumes "meanwhile D Ops q H H'" "history D Ops H" "ready D q v w H" "ptr_pid w = q" "flagged w"
  shows "ready D q v w H'"
proof -
  have "history D Ops H' \<and> ready D q v w H'"
    using assms(1)
  proof (induction rule: interference_induct)
    case (more H' m)
    have f: "alien D q (last H') m" "history D Ops (H' @ [m])" using more.IH more.hyps by (auto simp: others_def)
    have "unused D q m" using more.IH unused_alien [OF _ f(1)] by (simp add: ready_def)
    then show ?case using more.IH f assms(4,5) by (auto simp: ready_def alien_def dcss_seq_def unused_def)
  qed (use assms in simp)
  then show ?thesis ..
qed

lemma unat_next_small: "s + 2 < (2 :: nat) ^ 32 \<Longrightarrow> unat x = s \<Longrightarrow> unat (next_seq x) = s + 2 \<and> unat (sequence_inc x) = Suc s"
  by (simp add: unat_next_seq unat_sequence_inc)

lemma st_seq_combine: "unat s < 2 ^ 32 \<Longrightarrow> unat (st_seq (st_combine mu s)) = unat s"
  by (simp add: st_extract_combine layout_defs unat_and_mask)

lemma thread_create_new:
  assumes h: "history D Ops H" and u: "unused D q (last H)" and q: "unat q < max_threads"
    and s: "dcss_seq (last H) q = s" "even s" "s + 2 < 2 ^ 32"
    and f: "\<And>H' des. history D Ops H' \<Longrightarrow> prefix H H' \<Longrightarrow> ptr_pid des = q \<Longrightarrow> unat (ptr_seq des) = s + 2 \<Longrightarrow> \<not> flagged des \<Longrightarrow>
      ready D q v (toggle_flag dcss_flag_bit des) H' \<Longrightarrow> thread D Ops q (f des) H' Q"
  shows "thread D Ops q (pbind (create_new dcss_pool q 0 v) f) H Q"
proof -
  let ?x = "st_seq (d_state (dcss_descriptors (last H) q))"
  let ?last = "\<lambda>x. pbind (access (\<lambda>m. ((), m\<lparr>dcss_descriptors := (dcss_descriptors m)
      (q := (dcss_descriptors m q)\<lparr>d_state := st_combine 0 (next_seq x)\<rparr>)\<rparr>))) (\<lambda>_. f (ptr_combine 0 q (next_seq x)))"
  have eq: "pbind (create_new dcss_pool q 0 v) f =
     pbind (access (\<lambda>m. (d_state (dcss_descriptors m q), m))) (\<lambda>old.
       pbind (access (\<lambda>m. ((), m\<lparr>dcss_descriptors := (dcss_descriptors m)
          (q := (dcss_descriptors m q)\<lparr>d_state := st_combine (st_mut old) (sequence_inc (st_seq old))\<rparr>)\<rparr>))) (\<lambda>_.
       pbind (store_members dcss_pool q (imm_members dcss_pool) v) (\<lambda>_. ?last (st_seq old))))"
    unfolding create_new_def load_state_def store_state_def pool_simps split_beta Let_def
    using q by (simp add: pbind_assoc next_seq_def)
  have x: "unat ?x = s" using s(1) by (simp add: dcss_seq_def)
  note nx = unat_next_small [OF s(3) x]
  show ?thesis
    unfolding eq
  proof (rule thread_read [OF h])
    fix H1
    assume 1: "meanwhile D Ops q H H1" "history D Ops H1"
    let ?d = "dcss_descriptors (last H1) q" and ?H1 = "H1 @ [last H1]"
    have d1: "?d = dcss_descriptors (last H) q" by (rule meanwhile_descriptor [OF 1(1) h])
    then have s1: "dcss_seq (last ?H1) q = s" using s(1) by (simp add: dcss_seq_def)
    have u1: "unused D q (last ?H1)" using unused_meanwhile [OF 1(1) h u] by simp
    show "thread D Ops q (pbind (access (\<lambda>m. ((), m\<lparr>dcss_descriptors := (dcss_descriptors m)
          (q := (dcss_descriptors m q)\<lparr>d_state := st_combine (st_mut (d_state ?d)) (sequence_inc (st_seq (d_state ?d)))\<rparr>)\<rparr>))) (\<lambda>_.
       pbind (store_members dcss_pool q (imm_members dcss_pool) v) (\<lambda>_. ?last (st_seq (d_state ?d))))) ?H1 Q"
      unfolding d1
    proof (rule thread_write [OF history_same [OF 1(2)] u1, where
          upd = "\<lambda>d. d\<lparr>d_state := st_combine (st_mut (d_state (dcss_descriptors (last H) q))) (sequence_inc ?x)\<rparr>"])
      fix H2 m2
      assume 2: "history D Ops (H2 @ [m2])" "prefix ?H1 H2" "unused D q m2"
        "dcss_descriptors m2 q = (dcss_descriptors (last ?H1) q)\<lparr>d_state := st_combine (st_mut (d_state (dcss_descriptors (last H) q))) (sequence_inc ?x)\<rparr>"
      have s2: "dcss_seq m2 q = Suc s" using 2(4) nx s(3) by (simp add: dcss_seq_def st_seq_combine)
      show "thread D Ops q (pbind (store_members dcss_pool q (imm_members dcss_pool) v) (\<lambda>_. ?last ?x)) (H2 @ [m2]) Q"
      proof (rule thread_store_members [OF 2(1)])
        fix H3
        assume 3: "history D Ops H3" "prefix (H2 @ [m2]) H3" "unused D q (last H3)"
          "dcss_descriptors (last H3) q = (dcss_descriptors (last (H2 @ [m2])) q)
            \<lparr>d_imm := fold (\<lambda>f. f v) (imm_members dcss_pool) (d_imm (dcss_descriptors (last (H2 @ [m2])) q))\<rparr>"
        have s3: "dcss_seq (last H3) q = Suc s" using 3(4) s2 by (simp add: dcss_seq_def)
        have i3: "d_imm (dcss_descriptors (last H3) q) = v" using 3(4) by (simp add: dcss.copy_members)
        show "thread D Ops q (?last ?x) H3 Q"
        proof (rule thread_write [OF 3(1,3), where upd = "\<lambda>d. d\<lparr>d_state := st_combine 0 (next_seq ?x)\<rparr>"])
          fix H4 m4
          assume 4: "history D Ops H4" "history D Ops (H4 @ [m4])" "prefix H3 H4"
            "dcss_descriptors (last H4) q = dcss_descriptors (last H3) q" "unused D q m4"
            "dcss_descriptors m4 q = (dcss_descriptors (last H3) q)\<lparr>d_state := st_combine 0 (next_seq ?x)\<rparr>"
          let ?des = "ptr_combine 0 q (next_seq ?x)" and ?H = "H4 @ [m4]"
          let ?w = "toggle_flag dcss_flag_bit ?des"
          have des: "ptr_pid ?des = q" "ptr_seq ?des = next_seq ?x" "ptr_pid ?w = q" "ptr_seq ?w = next_seq ?x"
            "\<not> flagged ?des" "flagged ?w"
            using new_pointer_fields [OF q] by (simp_all add: ptr_extract_toggle new_pointer_unflagged)
          have s4: "dcss_seq m4 q = s + 2" using 4(6) nx s(3) by (simp add: dcss_seq_def st_seq_combine)
          have ne: "H4 \<noteq> []" by (rule history_nonempty [OF 4(1)])
          have "words h a \<noteq> ?w" if hs: "h \<in> set ?H" "a \<in> D" for h a
          proof
            assume hw: "words h a = ?w"
            then have "h \<noteq> m4" using 4(5) des that(2) by (auto simp: unused_def)
            then obtain k where k: "k < length H4" "h = H4 ! k" using hs(1) by (auto simp: in_set_conv_nth)
            have "unat (ptr_seq ?w) = dcss_seq h q"
              using history_nth [OF 4(1) k(1)] that(2) des by (auto simp: genuine_def hw k(2) [symmetric] Let_def)
            moreover have "dcss_seq h q \<le> dcss_seq (last H4) q"
              using seq_mono [OF 4(1), of k "length H4 - 1" q] k ne by (simp add: last_conv_nth)
            ultimately show False using 4(4) s3 nx des by (simp add: dcss_seq_def)
          qed
          then have "ready D q v ?w ?H" using 4(5,6) i3 s4 nx des by (simp add: ready_def)
          moreover have "prefix H ?H"
            using interference_prefix [OF 1(1)] 2(2) 3(2) 4(3) by (auto simp: prefix_def)
          ultimately show "thread D Ops q (f ?des) ?H Q"
            by (intro f [OF 4(2)]) (use des nx in simp_all)
        qed (use s3 nx s(3) in \<open>auto simp: dcss_seq_def st_seq_combine\<close>)
      qed (use 2(3) s2 s(2) in simp_all)
    qed (use s1 nx d1 s(3) in \<open>auto simp: dcss_seq_def st_seq_combine\<close>)
  qed
qed

section \<open>Installing\<close>

definition installed :: "u64 set \<Rightarrow> u64 \<Rightarrow> dcss_immutables \<Rightarrow> u64 \<Rightarrow> nat \<Rightarrow> mem list \<Rightarrow> bool" where
  "installed D q v w i H \<longleftrightarrow> Suc i < length H \<and> words (H ! i) (di_a2 v) = di_e2 v \<and> words (H ! Suc i) (di_a2 v) = w \<and>
     d_imm (dcss_descriptors (last H) q) = v \<and> dcss_seq (last H) q = unat (ptr_seq w) \<and>
     (\<forall>a\<in>D. flagged (words (last H) a) \<longrightarrow> ptr_pid (words (last H) a) = q \<longrightarrow> a = di_a2 v \<and> words (last H) a = w)"

lemma installed_meanwhile:
  assumes m: "meanwhile D Ops q H H'" and h: "history D Ops H" and i: "installed D q v w i H"
  shows "installed D q v w i H'"
proof -
  have "d_imm (dcss_descriptors (last H') q) = v \<and> dcss_seq (last H') q = unat (ptr_seq w) \<and>
     (\<forall>a\<in>D. flagged (words (last H') a) \<longrightarrow> ptr_pid (words (last H') a) = q \<longrightarrow> a = di_a2 v \<and> words (last H') a = w)"
    by (rule meanwhile_keeps [OF m h]) (use i in \<open>auto simp: installed_def alien_def dcss_seq_def\<close>)
  then show ?thesis
    using i meanwhile_nth [OF m, of i] meanwhile_nth [OF m, of "Suc i"] meanwhile_length [OF m] by (simp add: installed_def)
qed

lemma install_pointer:
  assumes h: "history D Ops H" and r: "ready D q v w H" and w: "ptr_pid w = q" "flagged w" "even (unat (ptr_seq w))"
    and q: "unat q < max_threads" and v: "v \<in> Ops q" "di_a2 v \<in> D" and e2: "words (last H) (di_a2 v) = di_e2 v" "\<not> flagged (di_e2 v)"
  defines "m \<equiv> (last H)\<lparr>words := (words (last H))(di_a2 v := w)\<rparr>"
  shows "history D Ops (H @ [m])" "own D q (last H) m" "installed D q v w (length H - 1) (H @ [m])"
proof -
  have ne: "H \<noteq> []" by (rule history_nonempty [OF h])
  have "installs D H m (di_a2 v)" using r w(1,2) e2 by (auto simp: installs_def ready_def m_def)
  then have "may_follow D H m" by (auto simp: may_follow_def m_def dcss_seq_def)
  moreover have "genuine D Ops m"
    using history_last [OF h] r w q v by (auto simp: genuine_def m_def dcss_seq_def ready_def Let_def)
  ultimately show "history D Ops (H @ [m])" by (intro history_snoc h)
  show "own D q (last H) m" using w(1) by (auto simp: own_def m_def)
  show "installed D q v w (length H - 1) (H @ [m])"
    using r w e2 ne by (auto simp: installed_def m_def ready_def unused_def dcss_seq_def last_conv_nth nth_append)
qed

lemma thread_install:
  assumes ok: "ops_ok D Ops" and q: "unat q < max_threads" and v: "v \<in> Ops q"
    and w: "ptr_pid w = q" "flagged w" "even (unat (ptr_seq w))"
    and won: "\<And>H' i. history D Ops H' \<Longrightarrow> prefix H H' \<Longrightarrow> length H \<le> Suc i \<Longrightarrow> installed D q v w i H' \<Longrightarrow>
      thread D Ops q (f (di_e2 v)) H' Q"
    and lost: "\<And>H' k. history D Ops H' \<Longrightarrow> prefix H H' \<Longrightarrow> ready D q v w H' \<Longrightarrow> length H \<le> Suc k \<Longrightarrow> k < length H' \<Longrightarrow>
      words (H' ! k) (di_a2 v) \<noteq> di_e2 v \<Longrightarrow> \<not> flagged (words (H' ! k) (di_a2 v)) \<Longrightarrow>
      thread D Ops q (f (words (H' ! k) (di_a2 v))) H' Q"
    and h: "history D Ops H" and r: "ready D q v w H"
  shows "thread D Ops q (pbind (dcss_install fuel (di_a2 v) (di_e2 v) w) f) H Q"
  using h r won lost
proof (induction fuel arbitrary: H)
  case (Suc fuel)
  note won = Suc.prems(3) and lost = Suc.prems(4)
  let ?a = "di_a2 v" and ?e = "di_e2 v"
  have vD: "?a \<in> D" "\<not> flagged ?e" using ok v by (auto simp: ops_ok_def dcss_imm_ok_def)
  let ?next = "\<lambda>(ok, r). pbind (if ok \<or> \<not> flagged r then Ret r else pbind (dcss_help r) (\<lambda>_. dcss_install fuel ?a ?e w)) f"
  have eq: "pbind (dcss_install (Suc fuel) ?a ?e w) f = pbind (cas_word_weak ?a ?e w) ?next"
    by (simp add: pbind_assoc split_def)
  show ?case
    unfolding eq cas_word_weak_def
  proof (rule guards_access)
    fix H1
    assume 1: "meanwhile D Ops q H H1"
    note h1 = meanwhile_history [OF 1 Suc.prems(1)] and r1 = ready_meanwhile [OF 1 Suc.prems(1,2) w(1,2)]
    let ?m = "last H1" and ?r = "let (spurious, m1) = next_weak (last H1); x = words m1 ?a
      in if \<not> spurious \<and> x = ?e then ((True, x), m1\<lparr>words := (words m1)(?a := w)\<rparr>) else ((False, x), m1)"
    have nw: "next_weak ?m = (False, ?m)" using history_last [OF h1] by (simp add: genuine_def)
    have ne: "H1 \<noteq> []" by (rule history_nonempty [OF h1])
    have pre: "prefix H (H1 @ [m])" for m using interference_prefix [OF 1] by (auto simp: prefix_def)
    note len = meanwhile_length [OF 1]
    show "self D Ops q H1 (snd ?r) \<and> thread D Ops q (?next (fst ?r)) (H1 @ [snd ?r]) Q"
    proof (cases "words ?m ?a = ?e")
      case True
      note ins = install_pointer [OF h1 r1 w q v vD(1) True vD(2)]
      have "thread D Ops q (f ?e) (H1 @ [?m\<lparr>words := (words ?m)(?a := w)\<rparr>]) Q"
        by (rule won [OF ins(1) pre _ ins(3)]) (use len ne in simp)
      then show ?thesis using True nw ins(1,2) by (simp add: self_def)
    next
      case False
      let ?H1 = "H1 @ [?m]"
      note h2 = history_same [OF h1] and m2 = meanwhile_same [OF 1 h1]
      note r2 = ready_meanwhile [OF m2 Suc.prems(1,2) w(1,2)]
      have "thread D Ops q (?next (False, words ?m ?a)) ?H1 Q"
      proof (cases "flagged (words ?m ?a)")
        case True
        have seen: "seen ?a (words ?m ?a) ?H1" using seen_here [of ?H1 ?a] by simp
        have "thread D Ops q (pbind (dcss_help (words ?m ?a)) (\<lambda>_. pbind (dcss_install fuel ?a ?e w) f)) ?H1 Q"
        proof (rule guards_then [OF thread_help [OF ok h2 vD(1) seen True]])
          fix H2
          assume "helped D Ops q ?a (words ?m ?a) ?H1 H2"
          then have 2: "meanwhile D Ops q ?H1 H2" by (simp add: helped_def)
          have le: "prefix H H2" "length H \<le> length H2"
            using prefix_order.trans [OF pre interference_prefix [OF 2]] len meanwhile_length [OF 2] by simp_all
          show "thread D Ops q (pbind (dcss_install fuel ?a ?e w) f) H2 Q"
          proof (rule Suc.IH [OF meanwhile_history [OF 2 h2] ready_meanwhile [OF 2 h2 r2 w(1,2)]])
            show "thread D Ops q (f ?e) H' Q"
              if "history D Ops H'" "prefix H2 H'" "length H2 \<le> Suc i" "installed D q v w i H'" for H' i
              by (rule won [OF that(1) _ _ that(4)]) (use that(2,3) le in \<open>auto intro: prefix_order.trans\<close>)
            show "thread D Ops q (f (words (H' ! k) ?a)) H' Q"
              if "history D Ops H'" "prefix H2 H'" "ready D q v w H'" "length H2 \<le> Suc k" "k < length H'"
                "words (H' ! k) ?a \<noteq> ?e" "\<not> flagged (words (H' ! k) ?a)" for H' k
              by (rule lost [OF that(1) _ that(3) _ that(5-7)]) (use that(2,4) le in \<open>auto intro: prefix_order.trans\<close>)
          qed
        qed
        then show ?thesis using True by (simp add: pbind_assoc)
      next
        case unfl: False
        have "thread D Ops q (f (words (?H1 ! length H1) ?a)) ?H1 Q"
          by (rule lost [OF h2 pre r2]) (use len False unfl in simp_all)
        then show ?thesis using unfl by simp
      qed
      then show ?thesis using False nw h1 by (simp add: self_def own_same history_same)
    qed
  qed
qed simp

section \<open>Operations\<close>

datatype dcss_op = Dcss dcss_immutables | Dcss_read u64

definition do_op :: "nat \<Rightarrow> u64 \<Rightarrow> dcss_op \<Rightarrow> (mem, u64) prog" where
  "do_op fuel q op = (case op of
     Dcss v \<Rightarrow> dcss fuel q (di_a1 v) (di_a1_load v) (di_e1 v) (di_a2 v) (di_e2 v) (di_n2 v)
   | Dcss_read a \<Rightarrow> dcss_read fuel a)"

text \<open>
  The call \<open>v\<close> of thread \<open>q\<close> installs its pointer after time \<open>i\<close> and is removed after time \<open>k\<close>, with the
  outcome of time \<open>d\<close>.
\<close>

definition takes_effect :: "mem list \<Rightarrow> u64 \<Rightarrow> dcss_immutables \<Rightarrow> nat \<Rightarrow> nat \<Rightarrow> nat \<Rightarrow> bool" where
  "takes_effect H q v i d k \<longleftrightarrow> i < d \<and> d \<le> k \<and> Suc k < length H \<and> words (H ! i) (di_a2 v) = di_e2 v \<and>
     (\<exists>w. flagged w \<and> ptr_pid w = q \<and> (\<forall>j. i < j \<and> j \<le> k \<longrightarrow> words (H ! j) (di_a2 v) = w \<and> dcss_imm_of (H ! j) w = v)) \<and>
     words (H ! Suc k) (di_a2 v) = dcss_outcome (H ! d) v"

definition op_done :: "u64 \<Rightarrow> nat \<Rightarrow> mem list \<Rightarrow> dcss_op \<Rightarrow> u64 \<Rightarrow> bool" where
  "op_done q n H op r \<longleftrightarrow> \<not> flagged r \<and> (case op of
     Dcss v \<Rightarrow> if r = di_e2 v then \<exists>i d k. n \<le> Suc i \<and> takes_effect H q v i d k
       else \<exists>k. n \<le> Suc k \<and> k < length H \<and> words (H ! k) (di_a2 v) = r
   | Dcss_read a \<Rightarrow> \<exists>k. n \<le> Suc k \<and> k < length H \<and> words (H ! k) a = r)"

lemma dcss_taken:
  assumes ok: "ops_ok D Ops" and h: "history D Ops H" and v: "v \<in> Ops q"
    and i: "installed D q v w i H" and w: "ptr_pid w = q" "flagged w" "even (unat (ptr_seq w))" and gone: "words (last H) (di_a2 v) \<noteq> w"
  obtains d k where "takes_effect H q v i d k"
proof -
  let ?a = "di_a2 v"
  have a: "?a \<in> D" "\<not> flagged (di_e2 v)" using ok v by (auto simp: ops_ok_def dcss_imm_ok_def)
  have ne: "H \<noteq> []" by (rule history_nonempty [OF h])
  have lt: "Suc i < length H - 1"
    using i gone ne by (cases "Suc i = length H - 1") (auto simp: installed_def last_conv_nth)
  obtain k d where k: "Suc i \<le> k" "k < length H - 1" "words (H ! k) ?a = w" "d \<le> k"
    "\<And>l. d \<le> l \<Longrightarrow> l \<le> k \<Longrightarrow> words (H ! l) ?a = w" "words (H ! Suc k) ?a = dcss_value (H ! d) ?a"
    by (rule removal [OF ok h a(1) lt, of w]) (use i gone ne w in \<open>auto simp: installed_def last_conv_nth\<close>)
  have d: "i < d"
  proof (rule ccontr)
    assume "\<not> i < d"
    then have "words (H ! i) ?a = w" using k(1,5) by simp
    then show False using i a(2) w(2) by (simp add: installed_def)
  qed
  have stretch: "words (H ! j) ?a = w" if "i < j" "j \<le> k" for j
    by (rule one_stretch [OF ok h a(1), of "Suc i" j k]) (use that k i w(2) in \<open>auto simp: installed_def\<close>)
  have imm: "dcss_imm_of (H ! j) w = v" if "i < j" "j \<le> k" for j
  proof -
    have jl: "j < length H" using that k(2) by simp
    have "dcss_seq (H ! j) q = unat (ptr_seq w)"
      using history_nth [OF h jl] a(1) stretch [OF that] w by (auto simp: genuine_def Let_def)
    then show ?thesis
      using imm_const [OF h, of j "length H - 1" q] i w jl ne by (simp add: installed_def last_conv_nth)
  qed
  have "dcss_value (H ! d) ?a = dcss_outcome (H ! d) v"
    using stretch [OF d k(4)] imm [OF d k(4)] w(2) by (simp add: dcss_value_def)
  then have "takes_effect H q v i d k"
    using d k i stretch imm w unfolding takes_effect_def by (auto simp: installed_def intro!: exI [of _ w])
  then show thesis by (rule that)
qed

lemma installed_unused:
  "installed D q v w i H \<Longrightarrow> words (last H) (di_a2 v) \<noteq> w \<Longrightarrow> unused D q (last H)"
  by (auto simp: installed_def unused_def)

lemma thread_dcss:
  assumes ok: "ops_ok D Ops" and h: "history D Ops H" and u: "unused D q (last H)" and q: "unat q < max_threads"
    and s: "dcss_seq (last H) q = s" "even s" "s + 2 < 2 ^ 32" and v: "v \<in> Ops q"
    and f: "\<And>H' r. history D Ops H' \<Longrightarrow> prefix H H' \<Longrightarrow> unused D q (last H') \<Longrightarrow> dcss_seq (last H') q = s + 2 \<Longrightarrow>
      op_done q (length H) H' (Dcss v) r \<Longrightarrow> thread D Ops q (f r) H' Q"
  shows "thread D Ops q (pbind (do_op fuel q (Dcss v)) f) H Q"
proof -
  have val: "\<not> flagged (di_e1 v)" "\<not> flagged (di_e2 v)" "\<not> flagged (di_n2 v)" "di_a2 v \<in> D"
    using ok v by (auto simp: ops_ok_def dcss_imm_ok_def)
  let ?finish = "\<lambda>w r. pbind (if r = di_e2 v then pbind (dcss_help w) (\<lambda>_. Ret r) else Ret r) f"
  have eta: "\<lparr>di_a1 = di_a1 v, di_a1_load = di_a1_load v, di_e1 = di_e1 v, di_a2 = di_a2 v, di_e2 = di_e2 v, di_n2 = di_n2 v\<rparr> = v"
    by (cases v) simp
  have eq: "pbind (do_op fuel q (Dcss v)) f = pbind (create_new dcss_pool q 0 v) (\<lambda>des.
      pbind (set_flag dcss_flag_bit des) (\<lambda>w. pbind (dcss_install fuel (di_a2 v) (di_e2 v) w) (?finish w)))"
    using val by (simp add: do_op_def dcss_def dcss_create_new_def pbind_assoc eta)
  show ?thesis
    unfolding eq
  proof (rule thread_create_new [OF h u q s])
    fix H1 des
    assume 1: "history D Ops H1" "prefix H H1" "ptr_pid des = q" "unat (ptr_seq des) = s + 2" "\<not> flagged des"
      "ready D q v (toggle_flag dcss_flag_bit des) H1"
    let ?w = "toggle_flag dcss_flag_bit des"
    have w: "ptr_pid ?w = q" "flagged ?w" "even (unat (ptr_seq ?w))" "unat (ptr_seq ?w) = s + 2"
      using 1(3-5) s(2) by (simp_all add: ptr_extract_toggle)
    have len1: "length H \<le> length H1" by (rule prefix_length_le [OF 1(2)])
    have "thread D Ops q (pbind (dcss_install fuel (di_a2 v) (di_e2 v) ?w) (?finish ?w)) H1 Q"
    proof (rule thread_install [OF ok q v w(1-3) _ _ 1(1,6)])
      fix H2 i
      assume 2: "history D Ops H2" "prefix H1 H2" "length H1 \<le> Suc i" "installed D q v ?w i H2"
      have seen: "seen (di_a2 v) ?w H2" using 2(4) by (auto simp: installed_def seen_def)
      have "thread D Ops q (pbind (dcss_help ?w) (\<lambda>_. f (di_e2 v))) H2 Q"
      proof (rule guards_then [OF thread_help [OF ok 2(1) val(4) seen w(2)]])
        fix H3
        assume "helped D Ops q (di_a2 v) ?w H2 H3"
        then have 3: "meanwhile D Ops q H2 H3" and gone: "words (last H3) (di_a2 v) \<noteq> ?w"
          using 2(4) w(1) by (simp_all add: helped_def installed_def)
        note h3 = meanwhile_history [OF 3 2(1)] and i3 = installed_meanwhile [OF 3 2(1,4)]
        obtain d k where "takes_effect H3 q v i d k" by (rule dcss_taken [OF ok h3 v i3 w(1-3) gone])
        then have "op_done q (length H) H3 (Dcss v) (di_e2 v)" using val(2) le_trans [OF len1 2(3)] unfolding op_done_def by auto
        moreover have "prefix H H3"
          using 1(2) 2(2) interference_prefix [OF 3] by (auto simp: prefix_def)
        moreover have "dcss_seq (last H3) q = s + 2" using i3 w(4) by (simp add: installed_def)
        ultimately show "thread D Ops q (f (di_e2 v)) H3 Q"
          using f [OF h3 _ installed_unused [OF i3 gone]] by blast
      qed
      then show "thread D Ops q (?finish ?w (di_e2 v)) H2 Q" by (simp add: pbind_assoc)
    next
      fix H2 k
      assume 2: "history D Ops H2" "prefix H1 H2" "ready D q v ?w H2" "length H1 \<le> Suc k" "k < length H2"
        "words (H2 ! k) (di_a2 v) \<noteq> di_e2 v" "\<not> flagged (words (H2 ! k) (di_a2 v))"
      have "thread D Ops q (f (words (H2 ! k) (di_a2 v))) H2 Q"
      proof (rule f [OF 2(1)])
        show "prefix H H2" using 1(2) 2(2) by (rule prefix_order.trans)
        show "op_done q (length H) H2 (Dcss v) (words (H2 ! k) (di_a2 v))"
          using 2(5-7) le_trans [OF len1 2(4)] unfolding op_done_def by auto
      qed (use 2(3) w(4) in \<open>simp_all add: ready_def\<close>)
      then show "thread D Ops q (?finish ?w (words (H2 ! k) (di_a2 v))) H2 Q" using 2(6) by simp
    qed
    then show "thread D Ops q (pbind (set_flag dcss_flag_bit des)
        (\<lambda>w. pbind (dcss_install fuel (di_a2 v) (di_e2 v) w) (?finish w))) H1 Q"
      using 1(5) by (simp add: set_flag_def)
  qed
qed

lemma thread_dcss_read:
  assumes ok: "ops_ok D Ops" and a: "a \<in> D"
    and f: "\<And>H' r. history D Ops H' \<Longrightarrow> meanwhile D Ops q H H' \<Longrightarrow> op_done q (length H) H' (Dcss_read a) r \<Longrightarrow>
      thread D Ops q (f r) H' Q"
    and h: "history D Ops H"
  shows "thread D Ops q (pbind (do_op fuel q (Dcss_read a)) f) H Q"
  using h f
proof (induction fuel arbitrary: H)
  case (Suc fuel)
  let ?next = "\<lambda>r. pbind (if \<not> flagged r then Ret r else pbind (dcss_help r) (\<lambda>_. dcss_read fuel a)) f"
  have eq: "pbind (do_op (Suc fuel) q (Dcss_read a)) f = pbind (access (\<lambda>m. (words m a, m))) ?next"
    by (simp add: do_op_def load_word_def pbind_assoc)
  show ?case
    unfolding eq
  proof (rule thread_read [OF Suc.prems(1)])
    fix H1
    assume 1: "meanwhile D Ops q H H1" "history D Ops H1"
    let ?H1 = "H1 @ [last H1]" and ?r = "words (last H1) a"
    note m1 = meanwhile_same [OF 1] and h1 = history_same [OF 1(2)]
    show "thread D Ops q (?next ?r) ?H1 Q"
    proof (cases "flagged ?r")
      case False
      have "op_done q (length H) ?H1 (Dcss_read a) ?r"
        using False meanwhile_length [OF 1(1)] by (auto simp: op_done_def intro!: exI [of _ "length H1"])
      then show ?thesis using Suc.prems(2) [OF h1 m1] False by simp
    next
      case True
      have seen: "seen a ?r ?H1" using seen_here [of ?H1 a] by simp
      have "thread D Ops q (pbind (dcss_help ?r) (\<lambda>_. pbind (do_op fuel q (Dcss_read a)) f)) ?H1 Q"
      proof (rule guards_then [OF thread_help [OF ok h1 a seen True]])
        fix H2
        assume "helped D Ops q a ?r ?H1 H2"
        then have 2: "meanwhile D Ops q ?H1 H2" by (simp add: helped_def)
        note all = interference_trans [OF m1 2]
        show "thread D Ops q (pbind (do_op fuel q (Dcss_read a)) f) H2 Q"
        proof (rule Suc.IH [OF meanwhile_history [OF 2 h1]])
          fix H' r
          assume "history D Ops H'" "meanwhile D Ops q H2 H'" "op_done q (length H2) H' (Dcss_read a) r"
          moreover from this have "op_done q (length H) H' (Dcss_read a) r"
            using meanwhile_length [OF all] by (fastforce simp: op_done_def intro: order_trans)
          ultimately show "thread D Ops q (f r) H' Q" using Suc.prems(2) interference_trans [OF all] by blast
        qed
      qed
      then show ?thesis using True by (simp add: do_op_def pbind_assoc)
    qed
  qed
qed (simp add: do_op_def)

section \<open>Sequences of operations, many threads\<close>

primrec do_ops :: "nat \<Rightarrow> u64 \<Rightarrow> dcss_op list \<Rightarrow> (mem, u64 list) prog" where
  "do_ops fuel q [] = Ret []"
| "do_ops fuel q (op # ops) = pbind (do_op fuel q op) (\<lambda>r. pbind (do_ops fuel q ops) (\<lambda>rs. Ret (r # rs)))"

fun ops_done :: "u64 \<Rightarrow> nat \<Rightarrow> mem list \<Rightarrow> dcss_op list \<Rightarrow> u64 list \<Rightarrow> bool" where
  "ops_done q n H [] [] \<longleftrightarrow> True"
| "ops_done q n H (op # ops) (r # rs) \<longleftrightarrow>
     (\<exists>n'\<ge>n. n' \<le> length H \<and> op_done q n (take n' H) op r \<and> ops_done q n' H ops rs)"
| "ops_done q n H _ _ \<longleftrightarrow> False"

definition op_ok :: "u64 set \<Rightarrow> dcss_op \<Rightarrow> bool" where
  "op_ok D op \<longleftrightarrow> (case op of
     Dcss v \<Rightarrow> dcss_imm_ok v \<and> di_a2 v \<in> D \<and> \<not> flagged (di_e1 v) \<and> (di_a1_load v = Load_default \<longrightarrow> di_a1 v \<notin> D)
   | Dcss_read a \<Rightarrow> a \<in> D)"

lemma ops_done_prefix: "ops_done q n H ops rs \<Longrightarrow> prefix H H' \<Longrightarrow> ops_done q n H' ops rs"
proof (induction q n H ops rs rule: ops_done.induct)
  case (2 q n H op ops r rs)
  then obtain n' where n': "n \<le> n'" "n' \<le> length H" "op_done q n (take n' H) op r" "ops_done q n' H ops rs" by auto
  moreover have "take n' H' = take n' H" using 2(3) n'(2) by (auto simp: prefix_def)
  ultimately show ?case using 2(1) [OF n'(4) 2(3)] 2(3) by (auto dest: prefix_length_le intro!: exI [of _ n'])
qed auto

lemma thread_do_ops:
  assumes ok: "ops_ok D Ops" and q: "unat q < max_threads"
    and ops: "\<And>op. op \<in> set ops \<Longrightarrow> op_ok D op \<and> (\<forall>v. op = Dcss v \<longrightarrow> v \<in> Ops q)"
    and h: "history D Ops H" and u: "unused D q (last H)"
    and s: "even (dcss_seq (last H) q)" "dcss_seq (last H) q + 2 * length ops < 2 ^ 32"
  shows "thread D Ops q (do_ops fuel q ops) H (\<lambda>rs H'. history D Ops H' \<and> prefix H H' \<and> ops_done q (length H) H' ops rs)"
  using ops h u s
proof (induction ops arbitrary: H)
  case Nil
  then show ?case by (auto dest: meanwhile_history interference_prefix)
next
  case (Cons op ops)
  let ?Q = "\<lambda>rs H'. history D Ops H' \<and> prefix H H' \<and> ops_done q (length H) H' (op # ops) rs"
  have rest: "thread D Ops q (pbind (do_ops fuel q ops) (\<lambda>rs. Ret (r # rs))) H1 ?Q"
    if 1: "history D Ops H1" "prefix H H1" "unused D q (last H1)" "op_done q (length H) H1 op r"
      "dcss_seq (last H1) q = dcss_seq (last H) q \<or> dcss_seq (last H1) q = dcss_seq (last H) q + 2" for H1 r
  proof -
    have s1: "even (dcss_seq (last H1) q)" "dcss_seq (last H1) q + 2 * length ops < 2 ^ 32" using 1(5) Cons.prems(4,5) by auto
    have "op_ok D op' \<and> (\<forall>v. op' = Dcss v \<longrightarrow> v \<in> Ops q)" if "op' \<in> set ops" for op'
      using Cons.prems(1) [of op'] that by simp
    note ih = Cons.IH [OF this 1(1,3) s1]
    show ?thesis
    proof (rule guards_then [OF ih])
      fix rs H2
      assume 2: "history D Ops H2 \<and> prefix H1 H2 \<and> ops_done q (length H1) H2 ops rs"
      have "?Q (r # rs) H3" if 3: "meanwhile D Ops q H2 H3" for H3
      proof -
        have p: "prefix H1 H3" "prefix H2 H3" using 2 interference_prefix [OF 3] by (auto intro: prefix_order.trans)
        have "take (length H1) H3 = H1" using p(1) by (auto simp: prefix_def)
        then have "ops_done q (length H) H3 (op # ops) (r # rs)"
          using 1(2,4) 2 p ops_done_prefix by (auto simp: prefix_length_le intro!: exI [of _ "length H1"])
        then show ?thesis using meanwhile_history [OF 3] 2 1(2) p by (auto intro: prefix_order.trans)
      qed
      then show "thread D Ops q (Ret (r # rs)) H2 ?Q" by simp
    qed
  qed
  show ?case
  proof (cases op)
    case (Dcss v)
    have v: "v \<in> Ops q" using Cons.prems(1) [of op] Dcss by simp
    show ?thesis
      unfolding do_ops.simps Dcss
      by (rule thread_dcss [OF ok Cons.prems(2,3) q refl Cons.prems(4) _ v]) (use Cons.prems(5) rest Dcss in auto)
  next
    case (Dcss_read a)
    then have a: "a \<in> D" using Cons.prems(1) [of op] by (simp add: op_ok_def)
    show ?thesis
      unfolding do_ops.simps Dcss_read
    proof (rule thread_dcss_read [OF ok a _ Cons.prems(2)])
      fix H' r
      assume 1: "history D Ops H'" "meanwhile D Ops q H H'" "op_done q (length H) H' (Dcss_read a) r"
      show "thread D Ops q (pbind (do_ops fuel q ops) (\<lambda>rs. Ret (r # rs))) H'
          (\<lambda>rs H'. history D Ops H' \<and> prefix H H' \<and> ops_done q (length H) H' (Dcss_read a # ops) rs)"
        using rest [OF 1(1) interference_prefix [OF 1(2)] unused_meanwhile [OF 1(2) Cons.prems(2,3)]] 1(3)
          meanwhile_descriptor [OF 1(2) Cons.prems(2)] Dcss_read by (simp add: dcss_seq_def)
    qed
  qed
qed

text \<open>Outside the threads, the control words and the descriptors of kcas may change at any time.\<close>

definition outside :: "u64 set \<Rightarrow> mem \<Rightarrow> mem \<Rightarrow> bool" where
  "outside D m m' \<longleftrightarrow> (\<forall>a\<in>D. words m' a = words m a) \<and> dcss_descriptors m' = dcss_descriptors m \<and>
     weak_failures m' = weak_failures m"

lemma outside_others: "outside D (last H) m \<Longrightarrow> others D Ops q H m"
  unfolding others_def
proof
  assume o: "outside D (last H) m" and h: "history D Ops H"
  have "genuine D Ops m" using history_last [OF h] o by (simp add: genuine_def outside_def dcss_seq_def Let_def)
  moreover have "may_follow D H m" using o by (simp add: may_follow_def outside_def dcss_seq_def)
  ultimately show "history D Ops (H @ [m]) \<and> alien D q (last H) m"
    using h o by (auto simp: alien_def outside_def intro: history_snoc)
qed

definition clients :: "nat \<Rightarrow> dcss_op list list \<Rightarrow> (mem, u64 list) prog list" where
  "clients fuel opss = map (\<lambda>q. do_ops fuel (of_nat q) (opss ! q)) [0..<length opss]"

definition calls :: "dcss_op list list \<Rightarrow> u64 \<Rightarrow> dcss_immutables set" where
  "calls opss p = {v. unat p < length opss \<and> Dcss v \<in> set (opss ! unat p)}"

text \<open>A memory in which no call is in progress, with sequence numbers that leave room for all calls.\<close>

definition quiet_start :: "u64 set \<Rightarrow> dcss_op list list \<Rightarrow> mem \<Rightarrow> bool" where
  "quiet_start D opss m \<longleftrightarrow> weak_failures m = [] \<and> (\<forall>a\<in>D. \<not> flagged (words m a)) \<and>
     (\<forall>q<length opss. even (dcss_seq m (of_nat q)) \<and> dcss_seq m (of_nat q) + 2 * length (opss ! q) < 2 ^ 32)"

lemma calls_ok: "\<forall>ops\<in>set opss. \<forall>op\<in>set ops. op_ok D op \<Longrightarrow> ops_ok D (calls opss)"
  by (auto simp: ops_ok_def calls_def op_ok_def dest!: nth_mem split: dcss_op.splits)

lemma unat_pid: "q < length opss \<Longrightarrow> length opss \<le> max_threads \<Longrightarrow> unat (of_nat q :: u64) = q"
  by (simp add: unat_of_nat max_threads_def)

lemma clients_run:
  assumes n: "length opss \<le> max_threads" and ops: "\<forall>ops\<in>set opss. \<forall>op\<in>set ops. op_ok D op"
    and m: "quiet_start D opss m" and run: "par_run (outside D) (clients fuel opss) [m] ps H"
  shows "length ps = length opss" "history D (calls opss) H"
    and "\<And>q. q < length opss \<Longrightarrow> thread D (calls opss) (of_nat q) (ps ! q) H
      (\<lambda>rs H. ops_done (of_nat q) 1 H (opss ! q) rs)"
proof -
  note ok = calls_ok [OF ops]
  have h0: "history D (calls opss) [m]" using m by (auto simp: quiet_start_def genuine_def intro: history_begin)
  have start: "thread D (calls opss) (of_nat q) (clients fuel opss ! q) [m] (\<lambda>rs H. ops_done (of_nat q) 1 H (opss ! q) rs)"
    if q: "q < length (clients fuel opss)" for q
  proof -
    have ql: "q < length opss" using q by (simp add: clients_def)
    have "thread D (calls opss) (of_nat q) (do_ops fuel (of_nat q) (opss ! q)) [m]
      (\<lambda>rs H'. history D (calls opss) H' \<and> prefix [m] H' \<and> ops_done (of_nat q) (length [m]) H' (opss ! q) rs)"
      by (rule thread_do_ops [OF ok _ _ h0])
        (use m n ops ql unat_pid [OF ql n] in \<open>auto simp: quiet_start_def unused_def calls_def dest!: nth_mem\<close>)
    then show ?thesis using ql by (auto simp: clients_def elim!: guards_mono)
  qed
  have "length ps = length (clients fuel opss) \<and> (\<forall>q<length (clients fuel opss).
      thread D (calls opss) (of_nat q) (ps ! q) H (\<lambda>rs H. ops_done (of_nat q) 1 H (opss ! q) rs)) \<and> history D (calls opss) H"
  proof (rule par_run_guards [OF run start])
    show "others D (calls opss) (of_nat j) H m"
      if "i < length (clients fuel opss)" "j < length (clients fuel opss)" "i \<noteq> j" "self D (calls opss) (of_nat i) H m" for i j H m
    proof (rule self_others [OF that(4)])
      have "i < length opss" "j < length opss" using that(1,2) by (simp_all add: clients_def)
      then show "(of_nat i :: u64) \<noteq> of_nat j" using unat_pid [OF _ n] that(3) by metis
    qed
    show "history D (calls opss) (H @ [m])" if "history D (calls opss) H" "outside D (last H) m" for H m
      using outside_others [OF that(2)] that(1) by (auto simp: others_def)
  qed (auto intro: outside_others h0 simp: self_def)
  then show "length ps = length opss" "history D (calls opss) H"
    and "\<And>q. q < length opss \<Longrightarrow> thread D (calls opss) (of_nat q) (ps ! q) H (\<lambda>rs H. ops_done (of_nat q) 1 H (opss ! q) rs)"
    by (simp_all add: clients_def)
qed

end
