(* ===== verification/Mw_Dcss_Linear.thy ===== *)
theory Mw_Dcss_Linear
  imports Mw_Dcss_Race
begin

text \<open>
  \<open>dcss\<close> is linearizable. The pointer of a call stays in its word until some thread has stored the outcome, which
  that thread computed from a control word it had read before; the call takes effect at the moment of that read, which
  only the store reveals. The linearized memory is therefore computed from the whole history: before its
  decision a call has done nothing, after it the word has the new value already.
\<close>

section \<open>The linearized memory\<close>

definition decides :: "mem list \<Rightarrow> u64 \<Rightarrow> u64 \<Rightarrow> nat \<Rightarrow> bool" where
  "decides H a w d \<longleftrightarrow> (\<exists>k\<in>{d..<length H - 1}. (\<forall>j\<in>{d..k}. words (H ! j) a = w) \<and>
     words (H ! Suc k) a \<noteq> w \<and> words (H ! Suc k) a = dcss_value (H ! d) a)"

definition decision :: "mem list \<Rightarrow> u64 \<Rightarrow> u64 \<Rightarrow> nat option" where
  "decision H a w = find (decides H a w) [0..<length H]"

definition linear :: "mem list \<Rightarrow> nat \<Rightarrow> u64 \<Rightarrow> u64" where
  "linear H k a = (let w = words (H ! k) a in
     if \<not> flagged w then w
     else case decision H a w of
         Some d \<Rightarrow> if d < k then dcss_value (H ! d) a else di_e2 (dcss_imm_of (H ! k) w)
       | None \<Rightarrow> di_e2 (dcss_imm_of (H ! k) w))"

text \<open>The call \<open>v\<close> of thread \<open>q\<close> is in progress on its word at time \<open>k\<close>.\<close>

definition in_progress :: "mem list \<Rightarrow> nat \<Rightarrow> u64 \<Rightarrow> dcss_immutables \<Rightarrow> bool" where
  "in_progress H k q v \<longleftrightarrow> (let w = words (H ! k) (di_a2 v) in
     flagged w \<and> ptr_pid w = q \<and> dcss_imm_of (H ! k) w = v)"

text \<open>
  An operation between the times \<open>n\<close> and \<open>n'\<close>, on the linearized memory: a \<open>dcss\<close> returns the value of its data word at one
  moment; when that is the expected one, this is the moment of its decision, and the control word of that
  moment says whether the new value is stored. A read returns the value at one moment.
\<close>

definition op_linear :: "mem list \<Rightarrow> u64 \<Rightarrow> nat \<Rightarrow> nat \<Rightarrow> dcss_op \<Rightarrow> u64 \<Rightarrow> bool" where
  "op_linear H q n n' op r \<longleftrightarrow> (\<exists>k. n \<le> Suc k \<and> k < n' \<and> (case op of
     Dcss v \<Rightarrow> linear H k (di_a2 v) = r \<and>
       (r = di_e2 v \<longrightarrow> Suc k < n' \<and> in_progress H k q v \<and> decision H (di_a2 v) (words (H ! k) (di_a2 v)) = Some k \<and>
          linear H (Suc k) (di_a2 v) = (if a1_value (H ! k) (di_a1_load v) (di_a1 v) = di_e1 v then di_n2 v else di_e2 v))
   | Dcss_read a \<Rightarrow> linear H k a = r))"

fun ops_linear :: "mem list \<Rightarrow> u64 \<Rightarrow> nat \<Rightarrow> dcss_op list \<Rightarrow> u64 list \<Rightarrow> bool" where
  "ops_linear H q n [] [] \<longleftrightarrow> True"
| "ops_linear H q n (op # ops) (r # rs) \<longleftrightarrow>
     (\<exists>n'\<ge>n. n' \<le> length H \<and> op_linear H q n n' op r \<and> ops_linear H q n' ops rs)"
| "ops_linear H q n _ _ \<longleftrightarrow> False"

section \<open>Decisions\<close>

lemma decides_iff:
  "decides H a w d \<longleftrightarrow> (\<exists>k\<ge>d. Suc k < length H \<and> (\<forall>j. d \<le> j \<and> j \<le> k \<longrightarrow> words (H ! j) a = w) \<and>
     words (H ! Suc k) a \<noteq> w \<and> words (H ! Suc k) a = dcss_value (H ! d) a)"
  unfolding decides_def by (simp add: Bex_def Ball_def less_diff_conv less_Suc_eq_le conj_assoc)

lemma decision_Some: "decision H a w = Some d \<Longrightarrow> decides H a w d"
  by (auto simp: decision_def find_Some_iff)

lemma decision_exists: "decides H a w d \<Longrightarrow> \<exists>d'. decision H a w = Some d'"
proof -
  assume d: "decides H a w d"
  then have "d \<in> set [0..<length H]" by (auto simp: decides_iff)
  then have "decision H a w \<noteq> None" using d unfolding decision_def find_None_iff by blast
  then show ?thesis by blast
qed

text \<open>A decision lies in the stretch of its pointer, whose end stores the outcome of the decision.\<close>

lemma decision_stretch:
  assumes ok: "ops_ok D Ops" and h: "history D Ops H" and a: "a \<in> D" and w: "flagged w"
    and d: "decision H a w = Some d" and k: "words (H ! k) a = w" "Suc k < length H" "words (H ! Suc k) a \<noteq> w"
  shows "d \<le> k" "words (H ! d) a = w" "words (H ! Suc k) a = dcss_value (H ! d) a"
proof -
  obtain e where e: "d \<le> e" "Suc e < length H" "\<And>j. d \<le> j \<Longrightarrow> j \<le> e \<Longrightarrow> words (H ! j) a = w"
    "words (H ! Suc e) a \<noteq> w" "words (H ! Suc e) a = dcss_value (H ! d) a"
    using decision_Some [OF d] by (auto simp: decides_iff)
  have "e = k"
  proof (rule ccontr)
    assume "e \<noteq> k"
    then consider "Suc e \<le> k" | "Suc k \<le> e" by linarith
    then show False
    proof cases
      case 1
      have "words (H ! Suc e) a = w"
        by (rule one_stretch [OF ok h a, of e "Suc e" k]) (use 1 e k w in auto)
      then show False using e(4) by simp
    next
      case 2
      have "words (H ! Suc k) a = w"
        by (rule one_stretch [OF ok h a, of k "Suc k" e]) (use 2 e k w in auto)
      then show False using k(3) by simp
    qed
  qed
  then show "d \<le> k" "words (H ! d) a = w" "words (H ! Suc k) a = dcss_value (H ! d) a" using e by auto
qed

lemma same_call:
  assumes h: "history D Ops H" and a: "a \<in> D" and w: "flagged w"
    and ij: "i < length H" "j < length H" "words (H ! i) a = w" "words (H ! j) a = w"
  shows "dcss_imm_of (H ! i) w = dcss_imm_of (H ! j) w"
proof -
  have s: "dcss_seq (H ! i) (ptr_pid w) = unat (ptr_seq w)" "dcss_seq (H ! j) (ptr_pid w) = unat (ptr_seq w)"
    "even (unat (ptr_seq w))"
    using history_nth [OF h ij(1)] history_nth [OF h ij(2)] a ij(3,4) w by (auto simp: genuine_def Let_def)
  show ?thesis
  proof (cases "i \<le> j")
    case True
    then show ?thesis using imm_const [OF h True ij(2), of "ptr_pid w"] s by simp
  next
    case False
    then show ?thesis using imm_const [OF h _ ij(1), of j "ptr_pid w"] s by simp
  qed
qed

lemma value_of_flagged:
  "flagged (words m a) \<Longrightarrow> dcss_value m a = dcss_outcome m (dcss_imm_of m (words m a))"
  by (simp add: dcss_value_def)

text \<open>What happens to the linearized word from one moment to the next.\<close>

lemma linear_next:
  assumes ok: "ops_ok D Ops" and h: "history D Ops H" and a: "a \<in> D" and k: "Suc k < length H"
  defines "w \<equiv> words (H ! k) a"
  shows "linear H (Suc k) a = linear H k a \<or>
    flagged w \<and> decision H a w = Some k \<and> linear H k a = di_e2 (dcss_imm_of (H ! k) w) \<and>
      linear H (Suc k) a = dcss_outcome (H ! k) (dcss_imm_of (H ! k) w)"
proof (cases "words (H ! Suc k) a = w")
  case same: True
  show ?thesis
  proof (cases "flagged w")
    case True
    have "dcss_imm_of (H ! k) w = dcss_imm_of (H ! Suc k) w"
      by (rule same_call [OF h a True]) (use k same in \<open>simp_all add: w_def\<close>)
    moreover have "dcss_value (H ! k) a = dcss_outcome (H ! k) (dcss_imm_of (H ! k) w)"
      using value_of_flagged True unfolding w_def by blast
    ultimately show ?thesis
      using True same by (auto simp: linear_def w_def [symmetric] Let_def less_Suc_eq split: option.splits)
  next
    case False
    then show ?thesis using same by (simp add: linear_def w_def [symmetric] Let_def)
  qed
next
  case False
  have lt: "last (take (Suc k) H) = H ! k" by (rule last_take) (use k in simp)
  have "installs D (take (Suc k) H) (H ! Suc k) a \<or> removes (take (Suc k) H) (H ! Suc k) a"
    using history_change [OF h k a] False by (simp add: w_def)
  then show ?thesis
  proof
    let ?w = "words (H ! Suc k) a"
    assume ins: "installs D (take (Suc k) H) (H ! Suc k) a"
    then have i: "\<not> flagged w" "flagged ?w" "di_e2 (dcss_imm_of (H ! Suc k) ?w) = w"
      by (simp_all add: installs_def lt w_def)
    have "\<not> d < Suc k" if d: "decision H a ?w = Some d" for d
    proof
      assume "d < Suc k"
      moreover have "words (H ! d) a = ?w" using decision_Some [OF d] by (auto simp: decides_iff)
      moreover have "H ! d \<in> set (take (Suc k) H)" using \<open>d < Suc k\<close> k by (auto simp: in_set_conv_nth intro!: exI [of _ d])
      ultimately show False using ins a unfolding installs_def by metis
    qed
    then have "linear H (Suc k) a = w" using i by (auto simp: linear_def Let_def split: option.splits)
    then show ?thesis using i(1) by (simp add: linear_def w_def [symmetric] Let_def)
  next
    assume "removes (take (Suc k) H) (H ! Suc k) a"
    then obtain d where fl: "flagged w" and d: "d < length (take (Suc k) H)"
      "\<forall>j. d \<le> j \<and> j < length (take (Suc k) H) \<longrightarrow> words (take (Suc k) H ! j) a = w"
      "words (H ! Suc k) a = dcss_value (take (Suc k) H ! d) a"
      unfolding removes_def lt w_def by blast
    have n: "length (take (Suc k) H) = Suc k" using k by simp
    have "decides H a w d"
      unfolding decides_iff using d False k unfolding n by (intro exI [of _ k]) auto
    then obtain e where e: "decision H a w = Some e" using decision_exists by blast
    have wk: "words (H ! k) a = w" by (simp add: w_def)
    note st = decision_stretch [OF ok h a fl e wk k False]
    have unfl: "\<not> flagged (words (H ! Suc k) a)"
      using value_unflagged [OF ok history_nth [OF h] a, of e] st k by simp
    then have after: "linear H (Suc k) a = dcss_value (H ! e) a" using st(3) by (simp add: linear_def Let_def)
    show ?thesis
    proof (cases "e = k")
      case True
      then show ?thesis
        using after fl e value_of_flagged [of "H ! k" a] by (simp add: linear_def w_def [symmetric] Let_def)
    next
      case False
      then show ?thesis using after fl e st(1) by (simp add: linear_def w_def [symmetric] Let_def)
    qed
  qed
qed

section \<open>Operations on the linearized memory\<close>

lemma linear_unflagged: "\<not> flagged (words (H ! k) a) \<Longrightarrow> linear H k a = words (H ! k) a"
  by (simp add: linear_def Let_def)

lemma takes_effect_linear:
  assumes ok: "ops_ok D Ops" and h: "history D Ops H" and v: "di_a2 v \<in> D" "\<not> flagged (di_e2 v)"
    and t: "takes_effect H q v i d k"
  obtains e where "i < e" "e \<le> k" "in_progress H e q v" "decision H (di_a2 v) (words (H ! e) (di_a2 v)) = Some e"
    "linear H e (di_a2 v) = di_e2 v" "linear H (Suc e) (di_a2 v) = dcss_outcome (H ! e) v"
proof -
  let ?a = "di_a2 v"
  obtain w where t1: "i < d" "d \<le> k" "Suc k < length H" "words (H ! i) ?a = di_e2 v" "flagged w" "ptr_pid w = q"
    "\<And>j. i < j \<Longrightarrow> j \<le> k \<Longrightarrow> words (H ! j) ?a = w \<and> dcss_imm_of (H ! j) w = v" "words (H ! Suc k) ?a = dcss_outcome (H ! d) v"
    using t unfolding takes_effect_def by blast
  have val: "dcss_value (H ! j) ?a = dcss_outcome (H ! j) v" if "i < j" "j \<le> k" for j
    using t1(5,7) that by (simp add: dcss_value_def)
  have "\<not> flagged (dcss_value (H ! d) ?a)" by (rule value_unflagged [OF ok history_nth [OF h] v(1)]) (use t1 in simp)
  then have gone: "words (H ! Suc k) ?a \<noteq> w" using t1(1,2,5,8) val [of d] by auto
  have "decides H ?a w d"
    unfolding decides_iff using t1 gone val [of d] by (intro exI [of _ k]) auto
  then obtain e where e: "decision H ?a w = Some e" using decision_exists by blast
  have wk: "words (H ! k) ?a = w" using t1 by auto
  note st = decision_stretch [OF ok h v(1) t1(5) e wk t1(3) gone]
  have ie: "i < e"
  proof (rule ccontr)
    assume "\<not> i < e"
    then have "words (H ! i) ?a = w"
      by (intro one_stretch [OF ok h v(1), of e i k]) (use st wk t1 in auto)
    then show False using t1(4,5) v(2) by simp
  qed
  have at: "words (H ! e) ?a = w" "dcss_imm_of (H ! e) w = v" using t1(7) [OF ie st(1)] by simp_all
  have fl: "flagged (words (H ! e) ?a)" using at(1) t1(5) by simp
  show thesis
  proof (rule that [OF ie st(1)])
    show "in_progress H e q v" using at t1(5,6) by (simp add: in_progress_def)
    show "decision H ?a (words (H ! e) ?a) = Some e" using e at(1) by simp
    show "linear H e ?a = di_e2 v" using e at t1(5) by (simp add: linear_def Let_def)
    show "linear H (Suc e) ?a = dcss_outcome (H ! e) v"
    proof (cases "e = k")
      case True
      have "\<not> flagged (words (H ! Suc k) ?a)"
        using value_unflagged [OF ok history_nth [OF h] v(1), of d] val [OF t1(1,2)] t1(2,3,8) by simp
      then show ?thesis using st(3) val [OF ie st(1)] True by (simp add: linear_unflagged)
    next
      case False
      then have "words (H ! Suc e) ?a = w" using t1(7) [of "Suc e"] ie st(1) by simp
      then show ?thesis using e t1(5) val [OF ie st(1)] by (simp add: linear_def Let_def)
    qed
  qed
qed

lemma takes_effect_take: "takes_effect (take n H) q v i d k \<Longrightarrow> takes_effect H q v i d k \<and> Suc k < n"
  unfolding takes_effect_def by auto

lemma op_done_linear:
  assumes ok: "ops_ok D Ops" and h: "history D Ops H" and op: "op_ok D op" and n: "n' \<le> length H"
    and d: "op_done q n (take n' H) op r"
  shows "op_linear H q n n' op r"
proof (cases op)
  case (Dcss v)
  have v: "di_a2 v \<in> D" "\<not> flagged (di_e2 v)" using op Dcss by (simp_all add: op_ok_def dcss_imm_ok_def)
  show ?thesis
  proof (cases "r = di_e2 v")
    case True
    then obtain i dd k where t: "n \<le> Suc i" "takes_effect (take n' H) q v i dd k"
      using d Dcss by (auto simp: op_done_def)
    note t' = takes_effect_take [OF t(2)]
    obtain e where e: "i < e" "e \<le> k" "in_progress H e q v" "decision H (di_a2 v) (words (H ! e) (di_a2 v)) = Some e"
      "linear H e (di_a2 v) = di_e2 v" "linear H (Suc e) (di_a2 v) = dcss_outcome (H ! e) v"
      using takes_effect_linear [OF ok h v] t' by blast
    then show ?thesis
      using True Dcss t(1) t' unfolding op_linear_def by (intro exI [of _ e]) (simp add: dcss_outcome_def)
  next
    case False
    then obtain k where "n \<le> Suc k" "k < n'" "words (H ! k) (di_a2 v) = r" "\<not> flagged r"
      using d Dcss n by (auto simp: op_done_def)
    then show ?thesis using False Dcss unfolding op_linear_def by (intro exI [of _ k]) (simp add: linear_unflagged)
  qed
next
  case (Dcss_read a)
  then obtain k where "n \<le> Suc k" "k < n'" "words (H ! k) a = r" "\<not> flagged r" using d n by (auto simp: op_done_def)
  then show ?thesis using Dcss_read unfolding op_linear_def by (intro exI [of _ k]) (simp add: linear_unflagged)
qed

lemma ops_done_linear:
  assumes ok: "ops_ok D Ops" and h: "history D Ops H"
  shows "(\<And>op. op \<in> set ops \<Longrightarrow> op_ok D op) \<Longrightarrow> ops_done q n H ops rs \<Longrightarrow> ops_linear H q n ops rs"
proof (induction ops arbitrary: n rs)
  case Nil
  then show ?case by (cases rs) auto
next
  case (Cons op ops)
  then obtain r rs' where rs: "rs = r # rs'" by (cases rs) auto
  then obtain n' where n': "n \<le> n'" "n' \<le> length H" "op_done q n (take n' H) op r" "ops_done q n' H ops rs'"
    using Cons.prems(2) by auto
  have "op_linear H q n n' op r" using op_done_linear [OF ok h _ n'(2,3)] Cons.prems(1) by simp
  moreover have "ops_linear H q n' ops rs'" using Cons.IH [OF _ n'(4)] Cons.prems(1) by simp
  ultimately show ?case using n'(1,2) rs by auto
qed

lemma linear_change:
  assumes ok: "ops_ok D Ops" and h: "history D Ops H" and a: "a \<in> D" and k: "Suc k < length H"
    and c: "linear H (Suc k) a \<noteq> linear H k a"
  obtains p v where "unat p < max_threads" "v \<in> Ops p" "a = di_a2 v" "in_progress H k p v"
    "decision H a (words (H ! k) a) = Some k" "a1_value (H ! k) (di_a1_load v) (di_a1 v) = di_e1 v"
    "linear H k a = di_e2 v" "linear H (Suc k) a = di_n2 v"
proof -
  let ?w = "words (H ! k) a"
  let ?v = "dcss_imm_of (H ! k) ?w"
  have l: "flagged ?w" "decision H a ?w = Some k" "linear H k a = di_e2 ?v" "linear H (Suc k) a = dcss_outcome (H ! k) ?v"
    using linear_next [OF ok h a k] c by auto
  have "genuine D Ops (H ! k)" by (rule history_nth [OF h]) (use k in simp)
  then have g: "unat (ptr_pid ?w) < max_threads" "di_a2 ?v = a" "?v \<in> Ops (ptr_pid ?w)"
    using a l(1) by (auto simp: genuine_def Let_def)
  have e1: "a1_value (H ! k) (di_a1_load ?v) (di_a1 ?v) = di_e1 ?v"
    using c l(3,4) by (auto simp: dcss_outcome_def split: if_splits)
  then have "linear H (Suc k) a = di_n2 ?v" using l(4) by (simp add: dcss_outcome_def)
  then show thesis using that [of "ptr_pid ?w" ?v] g l e1 by (simp add: in_progress_def)
qed

section \<open>Two threads on one word\<close>

text \<open>
  The first thread is stopped after it has installed its pointer, the second reads the word, helps, and returns the
  new value; then the first comes too late with its own help.
\<close>

definition ex_call :: dcss_immutables where
  "ex_call = \<lparr>di_a1 = 8, di_a1_load = Load_default, di_e1 = 0, di_a2 = 16, di_e2 = 0, di_n2 = 7\<rparr>"

definition ex_ops :: "dcss_op list list" where
  "ex_ops = [[Dcss ex_call], [Dcss_read 16]]"

lemma ex_unflagged: "\<not> flagged 0" "\<not> flagged 7"
  by (simp_all add: has_flag_def ptr_extract_def dcss_flag_bit_def layout_defs mask_eq_exp_minus_1)

lemma ex_ops_ok: "length ex_ops \<le> max_threads" "\<forall>ops\<in>set ex_ops. \<forall>op\<in>set ops. op_ok {16} op" "quiet_start {16} ex_ops idle_mem"
  by (auto simp: ex_ops_def max_threads_def op_ok_def ex_call_def dcss_imm_ok_def a1_valid_def ex_unflagged
      quiet_start_def idle_descriptor dcss_seq_def less_Suc_eq)

lemma reaches_return: "run p m = (Inr a, m') \<Longrightarrow> reaches p m (Ret a) m'"
  using reaches_run [of p m a m' Ret] by simp

lemma ex_run:
  "\<exists>ps H. par_run (outside {16}) (clients 2 ex_ops) [idle_mem] ps H \<and> ps ! 0 = Ret [0] \<and> ps ! 1 = Ret [7]"
proof -
  have pid: "unat (0 :: u64) < max_threads" by (simp add: max_threads_def)
  let ?d = "dcss_published idle_mem 0 ex_call" and ?des = "ptr_combine 0 0 (next_seq 0)"
  let ?w = "toggle_flag dcss_flag_bit ?des"
  let ?m1 = "idle_mem\<lparr>dcss_descriptors := (dcss_descriptors idle_mem)(0 := ?d)\<rparr>"
  let ?m2 = "?m1\<lparr>words := (words ?m1)(16 := ?w)\<rparr>"
  let ?m3 = "?m2\<lparr>words := (words ?m2)(16 := 7)\<rparr>"
  let ?rest = "pbind (pbind (dcss_help ?w) (\<lambda>_. Ret 0)) (\<lambda>r. pbind (do_ops 2 0 []) (\<lambda>rs. Ret (r # rs)))"
  have w: "ptr_pid ?w = 0" "ptr_seq ?w = next_seq 0" "flagged ?w" "\<not> flagged ?des" "?w \<noteq> 7" "?w \<noteq> 0"
    using new_pointer_fields [OF pid, of 0] ex_unflagged new_pointer_unflagged(1) [of 0 "next_seq 0"]
    by (auto simp: ptr_extract_toggle) (metis has_flag_toggle(1))+
  have seq: "st_seq (d_state ?d) = next_seq 0" "d_imm ?d = ex_call"
    by (simp_all add: dcss_published_def idle_descriptor st_extract_combine)
  have create: "run (dcss_create_new 0 8 Load_default 0 16 0 7) idle_mem = (Inr ?des, ?m1)"
    using dcss.run_create_new [OF pid]
    by (simp add: dcss_create_new_def ex_unflagged dcss_published_def ex_call_def idle_descriptor)
  have install: "run (dcss_install 2 16 0 ?w) ?m1 = (Inr 0, ?m2)"
    using run_dcss_install_unflagged [of ?m1 16 1 0 ?w] by (simp add: idle_descriptor ex_unflagged numeral_2_eq_2)
  have "reaches (dcss 2 0 8 Load_default 0 16 0 7) idle_mem (pbind (dcss_help ?w) (\<lambda>_. Ret 0)) ?m2"
    unfolding dcss_def
  proof (rule reaches_then [OF create], rule reaches_then [OF run_set_flag [OF w(4)]])
    show "reaches (pbind (dcss_install 2 16 0 ?w) (\<lambda>r. if r = 0 then pbind (dcss_help ?w) (\<lambda>_. Ret r) else Ret r)) ?m1
        (pbind (dcss_help ?w) (\<lambda>_. Ret 0)) ?m2"
      using reaches_run [OF install, where f = "\<lambda>r. if r = 0 then pbind (dcss_help ?w) (\<lambda>_. Ret r) else Ret r"] by simp
  qed
  then have 1: "reaches (do_ops 2 0 [Dcss ex_call]) idle_mem ?rest ?m2"
    using reaches_pbind [of "dcss 2 0 8 Load_default 0 16 0 7" idle_mem "pbind (dcss_help ?w) (\<lambda>_. Ret 0)" ?m2]
    by (simp add: do_op_def ex_call_def)
  have ok2: "dcss_ok ?m2 16" "dcss_value ?m2 16 = 7"
    using pid seq w(1-3)
    by (simp_all add: dcss_ok_def dcss_value_def dcss_outcome_def dcss_imm_ok_def a1_valid_def a1_value_def Let_def
        ex_call_def idle_descriptor ex_unflagged)
  have "run (dcss_read 2 16) ?m2 = (Inr 7, ?m3)"
    using run_dcss_read [of ?m2 16 0] ok2 by (simp add: idle_descriptor numeral_2_eq_2)
  then have 2: "reaches (do_ops 2 1 [Dcss_read 16]) ?m2 (Ret [7]) ?m3"
    by (intro reaches_return) (simp add: do_op_def run_pbind)
  have "run (dcss_help ?w) ?m3 = (Inr (), ?m3)"
    using pid seq w
    by (simp add: dcss_help_def run_pbind run_unset_flag dcss.run_read_immutables ptr_extract_toggle
        run_a1_load_call a1_valid_def a1_value_def ex_call_def cas_word_weak_def idle_descriptor Let_def)
  then have 3: "reaches ?rest ?m3 (Ret [0]) ?m3" by (intro reaches_return) (simp add: run_pbind)
  have c: "clients 2 ex_ops = [do_ops 2 0 [Dcss ex_call], do_ops 2 1 [Dcss_read 16]]" by (simp add: clients_def ex_ops_def)
  obtain H1 where H1: "par_run (outside {16}) (clients 2 ex_ops) [idle_mem] ((clients 2 ex_ops)[0 := ?rest]) H1" "last H1 = ?m2"
    by (rule par_run_reaches [OF par_here, of 0 "clients 2 ex_ops" "[idle_mem]"]) (use 1 c in auto)
  obtain H2 where H2: "par_run (outside {16}) (clients 2 ex_ops) [idle_mem] ((clients 2 ex_ops)[0 := ?rest, 1 := Ret [7]]) H2" "last H2 = ?m3"
    by (rule par_run_reaches [OF H1(1), of 1]) (use 2 H1(2) c in auto)
  obtain H3 where "par_run (outside {16}) (clients 2 ex_ops) [idle_mem] ((clients 2 ex_ops)[0 := ?rest, 1 := Ret [7], 0 := Ret [0]]) H3" "last H3 = ?m3"
    by (rule par_run_reaches [OF H2(1), of 0]) (use 3 H2(2) c in auto)
  then show ?thesis using c by auto
qed

section \<open>Property\<close>

text \<open>
  C2: \<open>dcss\<close> and \<open>dcss_read\<close> are linearizable. Any number of threads, up to the limit of the pool, make any calls on the data
  words \<open>D\<close>, interleaved at every access, while the control words change as they like. No assertion fails. What the
  threads return is explained by one linearized memory: each \<open>dcss\<close> acts there at one moment between its
  call and its return, comparing both words and storing the new value exactly when both are as expected, and
  each read returns the value of one moment of the read; the linearized memory changes only by these calls,
  each of them at most once, and agrees with the real one on every word that holds no pointer.
\<close>

theorem dcss_linearizable:
  assumes "length opss \<le> max_threads" "\<forall>ops\<in>set opss. \<forall>op\<in>set ops. op_ok D op" "quiet_start D opss m"
    and "par_run (outside D) (clients fuel opss) [m] ps H"
  shows "(\<forall>q<length opss. ps ! q \<noteq> Halt Assertion_failed \<and>
       (\<forall>rs. ps ! q = Ret rs \<longrightarrow> ops_linear H (of_nat q) 1 (opss ! q) rs)) \<and>
     (\<forall>k a. Suc k < length H \<longrightarrow> a \<in> D \<longrightarrow> linear H (Suc k) a \<noteq> linear H k a \<longrightarrow>
       (\<exists>q v. q < length opss \<and> Dcss v \<in> set (opss ! q) \<and> a = di_a2 v \<and> in_progress H k (of_nat q) v \<and>
          decision H a (words (H ! k) a) = Some k \<and> a1_value (H ! k) (di_a1_load v) (di_a1 v) = di_e1 v \<and>
          linear H k a = di_e2 v \<and> linear H (Suc k) a = di_n2 v)) \<and>
     (\<forall>k<length H. \<forall>a\<in>D. \<not> flagged (words (H ! k) a) \<longrightarrow> linear H k a = words (H ! k) a)"
proof (intro conjI allI impI ballI)
  note ok = calls_ok [OF assms(2)]
  note h = clients_run(2) [OF assms]
  fix q
  assume q: "q < length opss"
  note t = clients_run(3) [OF assms q]
  show "ps ! q \<noteq> Halt Assertion_failed" using t by auto
  show "ops_linear H (of_nat q) 1 (opss ! q) rs" if "ps ! q = Ret rs" for rs
  proof (rule ops_done_linear [OF ok h])
    show "ops_done (of_nat q) 1 H (opss ! q) rs" using t that by simp
    show "op_ok D op" if "op \<in> set (opss ! q)" for op using assms(2) nth_mem [OF q] that by blast
  qed
next
  note ok = calls_ok [OF assms(2)]
  fix k a
  assume c: "Suc k < length H" "a \<in> D" "linear H (Suc k) a \<noteq> linear H k a"
  obtain p v where pv: "v \<in> calls opss p" "a = di_a2 v" "in_progress H k p v"
    "decision H a (words (H ! k) a) = Some k" "a1_value (H ! k) (di_a1_load v) (di_a1 v) = di_e1 v"
    "linear H k a = di_e2 v" "linear H (Suc k) a = di_n2 v"
    by (rule linear_change [OF ok clients_run(2) [OF assms] c(2,1,3)])
  then show "\<exists>q v. q < length opss \<and> Dcss v \<in> set (opss ! q) \<and> a = di_a2 v \<and> in_progress H k (of_nat q) v \<and>
      decision H a (words (H ! k) a) = Some k \<and> a1_value (H ! k) (di_a1_load v) (di_a1 v) = di_e1 v \<and>
      linear H k a = di_e2 v \<and> linear H (Suc k) a = di_n2 v"
    by (intro exI [of _ "unat p"] exI [of _ v]) (simp add: calls_def)
qed (rule linear_unflagged)

theorem dcss_linearizable_witness:
  "\<exists>ps H. par_run (outside {16}) (clients 2 ex_ops) [idle_mem] ps H \<and> ps ! 0 = Ret [0] \<and> ps ! 1 = Ret [7] \<and>
     ops_linear H 0 1 [Dcss ex_call] [0] \<and> ops_linear H 1 1 [Dcss_read 16] [7]"
proof -
  obtain ps H where r: "par_run (outside {16}) (clients 2 ex_ops) [idle_mem] ps H" "ps ! 0 = Ret [0]" "ps ! 1 = Ret [7]"
    using ex_run by blast
  have "ops_linear H (of_nat q) 1 (ex_ops ! q) rs" if "q < length ex_ops" "ps ! q = Ret rs" for q rs
    using dcss_linearizable [OF ex_ops_ok r(1)] that by blast
  from this [of 0] this [of 1] show ?thesis using r by (auto simp: ex_ops_def)
qed

end
