(* ===== verification/Intrusive_List.thy ===== *)
theory Intrusive_List
  imports Sl_Prelude
begin

text \<open>
  \<^verbatim>\<open>meta::intrusive_list\<close> and \<^verbatim>\<open>meta::intrusive_forward_list\<close> belong to another library. What the
  sources call of them is a record of operations on a list object \<open>'q\<close> and nodes \<open>'n\<close>, an argument
  of every definition that keeps such a list. Its documented behaviour, \<open>ilist_laws\<close>, is a
  hypothesis of the theorems that need it: iteration shows the nodes in order, a push adds at its
  end a node that is not linked yet, a pop removes the first node or returns null, \<open>back\<close> returns
  the last node or null, and \<open>erase\<close> unlinks a node of the list. \<open>list_ops\<close> satisfies the laws and
  serves the examples.
\<close>

record ('q, 'n) ilist_ops =
  il_new :: 'q
  il_items :: "'q \<Rightarrow> 'n list"
  il_push_back :: "'n \<Rightarrow> 'q \<Rightarrow> 'q"
  il_push_front :: "'n \<Rightarrow> 'q \<Rightarrow> 'q"
  il_pop_front :: "'q \<Rightarrow> 'n option \<times> 'q"
  il_back :: "'q \<Rightarrow> 'n option"
  il_erase :: "'n \<Rightarrow> 'q \<Rightarrow> 'q"

definition ilist_laws :: "('q, 'n, 'z) ilist_ops_scheme \<Rightarrow> bool" where
  "ilist_laws L \<longleftrightarrow>
     il_items L (il_new L) = [] \<and>
     (\<forall>n q. n \<notin> set (il_items L q) \<longrightarrow> il_items L (il_push_back L n q) = il_items L q @ [n]) \<and>
     (\<forall>n q. n \<notin> set (il_items L q) \<longrightarrow> il_items L (il_push_front L n q) = n # il_items L q) \<and>
     (\<forall>q. fst (il_pop_front L q) = (case il_items L q of [] \<Rightarrow> None | n # _ \<Rightarrow> Some n)) \<and>
     (\<forall>q. il_items L (snd (il_pop_front L q)) = tl (il_items L q)) \<and>
     (\<forall>q. il_back L q = (if il_items L q = [] then None else Some (last (il_items L q)))) \<and>
     (\<forall>n q. n \<in> set (il_items L q) \<longrightarrow> il_items L (il_erase L n q) = remove1 n (il_items L q))"

lemma ilist_lawsD:
  assumes "ilist_laws L"
  shows "il_items L (il_new L) = []"
    and "n \<notin> set (il_items L q) \<Longrightarrow> il_items L (il_push_back L n q) = il_items L q @ [n]"
    and "n \<notin> set (il_items L q) \<Longrightarrow> il_items L (il_push_front L n q) = n # il_items L q"
    and "il_items L q = [] \<Longrightarrow> fst (il_pop_front L q) = None"
    and "il_items L q = n # ns \<Longrightarrow> fst (il_pop_front L q) = Some n"
    and "il_items L (snd (il_pop_front L q)) = tl (il_items L q)"
    and "il_back L q = (if il_items L q = [] then None else Some (last (il_items L q)))"
    and "n \<in> set (il_items L q) \<Longrightarrow> il_items L (il_erase L n q) = remove1 n (il_items L q)"
  using assms by (simp_all add: ilist_laws_def)

definition list_ops :: "('n list, 'n) ilist_ops" where
  "list_ops = \<lparr>
     il_new = [], il_items = (\<lambda>q. q),
     il_push_back = (\<lambda>n q. q @ [n]), il_push_front = (#),
     il_pop_front = (\<lambda>q. (case q of [] \<Rightarrow> None | n # _ \<Rightarrow> Some n, tl q)),
     il_back = (\<lambda>q. if q = [] then None else Some (last q)), il_erase = remove1\<rparr>"

lemma list_ops_laws: "ilist_laws list_ops"
  by (simp add: ilist_laws_def list_ops_def)

end
