(* ===== verification/Slot_Model.thy ===== *)
theory Slot_Model
  imports Sl_Prelude
begin

text \<open>
  Slots and signals: \<^verbatim>\<open>model/slot.hpp\<close>. A slot is fulfilled by exactly one of three calls,
  \<open>set_value\<close>, \<open>set_error\<close> and \<open>set_null\<close>, the last one being how a cancelled operation answers.
  \<open>fulfill_slot\<close> makes the call that a \<open>meta::maybe<meta::result>\<close> stands for.
\<close>

datatype ('v, 'e) slot_call = Set_value 'v | Set_error 'e | Set_null

definition fulfill_slot :: "('v, 'e) maybe_result \<Rightarrow> ('v, 'e) slot_call" where
  "fulfill_slot maybe_result =
     (case maybe_result of
        None \<Rightarrow> Set_null
      | Some result \<Rightarrow> (case result of Inr v \<Rightarrow> Set_value v | Inl e \<Rightarrow> Set_error e))"

primrec maybe_result_of :: "('v, 'e) slot_call \<Rightarrow> ('v, 'e) maybe_result" where
  "maybe_result_of (Set_value v) = Some (Inr v)"
| "maybe_result_of (Set_error e) = Some (Inl e)"
| "maybe_result_of Set_null = None"

lemma fulfill_slot_inverse [simp]:
  "fulfill_slot (maybe_result_of c) = c" "maybe_result_of (fulfill_slot r) = r"
  by (cases c; simp add: fulfill_slot_def)
    (simp add: fulfill_slot_def split: option.splits sum.splits)

end
