(* ===== verification/Channel.thy ===== *)
theory Channel
  imports Intrusive_List Slot_Model Mw_Kcas
begin

text \<open>
  The rendezvous channel of \<^verbatim>\<open>algo/sync/channel.hpp\<close>. The queues, the closed flag and the nodes'
  bookkeeping are protected by the channel's mutex, so an operation takes them as a value and
  returns them updated, with the callbacks it calls after unlocking, in order. What is shared with
  other channels while the mutex is held are the \<open>done\<close> words of the selects that nodes belong to:
  each operation is a program over these words, whose accesses are the \<open>kcas\<close> of
  \<open>try_fulfill_impl\<close>, taken as the atomic step it implements (\<open>kcas_spec\<close>), and \<open>kcas_read\<close>.
\<close>

section \<open>State\<close>

text \<open>
  The calls on a \<open>channel_slot_callback\<close>. A slot of a select has \<open>get_done\<close> and takes the call that
  skips the check of the select's word; for any other slot it is an ordinary \<open>set_value\<close>.
\<close>

datatype 'v callback_call =
  Call_value 'v | Call_error | Call_null | Call_value_skip_done 'v

definition callback_impl :: "bool \<Rightarrow> 'v callback_call \<Rightarrow> 'v callback_call" where
  "callback_impl slot_has_done c =
     (case c of
        Call_value_skip_done v \<Rightarrow> if slot_has_done then Call_value_skip_done v else Call_value v
      | _ \<Rightarrow> c)"

record channel_node =
  select_done :: "u64 option"
  queued_in :: "nat option"
  requested_cancel :: bool

record 'v send_node = channel_node +
  sn_value :: 'v

type_synonym recv_node = channel_node

definition new_send_node :: "'v \<Rightarrow> u64 option \<Rightarrow> 'v send_node" where
  "new_send_node v d = \<lparr>select_done = d, queued_in = None, requested_cancel = False, sn_value = v\<rparr>"

definition new_recv_node :: "u64 option \<Rightarrow> recv_node" where
  "new_recv_node d = \<lparr>select_done = d, queued_in = None, requested_cancel = False\<rparr>"

text \<open>\<open>this_channel\<close> is the channel's own address, stored in \<open>queued_in\<close>.\<close>

record ('q, 'v) channel =
  this_channel :: nat
  sendq :: 'q
  recvq :: 'q
  is_closed :: bool
  sends :: "nat \<Rightarrow> 'v send_node"
  recvs :: "nat \<Rightarrow> recv_node"

datatype 'v event =
  Send_event nat "unit callback_call"
| Recv_event nat "'v callback_call"
| Close_event "unit callback_call"

type_synonym done_words = "u64 \<Rightarrow> u64"
type_synonym ('q, 'v) channel_prog = "(done_words, ('q, 'v) channel \<times> 'v event list) prog"

abbreviation upd_send :: "nat \<Rightarrow> ('v send_node \<Rightarrow> 'v send_node) \<Rightarrow> ('q, 'v) channel \<Rightarrow> ('q, 'v) channel" where
  "upd_send s f c \<equiv> c\<lparr>sends := (sends c)(s := f (sends c s))\<rparr>"

abbreviation upd_recv :: "nat \<Rightarrow> (recv_node \<Rightarrow> recv_node) \<Rightarrow> ('q, 'v) channel \<Rightarrow> ('q, 'v) channel" where
  "upd_recv r f c \<equiv> c\<lparr>recvs := (recvs c)(r := f (recvs c r))\<rparr>"

section \<open>Fulfilling a pair\<close>

text \<open>\<open>DEBUG_ASSERT\<close>: checked in a debug build, nothing in a release build.\<close>

definition debug_assert :: "bool \<Rightarrow> bool \<Rightarrow> ('m, 'a) prog \<Rightarrow> ('m, 'a) prog" where
  "debug_assert dbg c p = dassert (dbg \<longrightarrow> c) p"

definition claim_done :: "u64 list \<Rightarrow> (done_words, bool) prog" where
  "claim_done as = access (kcas_spec (map (\<lambda>a. \<lparr>ka_a = a, ka_e = 0, ka_n = 1\<rparr>) as))"

definition read_done :: "u64 \<Rightarrow> (done_words, u64) prog" where
  "read_done a = access (\<lambda>w. (w a, w))"

definition is_same_select :: "'v send_node \<Rightarrow> recv_node \<Rightarrow> bool" where
  "is_same_select sn rn \<longleftrightarrow> select_done sn \<noteq> None \<and> select_done sn = select_done rn"

text \<open>\<open>Some\<close> the callbacks made after unlocking, or \<open>None\<close> and the lock is still held.\<close>

definition try_fulfill_impl ::
  "bool \<Rightarrow> ('q, 'v) channel \<Rightarrow> nat \<Rightarrow> nat \<Rightarrow> (done_words, 'v event list option) prog" where
  "try_fulfill_impl dbg c s r =
     (let sn = sends c s; rn = recvs c r; v = sn_value sn in
      case (select_done sn, select_done rn) of
        (Some a, Some b) \<Rightarrow>
          debug_assert dbg (\<not> is_same_select sn rn)
           (pbind (if is_same_select sn rn then Ret False else claim_done [a, b]) (\<lambda>success.
              Ret (if success
                then Some [Recv_event r (Call_value_skip_done v), Send_event s (Call_value_skip_done ())]
                else None)))
      | (Some a, None) \<Rightarrow>
          pbind (claim_done [a]) (\<lambda>success.
            Ret (if success
              then Some [Recv_event r (Call_value v), Send_event s (Call_value_skip_done ())]
              else None))
      | (None, Some b) \<Rightarrow>
          pbind (claim_done [b]) (\<lambda>success.
            Ret (if success
              then Some [Recv_event r (Call_value_skip_done v), Send_event s (Call_value ())]
              else None))
      | (None, None) \<Rightarrow> Ret (Some [Recv_event r (Call_value v), Send_event s (Call_value ())]))"

text \<open>The guard that follows a failed attempt: is the other side's select already done?\<close>

definition select_is_done :: "('z) channel_node_scheme \<Rightarrow> (done_words, bool) prog" where
  "select_is_done n =
     (case select_done n of
        None \<Rightarrow> Ret False
      | Some a \<Rightarrow> pbind (read_done a) (\<lambda>v. Ret (v \<noteq> 0)))"

section \<open>Operations\<close>

definition send_enqueue :: "('q, nat) ilist_ops \<Rightarrow> nat \<Rightarrow> ('q, 'v) channel \<Rightarrow> ('q, 'v) channel" where
  "send_enqueue L s c =
     (upd_send s (queued_in_update (\<lambda>_. Some (this_channel c))) c)\<lparr>sendq := il_push_back L s (sendq c)\<rparr>"

primrec send_loop ::
  "bool \<Rightarrow> ('q, nat) ilist_ops \<Rightarrow> nat \<Rightarrow> nat \<Rightarrow> ('q, 'v) channel \<Rightarrow> ('q, 'v) channel_prog" where
  "send_loop dbg L 0 s c = Halt Out_of_fuel"
| "send_loop dbg L (Suc fuel) s c =
     (let (a_recv_node, q) = il_pop_front L (recvq c); c = c\<lparr>recvq := q\<rparr> in
      case a_recv_node of
        None \<Rightarrow> Ret (send_enqueue L s c, [])
      | Some r \<Rightarrow>
          let c = upd_recv r (queued_in_update (\<lambda>_. None)) c in
          pbind (try_fulfill_impl dbg c s r) (\<lambda>fulfilled.
            case fulfilled of
              Some events \<Rightarrow> Ret (c, events)
            | None \<Rightarrow> pbind (select_is_done (recvs c r)) (\<lambda>recv_done.
                if recv_done
                then send_loop dbg L fuel s (upd_recv r (requested_cancel_update (\<lambda>_. True)) c)
                else Ret (upd_send s (requested_cancel_update (\<lambda>_. True))
                       ((upd_recv r (queued_in_update (\<lambda>_. Some (this_channel c))) c)
                         \<lparr>recvq := il_push_front L r (recvq c)\<rparr>), []))))"

definition send ::
  "bool \<Rightarrow> ('q, nat) ilist_ops \<Rightarrow> nat \<Rightarrow> nat \<Rightarrow> ('q, 'v) channel \<Rightarrow> ('q, 'v) channel_prog" where
  "send dbg L fuel s c =
     (if is_closed c then Ret (c, [Send_event s Call_error])
      else if requested_cancel (sends c s) then Ret (c, [Send_event s Call_null])
      else case il_back L (recvq c) of
        None \<Rightarrow> Ret (send_enqueue L s c, [])
      | Some recv_back \<Rightarrow>
          if is_same_select (sends c s) (recvs c recv_back) then Ret (send_enqueue L s c, [])
          else send_loop dbg L fuel s c)"

definition receive_enqueue ::
  "('q, nat) ilist_ops \<Rightarrow> nat \<Rightarrow> ('q, 'v) channel \<Rightarrow> ('q, 'v) channel \<times> 'v event list" where
  "receive_enqueue L r c =
     (if is_closed c then (c, [Recv_event r Call_error])
      else ((upd_recv r (queued_in_update (\<lambda>_. Some (this_channel c))) c)
              \<lparr>recvq := il_push_back L r (recvq c)\<rparr>, []))"

primrec receive_loop ::
  "bool \<Rightarrow> ('q, nat) ilist_ops \<Rightarrow> nat \<Rightarrow> nat \<Rightarrow> ('q, 'v) channel \<Rightarrow> ('q, 'v) channel_prog" where
  "receive_loop dbg L 0 r c = Halt Out_of_fuel"
| "receive_loop dbg L (Suc fuel) r c =
     (let (a_send_node, q) = il_pop_front L (sendq c); c = c\<lparr>sendq := q\<rparr> in
      case a_send_node of
        None \<Rightarrow> Ret (receive_enqueue L r c)
      | Some s \<Rightarrow>
          let c = upd_send s (queued_in_update (\<lambda>_. None)) c in
          pbind (try_fulfill_impl dbg c s r) (\<lambda>fulfilled.
            case fulfilled of
              Some events \<Rightarrow> Ret (c, events)
            | None \<Rightarrow> pbind (select_is_done (sends c s)) (\<lambda>send_done.
                if send_done
                then receive_loop dbg L fuel r (upd_send s (requested_cancel_update (\<lambda>_. True)) c)
                else Ret (upd_recv r (requested_cancel_update (\<lambda>_. True))
                       ((upd_send s (queued_in_update (\<lambda>_. Some (this_channel c))) c)
                         \<lparr>sendq := il_push_front L s (sendq c)\<rparr>), []))))"

definition receive ::
  "bool \<Rightarrow> ('q, nat) ilist_ops \<Rightarrow> nat \<Rightarrow> nat \<Rightarrow> ('q, 'v) channel \<Rightarrow> ('q, 'v) channel_prog" where
  "receive dbg L fuel r c =
     (if requested_cancel (recvs c r) then Ret (c, [Recv_event r Call_null])
      else case il_back L (sendq c) of
        None \<Rightarrow> Ret (receive_enqueue L r c)
      | Some send_back \<Rightarrow>
          if is_same_select (sends c send_back) (recvs c r) then Ret (receive_enqueue L r c)
          else receive_loop dbg L fuel r c)"

definition close_channel :: "bool \<Rightarrow> ('q, nat) ilist_ops \<Rightarrow> ('q, 'v) channel \<Rightarrow> ('q, 'v) channel_prog" where
  "close_channel dbg L c =
     (let was_closed = is_closed c; c = c\<lparr>is_closed := True\<rparr> in
      if was_closed then Ret (c, [Close_event Call_error])
      else let pending_recvs = il_items L (recvq c);
               c = c\<lparr>recvq := il_new L,
                     recvs := fold (\<lambda>r rs. rs(r := (rs r)\<lparr>queued_in := None\<rparr>)) pending_recvs (recvs c)\<rparr>
           in debug_assert dbg (list_all (\<lambda>r. \<not> requested_cancel (recvs c r)) pending_recvs)
                (Ret (c, map (\<lambda>r. Recv_event r Call_error) pending_recvs @ [Close_event (Call_value ())])))"

text \<open>
  \<open>un_impl\<close>: the queue, the node, and whether \<open>set_null\<close> is called after unlocking.
\<close>

definition un_impl ::
  "bool \<Rightarrow> ('q, nat) ilist_ops \<Rightarrow> nat \<Rightarrow> 'q \<Rightarrow> nat \<Rightarrow> 'z channel_node_scheme \<Rightarrow>
     (done_words, 'q \<times> 'z channel_node_scheme \<times> bool) prog" where
  "un_impl dbg L self q n node =
     (let was_requested = (\<lambda>q node. (q, node\<lparr>requested_cancel := True\<rparr>, requested_cancel node)) in
      if queued_in node \<noteq> None
      then debug_assert dbg (queued_in node = Some self)
            (debug_assert dbg (n \<in> set (il_items L q))
              (Ret (was_requested (il_erase L n q) (node\<lparr>queued_in := None, requested_cancel := True\<rparr>))))
      else Ret (was_requested q node))"

definition unsend :: "bool \<Rightarrow> ('q, nat) ilist_ops \<Rightarrow> nat \<Rightarrow> ('q, 'v) channel \<Rightarrow> ('q, 'v) channel_prog" where
  "unsend dbg L s c =
     pbind (un_impl dbg L (this_channel c) (sendq c) s (sends c s)) (\<lambda>(q, node, null).
       Ret (c\<lparr>sendq := q, sends := (sends c)(s := node)\<rparr>, if null then [Send_event s Call_null] else []))"

definition unreceive :: "bool \<Rightarrow> ('q, nat) ilist_ops \<Rightarrow> nat \<Rightarrow> ('q, 'v) channel \<Rightarrow> ('q, 'v) channel_prog" where
  "unreceive dbg L r c =
     pbind (un_impl dbg L (this_channel c) (recvq c) r (recvs c r)) (\<lambda>(q, node, null).
       Ret (c\<lparr>recvq := q, recvs := (recvs c)(r := node)\<rparr>, if null then [Recv_event r Call_null] else []))"

text \<open>
  The connections of the channel's signals: \<open>emit\<close> and \<open>try_cancel\<close> of a send and of a receive, and
  \<open>emit\<close> of a close, whose cancel handle does nothing.
\<close>

datatype channel_op = Emit_send nat | Emit_receive nat | Emit_close | Try_cancel_send nat | Try_cancel_receive nat

definition channel_exec ::
  "bool \<Rightarrow> ('q, nat) ilist_ops \<Rightarrow> nat \<Rightarrow> channel_op \<Rightarrow> ('q, 'v) channel \<Rightarrow> ('q, 'v) channel_prog" where
  "channel_exec dbg L fuel oper c =
     (case oper of
        Emit_send s \<Rightarrow> send dbg L fuel s c
      | Emit_receive r \<Rightarrow> receive dbg L fuel r c
      | Emit_close \<Rightarrow> close_channel dbg L c
      | Try_cancel_send s \<Rightarrow> unsend dbg L s c
      | Try_cancel_receive r \<Rightarrow> unreceive dbg L r c)"

end
