(* ===== verification/Channel_Steps.thy ===== *)
theory Channel_Steps
  imports Channel
begin

text \<open>
  What one channel operation can do while other channels and selects change the \<open>done\<close> words under
  it. The environment \<open>done_grows\<close> may set any word at any moment but never clears one. The
  relations \<open>send_outcome\<close> and \<open>receive_outcome\<close> list the outcomes over the abstract channel, whose
  queues are lists: the operations are shown to have only these, and to end.
\<close>

section \<open>The environment\<close>

definition done_grows :: "done_words \<Rightarrow> done_words \<Rightarrow> bool" where
  "done_grows w w' \<longleftrightarrow> (\<forall>a. w a \<noteq> 0 \<longrightarrow> w' a \<noteq> 0)"

lemma done_grows_refl [simp]: "done_grows w w"
  by (simp add: done_grows_def)

lemma done_grows_trans: "done_grows w w1 \<Longrightarrow> done_grows w1 w2 \<Longrightarrow> done_grows w w2"
  by (simp add: done_grows_def)

lemma done_grows_reflp: "reflp done_grows"
  by (simp add: reflp_def)

lemma done_growsD: "done_grows w w' \<Longrightarrow> w a \<noteq> 0 \<Longrightarrow> w' a \<noteq> 0" "done_grows w w' \<Longrightarrow> w' a = 0 \<Longrightarrow> w a = 0"
  by (auto simp: done_grows_def)

lemma kcas_spec_done:
  "fst (kcas_spec (map (\<lambda>a. \<lparr>ka_a = a, ka_e = 0, ka_n = 1\<rparr>) as) w) \<longleftrightarrow> (\<forall>a \<in> set as. w a = 0)"
  "snd (kcas_spec (map (\<lambda>a. \<lparr>ka_a = a, ka_e = 0, ka_n = 1\<rparr>) as) w) =
     (if \<forall>a \<in> set as. w a = 0 then \<lambda>x. if x \<in> set as then 1 else w x else w)"
proof -
  have "fold (\<lambda>arg w. w(ka_a arg := ka_n arg)) (map (\<lambda>a. \<lparr>ka_a = a, ka_e = 0, ka_n = 1\<rparr>) as) w =
      (\<lambda>x. if x \<in> set as then 1 else w x)"
    by (induction as arbitrary: w) (auto simp: fun_eq_iff)
  then show "fst (kcas_spec (map (\<lambda>a. \<lparr>ka_a = a, ka_e = 0, ka_n = 1\<rparr>) as) w) \<longleftrightarrow> (\<forall>a \<in> set as. w a = 0)"
    "snd (kcas_spec (map (\<lambda>a. \<lparr>ka_a = a, ka_e = 0, ka_n = 1\<rparr>) as) w) =
     (if \<forall>a \<in> set as. w a = 0 then \<lambda>x. if x \<in> set as then 1 else w x else w)"
    by (auto simp: kcas_spec_def list_all_iff)
qed

text \<open>A claim succeeds exactly when it takes every word from 0 to 1; it fails when one was taken.\<close>

lemma rely_claim_done:
  assumes "run_rely done_grows (pbind (claim_done as) k) w r w'"
  obtains w1 where "run_rely done_grows (k True) w1 r w'" "\<forall>a \<in> set as. w a = 0 \<and> w1 a \<noteq> 0" "done_grows w w1"
    | w1 where "run_rely done_grows (k False) w1 r w'" "\<exists>a \<in> set as. w1 a \<noteq> 0" "done_grows w w1"
proof -
  obtain w0 where w0: "done_grows w w0"
    "run_rely done_grows (k (\<forall>a \<in> set as. w0 a = 0))
       (if \<forall>a \<in> set as. w0 a = 0 then \<lambda>x. if x \<in> set as then 1 else w0 x else w0) r w'"
    using assms by (auto simp: claim_done_def access_def rely_Step_iff kcas_spec_done)
  show thesis
  proof (cases "\<forall>a \<in> set as. w0 a = 0")
    case True
    show ?thesis
      by (rule that(1) [of "\<lambda>x. if x \<in> set as then 1 else w0 x"])
        (use w0 True in \<open>auto simp: done_grows_def\<close>)
  next
    case False
    then have ne: "(\<forall>a \<in> set as. w0 a = 0) = False" "\<exists>a \<in> set as. w0 a \<noteq> 0" by blast+
    have "run_rely done_grows (k False) w0 r w'" using w0(2) by (simp only: ne(1) if_False)
    then show ?thesis using ne(2) w0(1) by (rule that(2))
  qed
qed

lemma rely_read_done:
  assumes "run_rely done_grows (pbind (read_done a) k) w r w'"
  obtains w1 where "run_rely done_grows (k (w1 a)) w1 r w'" "done_grows w w1"
  using assms by (auto simp: read_done_def access_def rely_Step_iff)

section \<open>One attempt to fulfill a pair\<close>

lemma is_same_select_frame [simp]:
  "is_same_select sn (rn\<lparr>queued_in := x\<rparr>) = is_same_select sn rn"
  "is_same_select sn (rn\<lparr>requested_cancel := b\<rparr>) = is_same_select sn rn"
  "is_same_select (sn\<lparr>queued_in := x\<rparr>) rn = is_same_select sn rn"
  "is_same_select (sn\<lparr>requested_cancel := b\<rparr>) rn = is_same_select sn rn"
  by (simp_all add: is_same_select_def)

definition selects_of :: "'v send_node \<Rightarrow> recv_node \<Rightarrow> u64 set" where
  "selects_of sn rn = set_option (select_done sn) \<union> set_option (select_done rn)"

definition value_call :: "'z channel_node_scheme \<Rightarrow> 'v \<Rightarrow> 'v callback_call" where
  "value_call n v = (if select_done n = None then Call_value v else Call_value_skip_done v)"

definition fulfill_events :: "('q, 'v) channel \<Rightarrow> nat \<Rightarrow> nat \<Rightarrow> 'v event list" where
  "fulfill_events c s r =
     [Recv_event r (value_call (recvs c r) (sn_value (sends c s))), Send_event s (value_call (sends c s) ())]"

lemma rely_try_fulfill:
  assumes "run_rely done_grows (pbind (try_fulfill_impl dbg c s r) k) w res w'"
  obtains w1 where "run_rely done_grows (k (Some (fulfill_events c s r))) w1 res w'" "done_grows w w1"
      "\<forall>a \<in> selects_of (sends c s) (recvs c r). w a = 0 \<and> w1 a \<noteq> 0"
      "\<not> is_same_select (sends c s) (recvs c r)"
    | w1 where "run_rely done_grows (k None) w1 res w'" "done_grows w w1"
      "is_same_select (sends c s) (recvs c r) \<and> \<not> dbg \<or> (\<exists>a \<in> selects_of (sends c s) (recvs c r). w1 a \<noteq> 0)"
    | "res = Inl Assertion_failed" "dbg" "is_same_select (sends c s) (recvs c r)" "done_grows w w'"
proof -
  note defs = try_fulfill_impl_def Let_def debug_assert_def selects_of_def value_call_def fulfill_events_def
    is_same_select_def pbind_assoc
  show thesis
  proof (cases "select_done (sends c s)"; cases "select_done (recvs c r)")
    fix a b assume sel: "select_done (sends c s) = Some a" "select_done (recvs c r) = Some b"
    show thesis
    proof (cases "a = b")
      case True
      then show ?thesis using assms sel that(2) [of w] that(3)
        by (cases dbg) (auto simp: defs)
    next
      case False
      then have "run_rely done_grows (pbind (claim_done [a, b]) (\<lambda>success. k (if success
          then Some (fulfill_events c s r) else None))) w res w'"
        using assms sel by (simp add: defs cong: if_cong)
      then show ?thesis
        by (elim rely_claim_done) (use that(1,2) sel False in \<open>auto simp: defs\<close>)
    qed
  next
    fix a assume sel: "select_done (sends c s) = Some a" "select_done (recvs c r) = None"
    then have "run_rely done_grows (pbind (claim_done [a]) (\<lambda>success. k (if success
        then Some (fulfill_events c s r) else None))) w res w'"
      using assms by (simp add: defs cong: if_cong)
    then show ?thesis
      by (elim rely_claim_done) (use that(1,2) sel in \<open>auto simp: defs\<close>)
  next
    fix b assume sel: "select_done (sends c s) = None" "select_done (recvs c r) = Some b"
    then have "run_rely done_grows (pbind (claim_done [b]) (\<lambda>success. k (if success
        then Some (fulfill_events c s r) else None))) w res w'"
      using assms by (simp add: defs cong: if_cong)
    then show ?thesis
      by (elim rely_claim_done) (use that(1,2) sel in \<open>auto simp: defs\<close>)
  next
    assume sel: "select_done (sends c s) = None" "select_done (recvs c r) = None"
    then show thesis using assms that(1) [of w] by (simp add: defs)
  qed
qed

lemma rely_select_is_done:
  assumes "run_rely done_grows (pbind (select_is_done n) k) w res w'"
  obtains w1 a where "run_rely done_grows (k True) w1 res w'" "done_grows w w1" "select_done n = Some a" "w1 a \<noteq> 0"
    | w1 where "run_rely done_grows (k False) w1 res w'" "done_grows w w1"
      "\<forall>a. select_done n = Some a \<longrightarrow> w1 a = 0"
proof (cases "select_done n")
  case None
  then show thesis using assms that(2) [of w] by (simp add: select_is_done_def)
next
  case (Some a)
  then have "run_rely done_grows (pbind (read_done a) (\<lambda>v. k (v \<noteq> 0))) w res w'"
    using assms by (simp add: select_is_done_def pbind_assoc)
  then show thesis
  proof (rule rely_read_done)
    fix w1 assume "run_rely done_grows (k (w1 a \<noteq> 0)) w1 res w'" "done_grows w w1"
    then show thesis using that Some by (cases "w1 a = 0") auto
  qed
qed

section \<open>Outcomes over lists\<close>

definition abs_channel :: "('q, nat) ilist_ops \<Rightarrow> ('q, 'v) channel \<Rightarrow> (nat list, 'v) channel" where
  "abs_channel L c = \<lparr>this_channel = this_channel c, sendq = il_items L (sendq c),
     recvq = il_items L (recvq c), is_closed = is_closed c, sends = sends c, recvs = recvs c\<rparr>"

lemma abs_channel_simps [simp]:
  "this_channel (abs_channel L c) = this_channel c" "sendq (abs_channel L c) = il_items L (sendq c)"
  "recvq (abs_channel L c) = il_items L (recvq c)" "is_closed (abs_channel L c) = is_closed c"
  "sends (abs_channel L c) = sends c" "recvs (abs_channel L c) = recvs c"
  by (simp_all add: abs_channel_def)

lemma abs_channel_upd:
  "abs_channel L (c\<lparr>sendq := q\<rparr>) = (abs_channel L c)\<lparr>sendq := il_items L q\<rparr>"
  "abs_channel L (c\<lparr>recvq := q\<rparr>) = (abs_channel L c)\<lparr>recvq := il_items L q\<rparr>"
  "abs_channel L (c\<lparr>sends := ss\<rparr>) = (abs_channel L c)\<lparr>sends := ss\<rparr>"
  "abs_channel L (c\<lparr>recvs := rs\<rparr>) = (abs_channel L c)\<lparr>recvs := rs\<rparr>"
  "abs_channel L (c\<lparr>is_closed := b\<rparr>) = (abs_channel L c)\<lparr>is_closed := b\<rparr>"
  by (simp_all add: abs_channel_def)

abbreviation enq_send :: "nat \<Rightarrow> (nat list, 'v) channel \<Rightarrow> (nat list, 'v) channel" where
  "enq_send s c \<equiv> (upd_send s (queued_in_update (\<lambda>_. Some (this_channel c))) c)\<lparr>sendq := sendq c @ [s]\<rparr>"

abbreviation enq_recv :: "nat \<Rightarrow> (nat list, 'v) channel \<Rightarrow> (nat list, 'v) channel" where
  "enq_recv r c \<equiv> (upd_recv r (queued_in_update (\<lambda>_. Some (this_channel c))) c)\<lparr>recvq := recvq c @ [r]\<rparr>"

definition marked :: "'z channel_node_scheme \<Rightarrow> 'z channel_node_scheme" where
  "marked n = n\<lparr>queued_in := None, requested_cancel := True\<rparr>"

definition claims_words :: "done_words \<Rightarrow> done_words \<Rightarrow> (nat list, 'v) channel \<Rightarrow> nat \<Rightarrow> nat \<Rightarrow> bool" where
  "claims_words w w' c s r \<longleftrightarrow>
     (\<forall>a \<in> selects_of (sends c s) (recvs c r). w a = 0 \<and> w' a \<noteq> 0) \<and>
     \<not> is_same_select (sends c s) (recvs c r)"

text \<open>
  A send goes through the waiting receivers from the front: it ends by matching one, by finding
  none left, or by giving up because its own select is done; a receiver whose select is done is
  marked for cancellation and passed over.
\<close>

inductive send_loop_outcome ::
  "bool \<Rightarrow> nat \<Rightarrow> done_words \<Rightarrow> (nat list, 'v) channel \<Rightarrow> done_words \<Rightarrow> (nat list, 'v) channel \<Rightarrow>
     'v event list \<Rightarrow> bool"
  for dbg s where
  slo_empty: "recvq c = [] \<Longrightarrow> done_grows w w' \<Longrightarrow> send_loop_outcome dbg s w c w' (enq_send s c) []"
| slo_match: "recvq c = r # rs \<Longrightarrow> done_grows w w' \<Longrightarrow> claims_words w w' c s r \<Longrightarrow>
    send_loop_outcome dbg s w c w'
      ((upd_recv r (queued_in_update (\<lambda>_. None)) c)\<lparr>recvq := rs\<rparr>) (fulfill_events c s r)"
| slo_skip: "recvq c = r # rs \<Longrightarrow> done_grows w w1 \<Longrightarrow> select_done (recvs c r) = Some a \<Longrightarrow> w1 a \<noteq> 0 \<Longrightarrow>
    send_loop_outcome dbg s w1 ((upd_recv r marked c)\<lparr>recvq := rs\<rparr>) w' c' evs \<Longrightarrow>
    send_loop_outcome dbg s w c w' c' evs"
| slo_give_up: "recvq c = r # rs \<Longrightarrow> done_grows w w' \<Longrightarrow>
    is_same_select (sends c s) (recvs c r) \<and> \<not> dbg \<or> (\<exists>a. select_done (sends c s) = Some a \<and> w' a \<noteq> 0) \<Longrightarrow>
    send_loop_outcome dbg s w c w'
      (upd_recv r (queued_in_update (\<lambda>_. Some (this_channel c)))
        (upd_send s (requested_cancel_update (\<lambda>_. True)) c)) []"

inductive receive_loop_outcome ::
  "bool \<Rightarrow> nat \<Rightarrow> done_words \<Rightarrow> (nat list, 'v) channel \<Rightarrow> done_words \<Rightarrow> (nat list, 'v) channel \<Rightarrow>
     'v event list \<Rightarrow> bool"
  for dbg r where
  rlo_empty: "sendq c = [] \<Longrightarrow> done_grows w w' \<Longrightarrow> \<not> is_closed c \<Longrightarrow>
    receive_loop_outcome dbg r w c w' (enq_recv r c) []"
| rlo_closed: "sendq c = [] \<Longrightarrow> done_grows w w' \<Longrightarrow> is_closed c \<Longrightarrow>
    receive_loop_outcome dbg r w c w' c [Recv_event r Call_error]"
| rlo_match: "sendq c = s # ss \<Longrightarrow> done_grows w w' \<Longrightarrow> claims_words w w' c s r \<Longrightarrow>
    receive_loop_outcome dbg r w c w'
      ((upd_send s (queued_in_update (\<lambda>_. None)) c)\<lparr>sendq := ss\<rparr>) (fulfill_events c s r)"
| rlo_skip: "sendq c = s # ss \<Longrightarrow> done_grows w w1 \<Longrightarrow> select_done (sends c s) = Some a \<Longrightarrow> w1 a \<noteq> 0 \<Longrightarrow>
    receive_loop_outcome dbg r w1 ((upd_send s marked c)\<lparr>sendq := ss\<rparr>) w' c' evs \<Longrightarrow>
    receive_loop_outcome dbg r w c w' c' evs"
| rlo_give_up: "sendq c = s # ss \<Longrightarrow> done_grows w w' \<Longrightarrow>
    is_same_select (sends c s) (recvs c r) \<and> \<not> dbg \<or> (\<exists>a. select_done (recvs c r) = Some a \<and> w' a \<noteq> 0) \<Longrightarrow>
    receive_loop_outcome dbg r w c w'
      (upd_send s (queued_in_update (\<lambda>_. Some (this_channel c)))
        (upd_recv r (requested_cancel_update (\<lambda>_. True)) c)) []"

section \<open>The loops have these outcomes\<close>

lemma send_loop_Some:
  "fst (il_pop_front L (recvq c)) = Some r \<Longrightarrow> send_loop dbg L (Suc fuel) s c =
     (let c1 = upd_recv r (queued_in_update (\<lambda>_. None)) (c\<lparr>recvq := snd (il_pop_front L (recvq c))\<rparr>)
      in pbind (try_fulfill_impl dbg c1 s r) (\<lambda>fulfilled.
        case fulfilled of
          Some events \<Rightarrow> Ret (c1, events)
        | None \<Rightarrow> pbind (select_is_done (recvs c1 r)) (\<lambda>recv_done.
            if recv_done
            then send_loop dbg L fuel s (upd_recv r (requested_cancel_update (\<lambda>_. True)) c1)
            else Ret (upd_send s (requested_cancel_update (\<lambda>_. True))
                   ((upd_recv r (queued_in_update (\<lambda>_. Some (this_channel c1))) c1)
                     \<lparr>recvq := il_push_front L r (recvq c1)\<rparr>), []))))"
  by (simp only: send_loop.simps split_beta Let_def option.case)

lemma send_loop_outcomes:
  assumes L: "ilist_laws L" and run: "run_rely done_grows (send_loop dbg L fuel s c) w (Inr (c', evs)) w'"
    and "distinct (il_items L (recvq c))" "s \<notin> set (il_items L (sendq c))"
  shows "send_loop_outcome dbg s w (abs_channel L c) w' (abs_channel L c') evs"
  using assms(2-)
proof (induction fuel arbitrary: w c)
  case (Suc fuel)
  note laws = ilist_lawsD [OF L]
  show ?case
  proof (cases "il_items L (recvq c)")
    case Nil
    then have "fst (il_pop_front L (recvq c)) = None" "il_items L (snd (il_pop_front L (recvq c))) = []"
      using laws(4,6) by simp_all
    then have c': "c' = send_enqueue L s (c\<lparr>recvq := snd (il_pop_front L (recvq c))\<rparr>)" "evs = []" "done_grows w w'"
      "il_items L (snd (il_pop_front L (recvq c))) = []"
      using Suc.prems(1) by (auto simp: split_beta)
    then have "abs_channel L c' = enq_send s (abs_channel L c)"
      using Suc.prems(3) Nil laws(2) by (simp add: abs_channel_def send_enqueue_def)
    then show ?thesis using slo_empty [of "abs_channel L c" w w' dbg s] Nil c' by simp
  next
    case (Cons r rs)
    let ?c1 = "(upd_recv r (queued_in_update (\<lambda>_. None)) (c\<lparr>recvq := snd (il_pop_front L (recvq c))\<rparr>))"
    have pop: "fst (il_pop_front L (recvq c)) = Some r" "il_items L (snd (il_pop_front L (recvq c))) = rs"
      using laws(5,6) Cons by simp_all
    have q: "recvq (abs_channel L c) = r # rs" using Cons by simp
    have "run_rely done_grows (pbind (try_fulfill_impl dbg ?c1 s r) (\<lambda>fulfilled.
        case fulfilled of
          Some events \<Rightarrow> Ret (?c1, events)
        | None \<Rightarrow> pbind (select_is_done (recvs ?c1 r)) (\<lambda>recv_done.
            if recv_done
            then send_loop dbg L fuel s (upd_recv r (requested_cancel_update (\<lambda>_. True)) ?c1)
            else Ret (upd_send s (requested_cancel_update (\<lambda>_. True))
                   ((upd_recv r (queued_in_update (\<lambda>_. Some (this_channel ?c1))) ?c1)
                     \<lparr>recvq := il_push_front L r (recvq ?c1)\<rparr>), [])))) w (Inr (c', evs)) w'"
      using Suc.prems(1) unfolding send_loop_Some [OF pop(1)] Let_def .
    then show ?thesis
    proof (rule rely_try_fulfill)
      fix w1
      assume "run_rely done_grows (case Some (fulfill_events ?c1 s r) of Some events \<Rightarrow> Ret (?c1, events)
          | None \<Rightarrow> pbind (select_is_done (recvs ?c1 r)) (\<lambda>recv_done.
            if recv_done
            then send_loop dbg L fuel s (upd_recv r (requested_cancel_update (\<lambda>_. True)) ?c1)
            else Ret (upd_send s (requested_cancel_update (\<lambda>_. True))
                   ((upd_recv r (queued_in_update (\<lambda>_. Some (this_channel ?c1))) ?c1)
                     \<lparr>recvq := il_push_front L r (recvq ?c1)\<rparr>), []))) w1 (Inr (c', evs)) w'"
        and w1: "done_grows w w1"
        and "\<forall>a \<in> selects_of (sends ?c1 s) (recvs ?c1 r). w a = 0 \<and> w1 a \<noteq> 0"
        and "\<not> is_same_select (sends ?c1 s) (recvs ?c1 r)"
      then have "claims_words w w' (abs_channel L c) s r" "c' = ?c1" "evs = fulfill_events c s r" "done_grows w w'"
        by (auto simp: claims_words_def selects_of_def is_same_select_def fulfill_events_def value_call_def
            dest: done_growsD done_grows_trans)
      then show ?thesis
        using slo_match [OF q, of w w' s dbg] pop(2)
        by (simp add: abs_channel_def fulfill_events_def)
    next
      fix w1
      assume fail: "run_rely done_grows (case None of Some events \<Rightarrow> Ret (?c1, events) | None \<Rightarrow>
          pbind (select_is_done (recvs ?c1 r)) (\<lambda>recv_done.
            if recv_done
            then send_loop dbg L fuel s (upd_recv r (requested_cancel_update (\<lambda>_. True)) ?c1)
            else Ret (upd_send s (requested_cancel_update (\<lambda>_. True))
                   ((upd_recv r (queued_in_update (\<lambda>_. Some (this_channel ?c1))) ?c1)
                     \<lparr>recvq := il_push_front L r (recvq ?c1)\<rparr>), []))) w1 (Inr (c', evs)) w'"
        and w1: "done_grows w w1"
        and why: "is_same_select (sends ?c1 s) (recvs ?c1 r) \<and> \<not> dbg \<or>
          (\<exists>a \<in> selects_of (sends ?c1 s) (recvs ?c1 r). w1 a \<noteq> 0)"
      consider (again) w2 a where "run_rely done_grows
            (send_loop dbg L fuel s (upd_recv r (requested_cancel_update (\<lambda>_. True)) ?c1)) w2 (Inr (c', evs)) w'"
          "done_grows w1 w2" "select_done (recvs c r) = Some a" "w2 a \<noteq> 0"
        | (stop) w2 where "c' = upd_send s (requested_cancel_update (\<lambda>_. True))
             ((upd_recv r (queued_in_update (\<lambda>_. Some (this_channel ?c1))) ?c1)
               \<lparr>recvq := il_push_front L r (recvq ?c1)\<rparr>)" "evs = []" "done_grows w2 w'"
          "done_grows w1 w2" "\<forall>a. select_done (recvs c r) = Some a \<longrightarrow> w2 a = 0"
        using fail by (auto elim!: rely_select_is_done)
      then show ?thesis
      proof cases
        case again
        from Suc.IH [OF again(1)] Suc.prems Cons pop(2)
        have "send_loop_outcome dbg s w2 ((upd_recv r marked (abs_channel L c))\<lparr>recvq := rs\<rparr>) w' (abs_channel L c') evs"
          by (simp add: abs_channel_def marked_def)
        from slo_skip [OF q done_grows_trans [OF w1 again(2)] _ again(4) this] again(3) show ?thesis by simp
      next
        case stop
        have "is_same_select (sends c s) (recvs c r) \<and> \<not> dbg \<or> (\<exists>a. select_done (sends c s) = Some a \<and> w' a \<noteq> 0)"
          using why stop(3,4,5) by (auto simp: selects_of_def is_same_select_def dest: done_growsD)
        moreover have "r \<notin> set rs" using Suc.prems(2) Cons by simp
        then have "abs_channel L c' = upd_recv r (queued_in_update (\<lambda>_. Some (this_channel c)))
            (upd_send s (requested_cancel_update (\<lambda>_. True)) (abs_channel L c))"
          using stop(1) pop(2) laws(3) Cons by (simp add: abs_channel_def)
        ultimately show ?thesis
          using slo_give_up [OF q, of w w' s dbg] done_grows_trans [OF done_grows_trans [OF w1 stop(4)] stop(3)] stop(2)
          by simp
      qed
    qed simp
  qed
qed simp

text \<open>Enough fuel is one more than the waiting receivers: each round takes one.\<close>

lemma send_loop_faults:
  assumes L: "ilist_laws L" and "run_rely done_grows (send_loop dbg L fuel s c) w (Inl x) w'"
    and "length (il_items L (recvq c)) < fuel"
  shows "x = Assertion_failed \<and> dbg \<and>
     (\<exists>r \<in> set (il_items L (recvq c)). is_same_select (sends c s) (recvs c r))"
  using assms(2-)
proof (induction fuel arbitrary: w c)
  case (Suc fuel)
  note laws = ilist_lawsD [OF L]
  show ?case
  proof (cases "il_items L (recvq c)")
    case Nil
    then show ?thesis using Suc.prems laws(4) by (simp add: split_beta)
  next
    case (Cons r rs)
    let ?c1 = "(upd_recv r (queued_in_update (\<lambda>_. None)) (c\<lparr>recvq := snd (il_pop_front L (recvq c))\<rparr>))"
    have pop: "fst (il_pop_front L (recvq c)) = Some r" "il_items L (snd (il_pop_front L (recvq c))) = rs"
      using laws(5,6) Cons by simp_all
    have "run_rely done_grows (pbind (try_fulfill_impl dbg ?c1 s r) (\<lambda>fulfilled.
        case fulfilled of
          Some events \<Rightarrow> Ret (?c1, events)
        | None \<Rightarrow> pbind (select_is_done (recvs ?c1 r)) (\<lambda>recv_done.
            if recv_done
            then send_loop dbg L fuel s (upd_recv r (requested_cancel_update (\<lambda>_. True)) ?c1)
            else Ret (upd_send s (requested_cancel_update (\<lambda>_. True))
                   ((upd_recv r (queued_in_update (\<lambda>_. Some (this_channel ?c1))) ?c1)
                     \<lparr>recvq := il_push_front L r (recvq ?c1)\<rparr>), [])))) w (Inl x) w'"
      using Suc.prems(1) unfolding send_loop_Some [OF pop(1)] Let_def .
    then show ?thesis
    proof (rule rely_try_fulfill)
      fix w1
      assume "run_rely done_grows (case None of Some events \<Rightarrow> Ret (?c1, events) | None \<Rightarrow>
          pbind (select_is_done (recvs ?c1 r)) (\<lambda>recv_done.
            if recv_done
            then send_loop dbg L fuel s (upd_recv r (requested_cancel_update (\<lambda>_. True)) ?c1)
            else Ret (upd_send s (requested_cancel_update (\<lambda>_. True))
                   ((upd_recv r (queued_in_update (\<lambda>_. Some (this_channel ?c1))) ?c1)
                     \<lparr>recvq := il_push_front L r (recvq ?c1)\<rparr>), []))) w1 (Inl x) w'"
      then obtain w2 where "run_rely done_grows
          (send_loop dbg L fuel s (upd_recv r (requested_cancel_update (\<lambda>_. True)) ?c1)) w2 (Inl x) w'"
        by (auto elim!: rely_select_is_done)
      from Suc.IH [OF this] show ?thesis using Suc.prems(2) Cons pop(2)
        by (auto split: if_splits)
    qed (use Cons in auto)
  qed
qed simp

lemma receive_loop_Some:
  "fst (il_pop_front L (sendq c)) = Some s \<Longrightarrow> receive_loop dbg L (Suc fuel) r c =
     (let c1 = upd_send s (queued_in_update (\<lambda>_. None)) (c\<lparr>sendq := snd (il_pop_front L (sendq c))\<rparr>)
      in pbind (try_fulfill_impl dbg c1 s r) (\<lambda>fulfilled.
        case fulfilled of
          Some events \<Rightarrow> Ret (c1, events)
        | None \<Rightarrow> pbind (select_is_done (sends c1 s)) (\<lambda>send_done.
            if send_done
            then receive_loop dbg L fuel r (upd_send s (requested_cancel_update (\<lambda>_. True)) c1)
            else Ret (upd_recv r (requested_cancel_update (\<lambda>_. True))
                   ((upd_send s (queued_in_update (\<lambda>_. Some (this_channel c1))) c1)
                     \<lparr>sendq := il_push_front L s (sendq c1)\<rparr>), []))))"
  by (simp only: receive_loop.simps split_beta Let_def option.case)

lemma receive_loop_outcomes:
  assumes L: "ilist_laws L" and run: "run_rely done_grows (receive_loop dbg L fuel r c) w (Inr (c', evs)) w'"
    and "distinct (il_items L (sendq c))" "r \<notin> set (il_items L (recvq c))"
  shows "receive_loop_outcome dbg r w (abs_channel L c) w' (abs_channel L c') evs"
  using assms(2-)
proof (induction fuel arbitrary: w c)
  case (Suc fuel)
  note laws = ilist_lawsD [OF L]
  show ?case
  proof (cases "il_items L (sendq c)")
    case Nil
    then have "fst (il_pop_front L (sendq c)) = None" "il_items L (snd (il_pop_front L (sendq c))) = []"
      using laws(4,6) by simp_all
    then have c': "(c', evs) = receive_enqueue L r (c\<lparr>sendq := snd (il_pop_front L (sendq c))\<rparr>)" "done_grows w w'"
      "il_items L (snd (il_pop_front L (sendq c))) = []"
      using Suc.prems(1) by (auto simp: split_beta)
    show ?thesis
    proof (cases "is_closed c")
      case True
      then have "abs_channel L c' = abs_channel L c" "evs = [Recv_event r Call_error]"
        using c' Nil by (simp_all add: receive_enqueue_def abs_channel_def)
      then show ?thesis using rlo_closed [of "abs_channel L c" w w' dbg r] Nil c' True by simp
    next
      case False
      then have "abs_channel L c' = enq_recv r (abs_channel L c)" "evs = []"
        using c' Suc.prems(3) Nil laws(2) by (simp_all add: abs_channel_def receive_enqueue_def)
      then show ?thesis using rlo_empty [of "abs_channel L c" w w' dbg r] Nil c' False by simp
    qed
  next
    case (Cons s ss)
    let ?c1 = "(upd_send s (queued_in_update (\<lambda>_. None)) (c\<lparr>sendq := snd (il_pop_front L (sendq c))\<rparr>))"
    have pop: "fst (il_pop_front L (sendq c)) = Some s" "il_items L (snd (il_pop_front L (sendq c))) = ss"
      using laws(5,6) Cons by simp_all
    have q: "sendq (abs_channel L c) = s # ss" using Cons by simp
    have "run_rely done_grows (pbind (try_fulfill_impl dbg ?c1 s r) (\<lambda>fulfilled.
        case fulfilled of
          Some events \<Rightarrow> Ret (?c1, events)
        | None \<Rightarrow> pbind (select_is_done (sends ?c1 s)) (\<lambda>send_done.
            if send_done
            then receive_loop dbg L fuel r (upd_send s (requested_cancel_update (\<lambda>_. True)) ?c1)
            else Ret (upd_recv r (requested_cancel_update (\<lambda>_. True))
                   ((upd_send s (queued_in_update (\<lambda>_. Some (this_channel ?c1))) ?c1)
                     \<lparr>sendq := il_push_front L s (sendq ?c1)\<rparr>), [])))) w (Inr (c', evs)) w'"
      using Suc.prems(1) unfolding receive_loop_Some [OF pop(1)] Let_def .
    then show ?thesis
    proof (rule rely_try_fulfill)
      fix w1
      assume "run_rely done_grows (case Some (fulfill_events ?c1 s r) of Some events \<Rightarrow> Ret (?c1, events)
          | None \<Rightarrow> pbind (select_is_done (sends ?c1 s)) (\<lambda>send_done.
            if send_done
            then receive_loop dbg L fuel r (upd_send s (requested_cancel_update (\<lambda>_. True)) ?c1)
            else Ret (upd_recv r (requested_cancel_update (\<lambda>_. True))
                   ((upd_send s (queued_in_update (\<lambda>_. Some (this_channel ?c1))) ?c1)
                     \<lparr>sendq := il_push_front L s (sendq ?c1)\<rparr>), []))) w1 (Inr (c', evs)) w'"
        and w1: "done_grows w w1"
        and "\<forall>a \<in> selects_of (sends ?c1 s) (recvs ?c1 r). w a = 0 \<and> w1 a \<noteq> 0"
        and "\<not> is_same_select (sends ?c1 s) (recvs ?c1 r)"
      then have "claims_words w w' (abs_channel L c) s r" "c' = ?c1" "evs = fulfill_events c s r" "done_grows w w'"
        by (auto simp: claims_words_def selects_of_def is_same_select_def fulfill_events_def value_call_def
            dest: done_growsD done_grows_trans)
      then show ?thesis
        using rlo_match [OF q, of w w' r dbg] pop(2)
        by (simp add: abs_channel_def fulfill_events_def)
    next
      fix w1
      assume fail: "run_rely done_grows (case None of Some events \<Rightarrow> Ret (?c1, events) | None \<Rightarrow>
          pbind (select_is_done (sends ?c1 s)) (\<lambda>send_done.
            if send_done
            then receive_loop dbg L fuel r (upd_send s (requested_cancel_update (\<lambda>_. True)) ?c1)
            else Ret (upd_recv r (requested_cancel_update (\<lambda>_. True))
                   ((upd_send s (queued_in_update (\<lambda>_. Some (this_channel ?c1))) ?c1)
                     \<lparr>sendq := il_push_front L s (sendq ?c1)\<rparr>), []))) w1 (Inr (c', evs)) w'"
        and w1: "done_grows w w1"
        and why: "is_same_select (sends ?c1 s) (recvs ?c1 r) \<and> \<not> dbg \<or>
          (\<exists>a \<in> selects_of (sends ?c1 s) (recvs ?c1 r). w1 a \<noteq> 0)"
      consider (again) w2 a where "run_rely done_grows
            (receive_loop dbg L fuel r (upd_send s (requested_cancel_update (\<lambda>_. True)) ?c1)) w2 (Inr (c', evs)) w'"
          "done_grows w1 w2" "select_done (sends c s) = Some a" "w2 a \<noteq> 0"
        | (stop) w2 where "c' = upd_recv r (requested_cancel_update (\<lambda>_. True))
             ((upd_send s (queued_in_update (\<lambda>_. Some (this_channel ?c1))) ?c1)
               \<lparr>sendq := il_push_front L s (sendq ?c1)\<rparr>)" "evs = []" "done_grows w2 w'"
          "done_grows w1 w2" "\<forall>a. select_done (sends c s) = Some a \<longrightarrow> w2 a = 0"
        using fail by (auto elim!: rely_select_is_done)
      then show ?thesis
      proof cases
        case again
        from Suc.IH [OF again(1)] Suc.prems Cons pop(2)
        have "receive_loop_outcome dbg r w2 ((upd_send s marked (abs_channel L c))\<lparr>sendq := ss\<rparr>) w' (abs_channel L c') evs"
          by (simp add: abs_channel_def marked_def)
        from rlo_skip [OF q done_grows_trans [OF w1 again(2)] _ again(4) this] again(3) show ?thesis by simp
      next
        case stop
        have "is_same_select (sends c s) (recvs c r) \<and> \<not> dbg \<or> (\<exists>a. select_done (recvs c r) = Some a \<and> w' a \<noteq> 0)"
          using why stop(3,4,5) by (auto simp: selects_of_def is_same_select_def dest: done_growsD)
        moreover have "s \<notin> set ss" using Suc.prems(2) Cons by simp
        then have "abs_channel L c' = upd_send s (queued_in_update (\<lambda>_. Some (this_channel c)))
            (upd_recv r (requested_cancel_update (\<lambda>_. True)) (abs_channel L c))"
          using stop(1) pop(2) laws(3) Cons by (simp add: abs_channel_def)
        ultimately show ?thesis
          using rlo_give_up [OF q, of w w' r dbg] done_grows_trans [OF done_grows_trans [OF w1 stop(4)] stop(3)] stop(2)
          by simp
      qed
    qed simp
  qed
qed simp

lemma receive_loop_faults:
  assumes L: "ilist_laws L" and "run_rely done_grows (receive_loop dbg L fuel r c) w (Inl x) w'"
    and "length (il_items L (sendq c)) < fuel"
  shows "x = Assertion_failed \<and> dbg \<and>
     (\<exists>s \<in> set (il_items L (sendq c)). is_same_select (sends c s) (recvs c r))"
  using assms(2-)
proof (induction fuel arbitrary: w c)
  case (Suc fuel)
  note laws = ilist_lawsD [OF L]
  show ?case
  proof (cases "il_items L (sendq c)")
    case Nil
    then show ?thesis using Suc.prems laws(4) by (simp add: split_beta)
  next
    case (Cons s ss)
    let ?c1 = "(upd_send s (queued_in_update (\<lambda>_. None)) (c\<lparr>sendq := snd (il_pop_front L (sendq c))\<rparr>))"
    have pop: "fst (il_pop_front L (sendq c)) = Some s" "il_items L (snd (il_pop_front L (sendq c))) = ss"
      using laws(5,6) Cons by simp_all
    have "run_rely done_grows (pbind (try_fulfill_impl dbg ?c1 s r) (\<lambda>fulfilled.
        case fulfilled of
          Some events \<Rightarrow> Ret (?c1, events)
        | None \<Rightarrow> pbind (select_is_done (sends ?c1 s)) (\<lambda>send_done.
            if send_done
            then receive_loop dbg L fuel r (upd_send s (requested_cancel_update (\<lambda>_. True)) ?c1)
            else Ret (upd_recv r (requested_cancel_update (\<lambda>_. True))
                   ((upd_send s (queued_in_update (\<lambda>_. Some (this_channel ?c1))) ?c1)
                     \<lparr>sendq := il_push_front L s (sendq ?c1)\<rparr>), [])))) w (Inl x) w'"
      using Suc.prems(1) unfolding receive_loop_Some [OF pop(1)] Let_def .
    then show ?thesis
    proof (rule rely_try_fulfill)
      fix w1
      assume "run_rely done_grows (case None of Some events \<Rightarrow> Ret (?c1, events) | None \<Rightarrow>
          pbind (select_is_done (sends ?c1 s)) (\<lambda>send_done.
            if send_done
            then receive_loop dbg L fuel r (upd_send s (requested_cancel_update (\<lambda>_. True)) ?c1)
            else Ret (upd_recv r (requested_cancel_update (\<lambda>_. True))
                   ((upd_send s (queued_in_update (\<lambda>_. Some (this_channel ?c1))) ?c1)
                     \<lparr>sendq := il_push_front L s (sendq ?c1)\<rparr>), []))) w1 (Inl x) w'"
      then obtain w2 where "run_rely done_grows
          (receive_loop dbg L fuel r (upd_send s (requested_cancel_update (\<lambda>_. True)) ?c1)) w2 (Inl x) w'"
        by (auto elim!: rely_select_is_done)
      from Suc.IH [OF this] show ?thesis using Suc.prems(2) Cons pop(2)
        by (auto split: if_splits)
    qed (use Cons in auto)
  qed
qed simp

section \<open>The outcomes of an operation\<close>

text \<open>
  \<open>channel_inv\<close>: the queues hold every node once, a node knows whether it is queued, and a closed
  channel has no waiting receiver. A node is emitted at most once, so it is not queued when it is.
\<close>

definition channel_inv :: "(nat list, 'v) channel \<Rightarrow> bool" where
  "channel_inv c \<longleftrightarrow>
     distinct (sendq c) \<and> distinct (recvq c) \<and>
     (\<forall>s. queued_in (sends c s) = (if s \<in> set (sendq c) then Some (this_channel c) else None)) \<and>
     (\<forall>r. queued_in (recvs c r) = (if r \<in> set (recvq c) then Some (this_channel c) else None)) \<and>
     (\<forall>s \<in> set (sendq c). \<not> requested_cancel (sends c s)) \<and>
     (\<forall>r \<in> set (recvq c). \<not> requested_cancel (recvs c r)) \<and>
     (is_closed c \<longrightarrow> recvq c = [])"

definition fresh_op :: "channel_op \<Rightarrow> (nat list, 'v) channel \<Rightarrow> bool" where
  "fresh_op oper c \<longleftrightarrow>
     (case oper of Emit_send s \<Rightarrow> s \<notin> set (sendq c) | Emit_receive r \<Rightarrow> r \<notin> set (recvq c) | _ \<Rightarrow> True)"

definition unqueue :: "nat list \<Rightarrow> (nat \<Rightarrow> recv_node) \<Rightarrow> nat \<Rightarrow> recv_node" where
  "unqueue q rs r = (if r \<in> set q then (rs r)\<lparr>queued_in := None\<rparr> else rs r)"

inductive op_outcome ::
  "bool \<Rightarrow> channel_op \<Rightarrow> done_words \<Rightarrow> (nat list, 'v) channel \<Rightarrow> done_words \<Rightarrow> (nat list, 'v) channel \<Rightarrow>
     'v event list \<Rightarrow> bool"
  for dbg where
  oo_send_closed: "is_closed c \<Longrightarrow> done_grows w w' \<Longrightarrow>
    op_outcome dbg (Emit_send s) w c w' c [Send_event s Call_error]"
| oo_send_cancelled: "\<not> is_closed c \<Longrightarrow> requested_cancel (sends c s) \<Longrightarrow> done_grows w w' \<Longrightarrow>
    op_outcome dbg (Emit_send s) w c w' c [Send_event s Call_null]"
| oo_send_enqueue: "\<not> is_closed c \<Longrightarrow> \<not> requested_cancel (sends c s) \<Longrightarrow> done_grows w w' \<Longrightarrow>
    recvq c = [] \<or> is_same_select (sends c s) (recvs c (last (recvq c))) \<Longrightarrow>
    op_outcome dbg (Emit_send s) w c w' (enq_send s c) []"
| oo_send_loop: "\<not> is_closed c \<Longrightarrow> \<not> requested_cancel (sends c s) \<Longrightarrow>
    send_loop_outcome dbg s w c w' c' evs \<Longrightarrow> op_outcome dbg (Emit_send s) w c w' c' evs"
| oo_receive_cancelled: "requested_cancel (recvs c r) \<Longrightarrow> done_grows w w' \<Longrightarrow>
    op_outcome dbg (Emit_receive r) w c w' c [Recv_event r Call_null]"
| oo_receive_closed: "\<not> requested_cancel (recvs c r) \<Longrightarrow> done_grows w w' \<Longrightarrow> is_closed c \<Longrightarrow>
    sendq c = [] \<or> is_same_select (sends c (last (sendq c))) (recvs c r) \<Longrightarrow>
    op_outcome dbg (Emit_receive r) w c w' c [Recv_event r Call_error]"
| oo_receive_enqueue: "\<not> requested_cancel (recvs c r) \<Longrightarrow> done_grows w w' \<Longrightarrow> \<not> is_closed c \<Longrightarrow>
    sendq c = [] \<or> is_same_select (sends c (last (sendq c))) (recvs c r) \<Longrightarrow>
    op_outcome dbg (Emit_receive r) w c w' (enq_recv r c) []"
| oo_receive_loop: "\<not> requested_cancel (recvs c r) \<Longrightarrow>
    receive_loop_outcome dbg r w c w' c' evs \<Longrightarrow> op_outcome dbg (Emit_receive r) w c w' c' evs"
| oo_close_again: "is_closed c \<Longrightarrow> done_grows w w' \<Longrightarrow> op_outcome dbg Emit_close w c w' c [Close_event Call_error]"
| oo_close: "\<not> is_closed c \<Longrightarrow> done_grows w w' \<Longrightarrow>
    op_outcome dbg Emit_close w c w' (c\<lparr>is_closed := True, recvq := [], recvs := unqueue (recvq c) (recvs c)\<rparr>)
      (map (\<lambda>r. Recv_event r Call_error) (recvq c) @ [Close_event (Call_value ())])"
| oo_unsend_queued: "s \<in> set (sendq c) \<Longrightarrow> done_grows w w' \<Longrightarrow>
    op_outcome dbg (Try_cancel_send s) w c w' ((upd_send s marked c)\<lparr>sendq := remove1 s (sendq c)\<rparr>)
      [Send_event s Call_null]"
| oo_unsend: "s \<notin> set (sendq c) \<Longrightarrow> done_grows w w' \<Longrightarrow>
    op_outcome dbg (Try_cancel_send s) w c w' (upd_send s (requested_cancel_update (\<lambda>_. True)) c)
      (if requested_cancel (sends c s) then [Send_event s Call_null] else [])"
| oo_unreceive_queued: "r \<in> set (recvq c) \<Longrightarrow> done_grows w w' \<Longrightarrow>
    op_outcome dbg (Try_cancel_receive r) w c w' ((upd_recv r marked c)\<lparr>recvq := remove1 r (recvq c)\<rparr>)
      [Recv_event r Call_null]"
| oo_unreceive: "r \<notin> set (recvq c) \<Longrightarrow> done_grows w w' \<Longrightarrow>
    op_outcome dbg (Try_cancel_receive r) w c w' (upd_recv r (requested_cancel_update (\<lambda>_. True)) c)
      (if requested_cancel (recvs c r) then [Recv_event r Call_null] else [])"

lemma fold_unqueue:
  "fold (\<lambda>r rs. rs(r := (rs r)\<lparr>queued_in := None\<rparr>)) q rs = unqueue q rs"
  by (induction q arbitrary: rs) (auto simp: unqueue_def fun_eq_iff)

lemma channel_exec_outcome:
  assumes L: "ilist_laws L" and inv: "channel_inv (abs_channel L c)" and fresh: "fresh_op oper (abs_channel L c)"
    and run: "run_rely done_grows (channel_exec dbg L fuel oper c) w (Inr (c', evs)) w'"
  shows "op_outcome dbg oper w (abs_channel L c) w' (abs_channel L c') evs"
proof (cases oper)
  case (Emit_send s)
  have last_item: "il_back L (recvq c) = (if il_items L (recvq c) = [] then None else Some (last (il_items L (recvq c))))"
    and enq: "abs_channel L (send_enqueue L s c) = enq_send s (abs_channel L c)"
    using ilist_lawsD(2,7) [OF L] fresh Emit_send by (simp_all add: send_enqueue_def abs_channel_def fresh_op_def)
  have r: "run_rely done_grows (send dbg L fuel s c) w (Inr (c', evs)) w'"
    using run Emit_send by (simp add: channel_exec_def)
  consider (closed) "is_closed c" | (canc) "\<not> is_closed c" "requested_cancel (sends c s)"
    | (enq) "\<not> is_closed c" "\<not> requested_cancel (sends c s)"
        "il_items L (recvq c) = [] \<or> is_same_select (sends c s) (recvs c (last (il_items L (recvq c))))"
    | (loop) "\<not> is_closed c" "\<not> requested_cancel (sends c s)" "il_items L (recvq c) \<noteq> []"
        "\<not> is_same_select (sends c s) (recvs c (last (il_items L (recvq c))))" by blast
  then show ?thesis
  proof cases
    case closed
    then show ?thesis using r Emit_send oo_send_closed [of "abs_channel L c" w w' dbg s] by (simp add: send_def)
  next
    case canc
    then show ?thesis using r Emit_send oo_send_cancelled [of "abs_channel L c" s w w' dbg] by (simp add: send_def)
  next
    case enq
    then show ?thesis
      using r Emit_send oo_send_enqueue [of "abs_channel L c" s w w' dbg] last_item \<open>abs_channel L (send_enqueue L s c) = _\<close>
      by (auto simp: send_def split: if_splits)
  next
    case loop
    then have "run_rely done_grows (send_loop dbg L fuel s c) w (Inr (c', evs)) w'"
      using r last_item by (simp add: send_def)
    from send_loop_outcomes [OF L this] loop show ?thesis
      using Emit_send inv fresh by (intro oo_send_loop [of "abs_channel L c" s, folded Emit_send])
        (simp_all add: channel_inv_def fresh_op_def)
  qed
next
  case (Emit_receive r)
  have last_item: "il_back L (sendq c) = (if il_items L (sendq c) = [] then None else Some (last (il_items L (sendq c))))"
    and enq: "\<not> is_closed c \<Longrightarrow> abs_channel L (fst (receive_enqueue L r c)) = enq_recv r (abs_channel L c)"
    using ilist_lawsD(2,7) [OF L] fresh Emit_receive
    by (simp_all add: receive_enqueue_def abs_channel_def fresh_op_def)
  have run': "run_rely done_grows (receive dbg L fuel r c) w (Inr (c', evs)) w'"
    using run Emit_receive by (simp add: channel_exec_def)
  consider (canc) "requested_cancel (recvs c r)"
    | (enq) "\<not> requested_cancel (recvs c r)"
        "il_items L (sendq c) = [] \<or> is_same_select (sends c (last (il_items L (sendq c)))) (recvs c r)"
    | (loop) "\<not> requested_cancel (recvs c r)" "il_items L (sendq c) \<noteq> []"
        "\<not> is_same_select (sends c (last (il_items L (sendq c)))) (recvs c r)" by blast
  then show ?thesis
  proof cases
    case canc
    then show ?thesis
      using run' Emit_receive oo_receive_cancelled [of "abs_channel L c" r w w' dbg] by (simp add: receive_def)
  next
    case enq
    then have "(c', evs) = receive_enqueue L r c" "done_grows w w'"
      using run' last_item by (auto simp: receive_def split: if_splits)
    then show ?thesis
      using enq Emit_receive oo_receive_closed [of "abs_channel L c" r w w' dbg]
        oo_receive_enqueue [of "abs_channel L c" r w w' dbg] \<open>\<not> is_closed c \<Longrightarrow> _\<close>
      by (cases "is_closed c") (auto simp: receive_enqueue_def)
  next
    case loop
    then have "run_rely done_grows (receive_loop dbg L fuel r c) w (Inr (c', evs)) w'"
      using run' last_item by (simp add: receive_def)
    from receive_loop_outcomes [OF L this] loop show ?thesis
      using Emit_receive inv fresh by (intro oo_receive_loop [of "abs_channel L c" r, folded Emit_receive])
        (simp_all add: channel_inv_def fresh_op_def)
  qed
next
  case Emit_close
  then show ?thesis
    using run ilist_lawsD(1) [OF L] oo_close_again [of "abs_channel L c" w w' dbg]
      oo_close [of "abs_channel L c" w w' dbg]
    by (auto simp: channel_exec_def close_channel_def fold_unqueue debug_assert_def dassert_def Let_def
        abs_channel_def split: if_splits)
next
  case (Try_cancel_send s)
  have q: "queued_in (sends c s) = (if s \<in> set (il_items L (sendq c)) then Some (this_channel c) else None)"
    using inv by (simp add: channel_inv_def)
  show ?thesis
  proof (cases "s \<in> set (il_items L (sendq c))")
    case True
    then show ?thesis
      using run q ilist_lawsD(8) [OF L] Try_cancel_send oo_unsend_queued [of s "abs_channel L c" w w' dbg]
      by (auto simp: channel_exec_def unsend_def un_impl_def debug_assert_def abs_channel_def marked_def)
  next
    case False
    then show ?thesis
      using run q Try_cancel_send oo_unsend [of s "abs_channel L c" w w' dbg]
      by (auto simp: channel_exec_def unsend_def un_impl_def debug_assert_def abs_channel_def split: if_splits)
  qed
next
  case (Try_cancel_receive r)
  have q: "queued_in (recvs c r) = (if r \<in> set (il_items L (recvq c)) then Some (this_channel c) else None)"
    using inv by (simp add: channel_inv_def)
  show ?thesis
  proof (cases "r \<in> set (il_items L (recvq c))")
    case True
    then show ?thesis
      using run q ilist_lawsD(8) [OF L] Try_cancel_receive oo_unreceive_queued [of r "abs_channel L c" w w' dbg]
      by (auto simp: channel_exec_def unreceive_def un_impl_def debug_assert_def abs_channel_def marked_def)
  next
    case False
    then show ?thesis
      using run q Try_cancel_receive oo_unreceive [of r "abs_channel L c" w w' dbg]
      by (auto simp: channel_exec_def unreceive_def un_impl_def debug_assert_def abs_channel_def split: if_splits)
  qed
qed

text \<open>
  An operation with one more unit of fuel than there are waiting nodes does not run out of it, and
  the only assertion that can fail is the one on two cases of the same select, in a debug build.
\<close>

lemma channel_exec_faults:
  assumes L: "ilist_laws L" and inv: "channel_inv (abs_channel L c)"
    and run: "run_rely done_grows (channel_exec dbg L fuel oper c) w (Inl x) w'"
    and fuel: "length (il_items L (sendq c)) < fuel" "length (il_items L (recvq c)) < fuel"
  shows "x = Assertion_failed \<and> dbg \<and>
    (case oper of
       Emit_send s \<Rightarrow> \<exists>r \<in> set (il_items L (recvq c)). is_same_select (sends c s) (recvs c r)
     | Emit_receive r \<Rightarrow> \<exists>s \<in> set (il_items L (sendq c)). is_same_select (sends c s) (recvs c r)
     | _ \<Rightarrow> False)"
proof (cases oper)
  case (Emit_send s)
  then have "run_rely done_grows (send_loop dbg L fuel s c) w (Inl x) w'"
    using run by (auto simp: channel_exec_def send_def split: if_splits option.splits)
  from send_loop_faults [OF L this fuel(2)] Emit_send show ?thesis by simp
next
  case (Emit_receive r)
  then have "run_rely done_grows (receive_loop dbg L fuel r c) w (Inl x) w'"
    using run by (auto simp: channel_exec_def receive_def split: if_splits option.splits)
  from receive_loop_faults [OF L this fuel(1)] Emit_receive show ?thesis by simp
next
  case Emit_close
  then show ?thesis
    using run inv by (auto simp: channel_exec_def close_channel_def fold_unqueue debug_assert_def
        dassert_def Let_def channel_inv_def unqueue_def list_all_iff split: if_splits)
next
  case (Try_cancel_send s)
  have "queued_in (sends c s) = (if s \<in> set (il_items L (sendq c)) then Some (this_channel c) else None)"
    using inv by (simp add: channel_inv_def)
  then show ?thesis
    using run Try_cancel_send
    by (auto simp: channel_exec_def unsend_def un_impl_def debug_assert_def split: if_splits)
next
  case (Try_cancel_receive r)
  have "queued_in (recvs c r) = (if r \<in> set (il_items L (recvq c)) then Some (this_channel c) else None)"
    using inv by (simp add: channel_inv_def)
  then show ?thesis
    using run Try_cancel_receive
    by (auto simp: channel_exec_def unreceive_def un_impl_def debug_assert_def split: if_splits)
qed

section \<open>The invariant is kept\<close>

lemma inv_enq:
  "channel_inv c \<Longrightarrow> s \<notin> set (sendq c) \<Longrightarrow> \<not> requested_cancel (sends c s) \<Longrightarrow> channel_inv (enq_send s c)"
  "channel_inv c \<Longrightarrow> r \<notin> set (recvq c) \<Longrightarrow> \<not> requested_cancel (recvs c r) \<Longrightarrow> \<not> is_closed c \<Longrightarrow>
     channel_inv (enq_recv r c)"
  by (auto simp: channel_inv_def cong: if_cong)

lemma inv_leave:
  assumes "f = marked \<or> f = queued_in_update (\<lambda>_. None)"
  shows "channel_inv c \<Longrightarrow> recvq c = r # rs \<Longrightarrow> channel_inv ((upd_recv r f c)\<lparr>recvq := rs\<rparr>)"
  using assms by (auto simp: channel_inv_def marked_def cong: if_cong)

lemma inv_leave_send:
  assumes "f = marked \<or> f = queued_in_update (\<lambda>_. None)"
  shows "channel_inv c \<Longrightarrow> sendq c = s # ss \<Longrightarrow> channel_inv ((upd_send s f c)\<lparr>sendq := ss\<rparr>)"
  using assms by (auto simp: channel_inv_def marked_def cong: if_cong)

lemma inv_request:
  "channel_inv c \<Longrightarrow> s \<notin> set (sendq c) \<Longrightarrow> channel_inv (upd_send s (requested_cancel_update (\<lambda>_. True)) c)"
  "channel_inv c \<Longrightarrow> r \<notin> set (recvq c) \<Longrightarrow> channel_inv (upd_recv r (requested_cancel_update (\<lambda>_. True)) c)"
  by (auto simp: channel_inv_def cong: if_cong)

lemma inv_put_back:
  "channel_inv c \<Longrightarrow> r \<in> set (recvq c) \<Longrightarrow> channel_inv (upd_recv r (queued_in_update (\<lambda>_. Some (this_channel c))) c)"
  "channel_inv c \<Longrightarrow> s \<in> set (sendq c) \<Longrightarrow> channel_inv (upd_send s (queued_in_update (\<lambda>_. Some (this_channel c))) c)"
  by (auto simp: channel_inv_def cong: if_cong)

lemma inv_erase_send:
  assumes "channel_inv c" "s \<in> set (sendq c)"
  shows "channel_inv ((upd_send s marked c)\<lparr>sendq := remove1 s (sendq c)\<rparr>)"
proof -
  have "distinct (sendq c)" using assms(1) by (simp add: channel_inv_def)
  then have "set (remove1 s (sendq c)) = set (sendq c) - {s}" by (rule set_remove1_eq)
  then show ?thesis using assms by (simp add: channel_inv_def marked_def)
qed

lemma inv_erase_recv:
  assumes "channel_inv c" "r \<in> set (recvq c)"
  shows "channel_inv ((upd_recv r marked c)\<lparr>recvq := remove1 r (recvq c)\<rparr>)"
proof -
  have "distinct (recvq c)" using assms(1) by (simp add: channel_inv_def)
  then have "set (remove1 r (recvq c)) = set (recvq c) - {r}" by (rule set_remove1_eq)
  then show ?thesis using assms by (simp add: channel_inv_def marked_def)
qed

lemma inv_close:
  "channel_inv c \<Longrightarrow> channel_inv (c\<lparr>is_closed := True, recvq := [], recvs := unqueue (recvq c) (recvs c)\<rparr>)"
  by (auto simp: channel_inv_def unqueue_def cong: if_cong)

lemma send_loop_outcome_inv:
  assumes "send_loop_outcome dbg s w c w' c' evs" "channel_inv c" "s \<notin> set (sendq c)"
    "\<not> requested_cancel (sends c s)"
  shows "channel_inv c'"
  using assms
proof (induction rule: send_loop_outcome.induct)
  case (slo_empty c w w')
  then show ?case by (intro inv_enq)
next
  case (slo_match c r rs w w')
  then show ?case by (intro inv_leave) auto
next
  case (slo_skip c r rs w w1 a w' c' evs)
  show ?case by (rule slo_skip.IH) (use slo_skip.prems slo_skip.hyps(1) in \<open>auto intro!: inv_leave\<close>)
next
  case (slo_give_up c r rs w w')
  then have "channel_inv (upd_send s (requested_cancel_update (\<lambda>_. True)) c)" by (intro inv_request)
  then show ?case using slo_give_up.hyps(1) by (auto dest: inv_put_back(1) [of _ r])
qed

lemma receive_loop_outcome_inv:
  assumes "receive_loop_outcome dbg r w c w' c' evs" "channel_inv c" "r \<notin> set (recvq c)"
    "\<not> requested_cancel (recvs c r)"
  shows "channel_inv c'"
  using assms
proof (induction rule: receive_loop_outcome.induct)
  case (rlo_empty c w w')
  then show ?case by (intro inv_enq)
next
  case (rlo_match c s ss w w')
  then show ?case by (intro inv_leave_send) auto
next
  case (rlo_skip c s ss w w1 a w' c' evs)
  show ?case by (rule rlo_skip.IH) (use rlo_skip.prems rlo_skip.hyps(1) in \<open>auto intro!: inv_leave_send\<close>)
next
  case (rlo_give_up c s ss w w')
  then have "channel_inv (upd_recv r (requested_cancel_update (\<lambda>_. True)) c)" by (intro inv_request)
  then show ?case using rlo_give_up.hyps(1) by (auto dest: inv_put_back(2) [of _ s])
qed

lemma op_outcome_inv:
  assumes "op_outcome dbg oper w c w' c' evs" "channel_inv c" "fresh_op oper c"
  shows "channel_inv c'"
  using assms
proof (induction rule: op_outcome.induct)
  case (oo_send_enqueue c s w w')
  then show ?case by (intro inv_enq) (simp_all add: fresh_op_def)
next
  case (oo_send_loop c s w w' c' evs)
  then show ?case by (intro send_loop_outcome_inv [of dbg s w c w' c' evs]) (simp_all add: fresh_op_def)
next
  case (oo_receive_enqueue c r w w')
  then show ?case by (intro inv_enq) (simp_all add: fresh_op_def)
next
  case (oo_receive_loop c r w w' c' evs)
  then show ?case by (intro receive_loop_outcome_inv [of dbg r w c w' c' evs]) (simp_all add: fresh_op_def)
qed (simp_all add: inv_request inv_erase_send inv_erase_recv inv_close)

end
