(* ===== verification/Channel_History.thy ===== *)
theory Channel_History
  imports Channel_Steps "HOL-Library.Sublist"
begin

text \<open>
  The life of a channel: any sequence of operations by its users, each node emitted at most once and
  cancelled at most once, interleaved with any growth of the \<open>done\<close> words. A history remembers the
  order of emissions and all callbacks made. Its invariants say that no callback is lost or
  made twice, that a select's word is claimed at most once, and what values come out.
\<close>

section \<open>Histories\<close>

record ('q, 'v) history =
  h_words :: done_words
  h_chan :: "('q, 'v) channel"
  h_sent :: "nat list"
  h_received :: "nat list"
  h_unsent :: "nat set"
  h_unreceived :: "nat set"
  h_events :: "'v event list"

definition allowed :: "channel_op \<Rightarrow> ('q, 'v) history \<Rightarrow> bool" where
  "allowed oper h \<longleftrightarrow>
     (case oper of
        Emit_send s \<Rightarrow> s \<notin> set (h_sent h)
      | Emit_receive r \<Rightarrow> r \<notin> set (h_received h)
      | Emit_close \<Rightarrow> True
      | Try_cancel_send s \<Rightarrow> s \<notin> h_unsent h
      | Try_cancel_receive r \<Rightarrow> r \<notin> h_unreceived h)"

definition record_op :: "channel_op \<Rightarrow> ('q, 'v) history \<Rightarrow> ('q, 'v) history" where
  "record_op oper h =
     (case oper of
        Emit_send s \<Rightarrow> h\<lparr>h_sent := h_sent h @ [s]\<rparr>
      | Emit_receive r \<Rightarrow> h\<lparr>h_received := h_received h @ [r]\<rparr>
      | Emit_close \<Rightarrow> h
      | Try_cancel_send s \<Rightarrow> h\<lparr>h_unsent := insert s (h_unsent h)\<rparr>
      | Try_cancel_receive r \<Rightarrow> h\<lparr>h_unreceived := insert r (h_unreceived h)\<rparr>)"

inductive history_step ::
  "bool \<Rightarrow> ('q, nat) ilist_ops \<Rightarrow> ('q, 'v) history \<Rightarrow> ('q, 'v) history \<Rightarrow> bool" for dbg L where
  hs_words: "done_grows (h_words h) w \<Longrightarrow> history_step dbg L h (h\<lparr>h_words := w\<rparr>)"
| hs_op: "allowed oper h \<Longrightarrow>
    run_rely done_grows (channel_exec dbg L fuel oper (h_chan h)) (h_words h) (Inr (c', evs)) w' \<Longrightarrow>
    history_step dbg L h
      (record_op oper (h\<lparr>h_words := w', h_chan := c', h_events := h_events h @ evs\<rparr>))"

definition initial_history :: "('q, nat) ilist_ops \<Rightarrow> ('q, 'v) history \<Rightarrow> bool" where
  "initial_history L h \<longleftrightarrow>
     il_items L (sendq (h_chan h)) = [] \<and> il_items L (recvq (h_chan h)) = [] \<and> \<not> is_closed (h_chan h) \<and>
     (\<forall>s. queued_in (sends (h_chan h) s) = None \<and> \<not> requested_cancel (sends (h_chan h) s)) \<and>
     (\<forall>r. queued_in (recvs (h_chan h) r) = None \<and> \<not> requested_cancel (recvs (h_chan h) r)) \<and>
     h_sent h = [] \<and> h_received h = [] \<and> h_unsent h = {} \<and> h_unreceived h = {} \<and> h_events h = []"

definition reachable_history :: "bool \<Rightarrow> ('q, nat) ilist_ops \<Rightarrow> ('q, 'v) history \<Rightarrow> bool" where
  "reachable_history dbg L h \<longleftrightarrow> (\<exists>h0. initial_history L h0 \<and> (history_step dbg L)\<^sup>*\<^sup>* h0 h)"

section \<open>Callbacks per node\<close>

definition send_calls :: "nat \<Rightarrow> 'v event list \<Rightarrow> nat" where
  "send_calls s evs = length (filter (\<lambda>e. case e of Send_event s' _ \<Rightarrow> s' = s | _ \<Rightarrow> False) evs)"

definition recv_calls :: "nat \<Rightarrow> 'v event list \<Rightarrow> nat" where
  "recv_calls r evs = length (filter (\<lambda>e. case e of Recv_event r' _ \<Rightarrow> r' = r | _ \<Rightarrow> False) evs)"

lemma calls_simps [simp]:
  "send_calls s [] = 0" "recv_calls r [] = 0"
  "send_calls s (e # evs) = (case e of Send_event s' _ \<Rightarrow> of_bool (s' = s) | _ \<Rightarrow> 0) + send_calls s evs"
  "recv_calls r (e # evs) = (case e of Recv_event r' _ \<Rightarrow> of_bool (r' = r) | _ \<Rightarrow> 0) + recv_calls r evs"
  "send_calls s (evs @ evs') = send_calls s evs + send_calls s evs'"
  "recv_calls r (evs @ evs') = recv_calls r evs + recv_calls r evs'"
  by (simp_all add: send_calls_def recv_calls_def split: event.splits)

lemma calls_errors [simp]:
  "send_calls s (map (\<lambda>r. Recv_event r Call_error) q) = 0"
  "distinct q \<Longrightarrow> recv_calls r (map (\<lambda>r. Recv_event r Call_error) q) = of_bool (r \<in> set q)"
  by (induction q) auto

text \<open>
  The account of a node: \<open>k\<close> callbacks were made on it, given whether it was emitted and cancelled.
  A node emitted and neither queued nor waiting for its cancellation has had exactly one; in a
  debug build, one that waits for its cancellation is a case of a select that is done.
\<close>

definition node_ok ::
  "bool \<Rightarrow> done_words \<Rightarrow> 'z channel_node_scheme \<Rightarrow> bool \<Rightarrow> bool \<Rightarrow> nat \<Rightarrow> bool" where
  "node_ok dbg w n emitted cancelled k \<longleftrightarrow>
     k = of_bool (emitted \<and> queued_in n = None \<and> (cancelled \<or> \<not> requested_cancel n)) \<and>
     (queued_in n \<noteq> None \<longrightarrow> emitted \<and> \<not> cancelled \<and> \<not> requested_cancel n) \<and>
     (cancelled \<longrightarrow> requested_cancel n) \<and> (\<not> emitted \<and> requested_cancel n \<longrightarrow> cancelled) \<and>
     (dbg \<and> emitted \<and> \<not> cancelled \<and> requested_cancel n \<longrightarrow> (\<exists>a. select_done n = Some a \<and> w a \<noteq> 0))"

lemma node_ok_grows: "node_ok dbg w n e c k \<Longrightarrow> done_grows w w' \<Longrightarrow> node_ok dbg w' n e c k"
  by (auto simp: node_ok_def done_grows_def)

lemma node_ok_steps:
  "queued_in n \<noteq> None \<Longrightarrow> node_ok dbg w n e c k \<Longrightarrow> select_done n = Some a \<Longrightarrow> w a \<noteq> 0 \<Longrightarrow> node_ok dbg w (marked n) e c k"
  "queued_in n \<noteq> None \<Longrightarrow> node_ok dbg w n e c k \<Longrightarrow> node_ok dbg w (n\<lparr>queued_in := None\<rparr>) e c (Suc k)"
  "\<not> requested_cancel n \<Longrightarrow> node_ok dbg w n False c k \<Longrightarrow> node_ok dbg w (n\<lparr>queued_in := Some x\<rparr>) True c k"
  "node_ok dbg w n False c k \<Longrightarrow> node_ok dbg w n True c (Suc k)"
  "\<not> requested_cancel n \<Longrightarrow> node_ok dbg w n False c k \<Longrightarrow> dbg \<longrightarrow> (\<exists>a. select_done n = Some a \<and> w a \<noteq> 0) \<Longrightarrow>
     node_ok dbg w (n\<lparr>requested_cancel := True\<rparr>) True c k"
  "queued_in n \<noteq> None \<Longrightarrow> node_ok dbg w n e c k \<Longrightarrow> node_ok dbg w (marked n) e True (Suc k)"
  "queued_in n = None \<Longrightarrow> node_ok dbg w n e False k \<Longrightarrow>
     node_ok dbg w (n\<lparr>requested_cancel := True\<rparr>) e True (k + of_bool (requested_cancel n))"
  by (auto simp: node_ok_def marked_def)

definition accounts_ok ::
  "bool \<Rightarrow> done_words \<Rightarrow> ('q, 'v) channel \<Rightarrow> nat set \<Rightarrow> nat set \<Rightarrow> nat set \<Rightarrow> nat set \<Rightarrow> 'v event list \<Rightarrow> bool"
where
  "accounts_ok dbg w c S U R V evs \<longleftrightarrow>
     (\<forall>s. node_ok dbg w (sends c s) (s \<in> S) (s \<in> U) (send_calls s evs)) \<and>
     (\<forall>r. node_ok dbg w (recvs c r) (r \<in> R) (r \<in> V) (recv_calls r evs))"

lemma accounts_ok_grows:
  "accounts_ok dbg w c S U R V evs \<Longrightarrow> done_grows w w' \<Longrightarrow> accounts_ok dbg w' c S U R V evs"
  by (auto simp: accounts_ok_def intro: node_ok_grows)

lemma queued_iff:
  assumes "channel_inv c"
  shows "queued_in (sends c s) = None \<longleftrightarrow> s \<notin> set (sendq c)" "queued_in (recvs c r) = None \<longleftrightarrow> r \<notin> set (recvq c)"
    and "s \<in> set (sendq c) \<Longrightarrow> (sends c s)\<lparr>queued_in := Some (this_channel c)\<rparr> = sends c s"
    and "r \<in> set (recvq c) \<Longrightarrow> (recvs c r)\<lparr>queued_in := Some (this_channel c)\<rparr> = recvs c r"
proof -
  have "queued_in n = Some x \<Longrightarrow> n\<lparr>queued_in := Some x\<rparr> = n" for n :: "'z channel_node_scheme" and x
    by (cases n) simp
  then show "s \<in> set (sendq c) \<Longrightarrow> (sends c s)\<lparr>queued_in := Some (this_channel c)\<rparr> = sends c s"
    "r \<in> set (recvq c) \<Longrightarrow> (recvs c r)\<lparr>queued_in := Some (this_channel c)\<rparr> = recvs c r"
    using assms by (simp_all add: channel_inv_def)
qed (use assms in \<open>simp_all add: channel_inv_def\<close>)

lemma fulfill_calls [simp]:
  "send_calls s' (fulfill_events c s r) = of_bool (s = s')"
  "recv_calls r' (fulfill_events c s r) = of_bool (r = r')"
  by (simp_all add: fulfill_events_def)

lemma accounts_fresh:
  "accounts_ok dbg w c S U R V evs \<Longrightarrow> s \<notin> S \<Longrightarrow> node_ok dbg w (sends c s) False (s \<in> U) (send_calls s evs)"
  "accounts_ok dbg w c S U R V evs \<Longrightarrow> r \<notin> R \<Longrightarrow> node_ok dbg w (recvs c r) False (r \<in> V) (recv_calls r evs)"
  unfolding accounts_ok_def by metis+

lemma accounts_enq:
  assumes "accounts_ok dbg w c S U R V evs"
  shows "s \<notin> S \<Longrightarrow> \<not> requested_cancel (sends c s) \<Longrightarrow> accounts_ok dbg w (enq_send s c) (insert s S) U R V evs"
    and "r \<notin> R \<Longrightarrow> \<not> requested_cancel (recvs c r) \<Longrightarrow> accounts_ok dbg w (enq_recv r c) S U (insert r R) V evs"
  using assms accounts_fresh [OF assms, THEN node_ok_steps(3) [rotated]] by (auto simp: accounts_ok_def)

lemma send_loop_accounts:
  assumes "send_loop_outcome dbg s w c w' c' evs'" "channel_inv c" "s \<notin> S" "\<not> requested_cancel (sends c s)"
    "s \<notin> set (sendq c)" "accounts_ok dbg w c S U R V evs"
  shows "accounts_ok dbg w' c' (insert s S) U R V (evs @ evs')"
  using assms
proof (induction rule: send_loop_outcome.induct)
  case (slo_empty c w w')
  then show ?case by (simp add: accounts_enq accounts_ok_grows)
next
  case (slo_match c r rs w w')
  have q: "queued_in (recvs c r) \<noteq> None" using slo_match queued_iff(2) [of c r] by auto
  have acc: "accounts_ok dbg w' c S U R V evs" using slo_match accounts_ok_grows by blast
  then show ?case
    using slo_match.prems(2) node_ok_steps(2) [OF q] accounts_fresh(1) [OF acc, THEN node_ok_steps(4)]
    by (auto simp: accounts_ok_def)
next
  case (slo_skip c r rs w w1 a w' c' evs')
  have q: "queued_in (recvs c r) \<noteq> None" using slo_skip queued_iff(2) [of c r] by auto
  have acc: "accounts_ok dbg w1 c S U R V evs" using slo_skip accounts_ok_grows by blast
  show ?case
  proof (rule slo_skip.IH)
    show "channel_inv ((upd_recv r marked c)\<lparr>recvq := rs\<rparr>)"
      using slo_skip.prems(1) slo_skip.hyps(1) by (intro inv_leave) simp_all
    show "accounts_ok dbg w1 ((upd_recv r marked c)\<lparr>recvq := rs\<rparr>) S U R V evs"
      using acc node_ok_steps(1) [where w = w1, OF q _ slo_skip.hyps(3,4)] by (auto simp: accounts_ok_def)
  qed (use slo_skip.prems in simp_all)
next
  case (slo_give_up c r rs w w')
  have q: "(recvs c r)\<lparr>queued_in := Some (this_channel c)\<rparr> = recvs c r"
    using slo_give_up queued_iff(4) [of c r] by simp
  have acc: "accounts_ok dbg w' c S U R V evs" using slo_give_up accounts_ok_grows by blast
  have "node_ok dbg w' ((sends c s)\<lparr>requested_cancel := True\<rparr>) True (s \<in> U) (send_calls s evs)"
    by (rule node_ok_steps(5) [OF slo_give_up.prems(3) accounts_fresh(1) [OF acc slo_give_up.prems(2)]])
      (use slo_give_up.hyps(3) in blast)
  then show ?case using acc q by (auto simp: accounts_ok_def)
qed

lemma receive_loop_accounts:
  assumes "receive_loop_outcome dbg r w c w' c' evs'" "channel_inv c" "r \<notin> R" "\<not> requested_cancel (recvs c r)"
    "r \<notin> set (recvq c)" "accounts_ok dbg w c S U R V evs"
  shows "accounts_ok dbg w' c' S U (insert r R) V (evs @ evs')"
  using assms
proof (induction rule: receive_loop_outcome.induct)
  case (rlo_empty c w w')
  then show ?case by (simp add: accounts_enq accounts_ok_grows)
next
  case (rlo_closed c w w')
  then have acc: "accounts_ok dbg w' c S U R V evs" using accounts_ok_grows by blast
  then show ?case using rlo_closed.prems(2) accounts_fresh(2) [OF acc, THEN node_ok_steps(4)]
    by (auto simp: accounts_ok_def)
next
  case (rlo_match c s ss w w')
  have q: "queued_in (sends c s) \<noteq> None" using rlo_match queued_iff(1) [of c s] by auto
  have acc: "accounts_ok dbg w' c S U R V evs" using rlo_match accounts_ok_grows by blast
  then show ?case
    using rlo_match.prems(2) node_ok_steps(2) [OF q] accounts_fresh(2) [OF acc, THEN node_ok_steps(4)]
    by (auto simp: accounts_ok_def)
next
  case (rlo_skip c s ss w w1 a w' c' evs')
  have q: "queued_in (sends c s) \<noteq> None" using rlo_skip queued_iff(1) [of c s] by auto
  have acc: "accounts_ok dbg w1 c S U R V evs" using rlo_skip accounts_ok_grows by blast
  show ?case
  proof (rule rlo_skip.IH)
    show "channel_inv ((upd_send s marked c)\<lparr>sendq := ss\<rparr>)"
      using rlo_skip.prems(1) rlo_skip.hyps(1) by (intro inv_leave_send) simp_all
    show "accounts_ok dbg w1 ((upd_send s marked c)\<lparr>sendq := ss\<rparr>) S U R V evs"
      using acc node_ok_steps(1) [where w = w1, OF q _ rlo_skip.hyps(3,4)] by (auto simp: accounts_ok_def)
  qed (use rlo_skip.prems in simp_all)
next
  case (rlo_give_up c s ss w w')
  have q: "(sends c s)\<lparr>queued_in := Some (this_channel c)\<rparr> = sends c s"
    using rlo_give_up queued_iff(3) [of c s] by simp
  have acc: "accounts_ok dbg w' c S U R V evs" using rlo_give_up accounts_ok_grows by blast
  have "node_ok dbg w' ((recvs c r)\<lparr>requested_cancel := True\<rparr>) True (r \<in> V) (recv_calls r evs)"
    by (rule node_ok_steps(5) [OF rlo_give_up.prems(3) accounts_fresh(2) [OF acc rlo_give_up.prems(2)]])
      (use rlo_give_up.hyps(3) in blast)
  then show ?case using acc q by (auto simp: accounts_ok_def)
qed

text \<open>The sets of emitted and cancelled nodes after an operation.\<close>

definition op_accounts :: "channel_op \<Rightarrow> bool \<Rightarrow> done_words \<Rightarrow> ('q, 'v) channel \<Rightarrow> nat set \<Rightarrow> nat set \<Rightarrow>
    nat set \<Rightarrow> nat set \<Rightarrow> 'v event list \<Rightarrow> bool" where
  "op_accounts oper dbg w c S U R V evs =
     (case oper of
        Emit_send s \<Rightarrow> accounts_ok dbg w c (insert s S) U R V evs
      | Emit_receive r \<Rightarrow> accounts_ok dbg w c S U (insert r R) V evs
      | Emit_close \<Rightarrow> accounts_ok dbg w c S U R V evs
      | Try_cancel_send s \<Rightarrow> accounts_ok dbg w c S (insert s U) R V evs
      | Try_cancel_receive r \<Rightarrow> accounts_ok dbg w c S U R (insert r V) evs)"

lemma accounts_cancel:
  assumes acc: "accounts_ok dbg w c S U R V evs" and inv: "channel_inv c"
  shows "s \<in> set (sendq c) \<Longrightarrow> accounts_ok dbg w ((upd_send s marked c)\<lparr>sendq := q\<rparr>) S (insert s U) R V
      (evs @ [Send_event s Call_null])"
    and "r \<in> set (recvq c) \<Longrightarrow> accounts_ok dbg w ((upd_recv r marked c)\<lparr>recvq := q\<rparr>) S U R (insert r V)
      (evs @ [Recv_event r Call_null])"
    and "s \<notin> set (sendq c) \<Longrightarrow> s \<notin> U \<Longrightarrow> accounts_ok dbg w (upd_send s (requested_cancel_update (\<lambda>_. True)) c)
      S (insert s U) R V (evs @ (if requested_cancel (sends c s) then [Send_event s Call_null] else []))"
    and "r \<notin> set (recvq c) \<Longrightarrow> r \<notin> V \<Longrightarrow> accounts_ok dbg w (upd_recv r (requested_cancel_update (\<lambda>_. True)) c)
      S U R (insert r V) (evs @ (if requested_cancel (recvs c r) then [Recv_event r Call_null] else []))"
proof -
  have s: "node_ok dbg w (sends c s) (s \<in> S) (s \<in> U) (send_calls s evs)"
    and r: "node_ok dbg w (recvs c r) (r \<in> R) (r \<in> V) (recv_calls r evs)"
    using acc by (simp_all add: accounts_ok_def)
  show "s \<in> set (sendq c) \<Longrightarrow> accounts_ok dbg w ((upd_send s marked c)\<lparr>sendq := q\<rparr>) S (insert s U) R V
      (evs @ [Send_event s Call_null])"
    using acc node_ok_steps(6) [OF _ s] queued_iff(1) [OF inv, of s] by (auto simp: accounts_ok_def)
  show "r \<in> set (recvq c) \<Longrightarrow> accounts_ok dbg w ((upd_recv r marked c)\<lparr>recvq := q\<rparr>) S U R (insert r V)
      (evs @ [Recv_event r Call_null])"
    using acc node_ok_steps(6) [OF _ r] queued_iff(2) [OF inv, of r] by (auto simp: accounts_ok_def)
  show "s \<notin> set (sendq c) \<Longrightarrow> s \<notin> U \<Longrightarrow> accounts_ok dbg w (upd_send s (requested_cancel_update (\<lambda>_. True)) c)
      S (insert s U) R V (evs @ (if requested_cancel (sends c s) then [Send_event s Call_null] else []))"
    using acc s node_ok_steps(7) [of "sends c s" dbg w "s \<in> S"] queued_iff(1) [OF inv, of s]
    by (auto simp: accounts_ok_def)
  show "r \<notin> set (recvq c) \<Longrightarrow> r \<notin> V \<Longrightarrow> accounts_ok dbg w (upd_recv r (requested_cancel_update (\<lambda>_. True)) c)
      S U R (insert r V) (evs @ (if requested_cancel (recvs c r) then [Recv_event r Call_null] else []))"
    using acc r node_ok_steps(7) [of "recvs c r" dbg w "r \<in> R"] queued_iff(2) [OF inv, of r]
    by (auto simp: accounts_ok_def)
qed

lemma accounts_close:
  assumes acc: "accounts_ok dbg w c S U R V evs" and inv: "channel_inv c"
  shows "accounts_ok dbg w (c\<lparr>is_closed := True, recvq := [], recvs := unqueue (recvq c) (recvs c)\<rparr>) S U R V
      (evs @ map (\<lambda>r. Recv_event r Call_error) (recvq c) @ [Close_event (Call_value ())])"
proof -
  have "distinct (recvq c)" using inv by (simp add: channel_inv_def)
  moreover have "node_ok dbg w (unqueue (recvq c) (recvs c) r) (r \<in> R) (r \<in> V)
      (recv_calls r evs + of_bool (r \<in> set (recvq c)))" for r
    using acc node_ok_steps(2) [of "recvs c r" dbg w "r \<in> R" "r \<in> V" "recv_calls r evs"] queued_iff(2) [OF inv, of r]
    by (auto simp: accounts_ok_def unqueue_def)
  ultimately show ?thesis using acc by (simp add: accounts_ok_def)
qed

lemma op_outcome_accounts:
  assumes "op_outcome dbg oper w c w' c' evs'" "channel_inv c" "accounts_ok dbg w c S U R V evs"
    and "case oper of Emit_send s \<Rightarrow> s \<notin> S | Emit_receive r \<Rightarrow> r \<notin> R
      | Emit_close \<Rightarrow> True | Try_cancel_send s \<Rightarrow> s \<notin> U | Try_cancel_receive r \<Rightarrow> r \<notin> V"
  shows "op_accounts oper dbg w' c' S U R V (evs @ evs')"
proof -
  have acc: "done_grows w w' \<Longrightarrow> accounts_ok dbg w' c S U R V evs" using assms(3) by (rule accounts_ok_grows)
  have sub: "s \<in> set (sendq c) \<Longrightarrow> s \<in> S" "r \<in> set (recvq c) \<Longrightarrow> r \<in> R" for s r
    using assms(2,3) queued_iff(1,2) [OF assms(2)] by (auto simp: accounts_ok_def node_ok_def)
  have fresh: "accounts_ok dbg w' c (insert s S) U R V (evs @ [Send_event s x])"
    if "done_grows w w'" "s \<notin> S" for s x
    using acc [OF that(1)] accounts_fresh(1) [OF acc [OF that(1)] that(2), THEN node_ok_steps(4)]
    by (auto simp: accounts_ok_def)
  have fresh': "accounts_ok dbg w' c S U (insert r R) V (evs @ [Recv_event r x])"
    if "done_grows w w'" "r \<notin> R" for r x
    using acc [OF that(1)] accounts_fresh(2) [OF acc [OF that(1)] that(2), THEN node_ok_steps(4)]
    by (auto simp: accounts_ok_def)
  from assms(1,2,4) acc sub fresh fresh' show ?thesis
  proof cases
    case (oo_send_loop s)
    then have "s \<notin> S" using assms(4) by simp
    then have "accounts_ok dbg w' c' (insert s S) U R V (evs @ evs')"
      using sub(1) [of s] send_loop_accounts [OF oo_send_loop(4) assms(2) _ oo_send_loop(3) _ assms(3)] by blast
    then show ?thesis by (simp add: op_accounts_def oo_send_loop(1))
  next
    case (oo_receive_loop r)
    then have "r \<notin> R" using assms(4) by simp
    then have "accounts_ok dbg w' c' S U (insert r R) V (evs @ evs')"
      using sub(2) [of r] receive_loop_accounts [OF oo_receive_loop(3) assms(2) _ oo_receive_loop(2) _ assms(3)]
      by blast
    then show ?thesis by (simp add: op_accounts_def oo_receive_loop(1))
  qed (auto simp: op_accounts_def accounts_enq accounts_close accounts_cancel simp del: append_assoc,
      (simp add: accounts_ok_def)+)
qed

section \<open>Claims of select words\<close>

text \<open>A callback that skips the check of a select's word claims that word for its node.\<close>

definition event_claims :: "('q, 'v) channel \<Rightarrow> u64 \<Rightarrow> 'v event \<Rightarrow> bool" where
  "event_claims c a e =
     (case e of
        Send_event s (Call_value_skip_done _) \<Rightarrow> select_done (sends c s) = Some a
      | Recv_event r (Call_value_skip_done _) \<Rightarrow> select_done (recvs c r) = Some a
      | _ \<Rightarrow> False)"

definition claims :: "('q, 'v) channel \<Rightarrow> u64 \<Rightarrow> 'v event list \<Rightarrow> nat" where
  "claims c a evs = length (filter (event_claims c a) evs)"

definition delivered :: "'v event list \<Rightarrow> 'v list" where
  "delivered = List.map_filter (\<lambda>e. case e of
     Recv_event r (Call_value v) \<Rightarrow> Some v | Recv_event r (Call_value_skip_done v) \<Rightarrow> Some v | _ \<Rightarrow> None)"

definition accepted :: "'v event list \<Rightarrow> nat list" where
  "accepted = List.map_filter (\<lambda>e. case e of
     Send_event s (Call_value v) \<Rightarrow> Some s | Send_event s (Call_value_skip_done v) \<Rightarrow> Some s | _ \<Rightarrow> None)"

definition served :: "'v event list \<Rightarrow> nat list" where
  "served = List.map_filter (\<lambda>e. case e of
     Recv_event r (Call_value v) \<Rightarrow> Some r | Recv_event r (Call_value_skip_done v) \<Rightarrow> Some r | _ \<Rightarrow> None)"

lemma map_filter_append: "List.map_filter f (xs @ ys) = List.map_filter f xs @ List.map_filter f ys"
  by (simp add: List.map_filter_def)

lemma outputs_simps [simp]:
  "delivered [] = []" "accepted [] = []" "served [] = []" "claims c a [] = 0"
  "delivered (xs @ ys) = delivered xs @ delivered ys" "accepted (xs @ ys) = accepted xs @ accepted ys"
  "served (xs @ ys) = served xs @ served ys" "claims c a (xs @ ys) = claims c a xs + claims c a ys"
  "delivered [Send_event s x] = []" "served [Send_event s x] = []" "accepted [Recv_event r y] = []"
  "delivered [Recv_event r Call_error] = []" "served [Recv_event r Call_error] = []"
  "delivered [Recv_event r Call_null] = []" "served [Recv_event r Call_null] = []"
  "accepted [Send_event s Call_error] = []" "accepted [Send_event s Call_null] = []"
  "delivered [Close_event z] = []" "accepted [Close_event z] = []" "served [Close_event z] = []"
  "claims c a [Close_event z] = 0" "claims c a [Recv_event r Call_error] = 0" "claims c a [Recv_event r Call_null] = 0"
  "claims c a [Send_event s Call_error] = 0" "claims c a [Send_event s Call_null] = 0"
  by (simp_all add: delivered_def accepted_def served_def claims_def map_filter_append map_filter_simps event_claims_def)

lemma outputs_errors [simp]:
  "delivered (map (\<lambda>r. Recv_event r Call_error) q) = []" "accepted (map (\<lambda>r. Recv_event r Call_error) q) = []"
  "served (map (\<lambda>r. Recv_event r Call_error) q) = []" "claims c a (map (\<lambda>r. Recv_event r Call_error) q) = 0"
  by (induction q)
    (simp_all add: delivered_def accepted_def served_def claims_def map_filter_simps event_claims_def)

lemma outputs_fulfill [simp]:
  "delivered (fulfill_events c s r) = [sn_value (sends c s)]" "accepted (fulfill_events c s r) = [s]"
  "served (fulfill_events c s r) = [r]"
  by (simp_all add: delivered_def accepted_def served_def fulfill_events_def value_call_def map_filter_simps)

lemma claims_fulfill:
  assumes "claims_words w w' c s r"
  shows "claims c a (fulfill_events c s r) = of_bool (a \<in> selects_of (sends c s) (recvs c r))"
  using assms
  by (auto simp: claims_def fulfill_events_def value_call_def event_claims_def selects_of_def claims_words_def
      is_same_select_def)

text \<open>Selects and values of nodes never change.\<close>

definition same_nodes :: "('q, 'v) channel \<Rightarrow> ('p, 'v) channel \<Rightarrow> bool" where
  "same_nodes c c' \<longleftrightarrow>
     (\<forall>s. select_done (sends c' s) = select_done (sends c s) \<and> sn_value (sends c' s) = sn_value (sends c s)) \<and>
     (\<forall>r. select_done (recvs c' r) = select_done (recvs c r))"

lemma same_nodes_refl [simp]: "same_nodes c c"
  by (simp add: same_nodes_def)

lemma same_nodes_trans: "same_nodes c c1 \<Longrightarrow> same_nodes c1 c2 \<Longrightarrow> same_nodes c c2"
  by (simp add: same_nodes_def)

lemma claims_same_nodes: "same_nodes c c' \<Longrightarrow> claims c' a evs = claims c a evs"
  unfolding claims_def
  by (rule arg_cong [where f = length], rule filter_cong [OF refl])
    (simp add: event_claims_def same_nodes_def split: event.splits callback_call.splits)

text \<open>What one operation outputs: values of the sends it accepts, and claims of words that were free.\<close>

definition outputs_ok :: "done_words \<Rightarrow> ('q, 'v) channel \<Rightarrow> done_words \<Rightarrow> ('q, 'v) channel \<Rightarrow> 'v event list \<Rightarrow> bool" where
  "outputs_ok w c w' c' evs \<longleftrightarrow>
     done_grows w w' \<and> same_nodes c c' \<and>
     delivered evs = map (\<lambda>s. sn_value (sends c s)) (accepted evs) \<and>
     (\<forall>a. claims c a evs \<le> 1 \<and> (claims c a evs \<noteq> 0 \<longrightarrow> w a = 0 \<and> w' a \<noteq> 0))"

lemma outputs_ok_before:
  assumes "outputs_ok w1 c1 w' c' evs" "done_grows w w1" "same_nodes c c1"
  shows "outputs_ok w c w' c' evs"
proof -
  have "sn_value (sends c1 s) = sn_value (sends c s)" for s using assms(3) by (simp add: same_nodes_def)
  moreover have "claims c a evs = claims c1 a evs" for a by (rule claims_same_nodes [symmetric]) (rule assms(3))
  moreover have "w a = 0" if "w1 a = 0" for a using done_growsD(2) [OF assms(2)] that .
  ultimately show ?thesis
    using assms unfolding outputs_ok_def
    by (auto intro: done_grows_trans same_nodes_trans)
qed

lemma outputs_ok_match:
  assumes "done_grows w w'" "claims_words w w' c s r" "same_nodes c c'"
  shows "outputs_ok w c w' c' (fulfill_events c s r)"
  using assms claims_fulfill [OF assms(2)] by (auto simp: outputs_ok_def claims_words_def)

lemma send_loop_outputs: "send_loop_outcome dbg s w c w' c' evs \<Longrightarrow> outputs_ok w c w' c' evs"
proof (induction rule: send_loop_outcome.induct)
  case (slo_match c r rs w w')
  then show ?case by (intro outputs_ok_match) (simp_all add: same_nodes_def)
next
  case (slo_skip c r rs w w1 a w' c' evs)
  show ?case by (rule outputs_ok_before [OF slo_skip.IH slo_skip.hyps(2)]) (simp add: same_nodes_def marked_def)
qed (simp_all add: outputs_ok_def same_nodes_def)

lemma receive_loop_outputs: "receive_loop_outcome dbg r w c w' c' evs \<Longrightarrow> outputs_ok w c w' c' evs"
proof (induction rule: receive_loop_outcome.induct)
  case (rlo_match c s ss w w')
  then show ?case by (intro outputs_ok_match) (simp_all add: same_nodes_def)
next
  case (rlo_skip c s ss w w1 a w' c' evs)
  show ?case by (rule outputs_ok_before [OF rlo_skip.IH rlo_skip.hyps(2)]) (simp add: same_nodes_def marked_def)
qed (simp_all add: outputs_ok_def same_nodes_def)

lemma op_outcome_outputs: "op_outcome dbg oper w c w' c' evs \<Longrightarrow> outputs_ok w c w' c' evs"
  by (induction rule: op_outcome.induct)
    (simp_all add: send_loop_outputs receive_loop_outputs, simp_all add: outputs_ok_def same_nodes_def marked_def unqueue_def)

section \<open>Invariants of histories\<close>

definition history_inv :: "bool \<Rightarrow> ('q, nat) ilist_ops \<Rightarrow> ('q, 'v) history \<Rightarrow> bool" where
  "history_inv dbg L h \<longleftrightarrow>
     (let c = abs_channel L (h_chan h) in
        channel_inv c \<and>
        accounts_ok dbg (h_words h) c (set (h_sent h)) (h_unsent h) (set (h_received h)) (h_unreceived h) (h_events h) \<and>
        delivered (h_events h) = map (\<lambda>s. sn_value (sends c s)) (accepted (h_events h)) \<and>
        (\<forall>a. claims c a (h_events h) \<le> 1 \<and> (claims c a (h_events h) \<noteq> 0 \<longrightarrow> h_words h a \<noteq> 0)))"

lemma record_op_simps [simp]:
  "h_words (record_op oper h) = h_words h" "h_chan (record_op oper h) = h_chan h"
  "h_events (record_op oper h) = h_events h"
  by (simp_all add: record_op_def split: channel_op.splits)

lemma history_op_outcome:
  assumes L: "ilist_laws L" and "history_inv dbg L h" "allowed oper h"
    and run: "run_rely done_grows (channel_exec dbg L fuel oper (h_chan h)) (h_words h) (Inr (c', evs)) w'"
  shows "fresh_op oper (abs_channel L (h_chan h))"
    and "op_outcome dbg oper (h_words h) (abs_channel L (h_chan h)) w' (abs_channel L c') evs"
proof -
  have inv: "channel_inv (abs_channel L (h_chan h))"
    and acc: "accounts_ok dbg (h_words h) (abs_channel L (h_chan h)) (set (h_sent h)) (h_unsent h)
      (set (h_received h)) (h_unreceived h) (h_events h)"
    using assms(2) unfolding history_inv_def Let_def by blast+
  show fresh: "fresh_op oper (abs_channel L (h_chan h))"
    using assms(3) acc queued_iff(1,2) [OF inv]
    by (auto simp: fresh_op_def allowed_def accounts_ok_def node_ok_def split: channel_op.splits)
  show "op_outcome dbg oper (h_words h) (abs_channel L (h_chan h)) w' (abs_channel L c') evs"
    by (rule channel_exec_outcome [OF L inv fresh run])
qed

lemma history_step_inv:
  assumes L: "ilist_laws L" and "history_step dbg L h h'" "history_inv dbg L h"
  shows "history_inv dbg L h'"
  using assms(2)
proof cases
  case (hs_words w)
  then show ?thesis
    using assms(3) accounts_ok_grows [OF _ hs_words(2)] by (auto simp: history_inv_def done_grows_def Let_def)
next
  case (hs_op oper fuel c' evs w')
  let ?c = "abs_channel L (h_chan h)" and ?c' = "abs_channel L c'"
  have inv: "channel_inv ?c"
    and acc: "accounts_ok dbg (h_words h) ?c (set (h_sent h)) (h_unsent h) (set (h_received h)) (h_unreceived h) (h_events h)"
    and del: "delivered (h_events h) = map (\<lambda>s. sn_value (sends ?c s)) (accepted (h_events h))"
    and cl: "\<forall>a. claims ?c a (h_events h) \<le> 1 \<and> (claims ?c a (h_events h) \<noteq> 0 \<longrightarrow> h_words h a \<noteq> 0)"
    using assms(3) unfolding history_inv_def Let_def by blast+
  note fresh = history_op_outcome(1) [OF L assms(3) hs_op(2,3)]
    and out = history_op_outcome(2) [OF L assms(3) hs_op(2,3)]
  have outs: "done_grows (h_words h) w'" "same_nodes ?c ?c'"
    "delivered evs = map (\<lambda>s. sn_value (sends ?c s)) (accepted evs)"
    "\<forall>a. claims ?c a evs \<le> 1 \<and> (claims ?c a evs \<noteq> 0 \<longrightarrow> h_words h a = 0 \<and> w' a \<noteq> 0)"
    using op_outcome_outputs [OF out] by (simp_all add: outputs_ok_def)
  have "op_accounts oper dbg w' ?c' (set (h_sent h)) (h_unsent h) (set (h_received h)) (h_unreceived h) (h_events h @ evs)"
    by (rule op_outcome_accounts [OF out inv acc])
      (use hs_op(2) in \<open>simp add: allowed_def split: channel_op.splits\<close>)
  then have acc': "accounts_ok dbg (h_words h') ?c' (set (h_sent h')) (h_unsent h') (set (h_received h'))
      (h_unreceived h') (h_events h')"
    unfolding hs_op(1) by (cases oper) (simp_all add: op_accounts_def record_op_def)
  have val: "sn_value (sends ?c' s) = sn_value (sends ?c s)" for s using outs(2) by (simp add: same_nodes_def)
  have clm: "claims ?c' a (h_events h @ evs) = claims ?c a (h_events h) + claims ?c a evs" for a
    using claims_same_nodes [OF outs(2)] by simp
  have "claims ?c' a (h_events h @ evs) \<le> 1 \<and> (claims ?c' a (h_events h @ evs) \<noteq> 0 \<longrightarrow> w' a \<noteq> 0)" for a
    unfolding clm using cl [THEN spec, of a] outs(4) [THEN spec, of a] done_growsD(1) [OF outs(1), of a] by linarith
  moreover have "channel_inv ?c'" by (rule op_outcome_inv [OF out inv fresh])
  ultimately show ?thesis
    using acc' del outs(3) unfolding history_inv_def hs_op(1) Let_def
    by (simp add: val [simplified])
qed

lemma initial_history_inv: "initial_history L h \<Longrightarrow> history_inv dbg L h"
  by (simp add: initial_history_def history_inv_def channel_inv_def accounts_ok_def node_ok_def Let_def)

lemma reachable_history_inv:
  assumes "ilist_laws L" "reachable_history dbg L h"
  shows "history_inv dbg L h"
proof -
  obtain h0 where "initial_history L h0" "(history_step dbg L)\<^sup>*\<^sup>* h0 h" using assms(2) by (auto simp: reachable_history_def)
  from this(2,1) show ?thesis
    by (induction rule: rtranclp_induct) (auto intro: initial_history_inv history_step_inv [OF assms(1)])
qed

section \<open>Channels without selects are first-in first-out\<close>

definition plain_channel :: "('q, 'v) channel \<Rightarrow> bool" where
  "plain_channel c \<longleftrightarrow> (\<forall>s. select_done (sends c s) = None) \<and> (\<forall>r. select_done (recvs c r) = None)"

lemma plain_same_nodes: "same_nodes c c' \<Longrightarrow> plain_channel c' = plain_channel c"
  by (auto simp: same_nodes_def plain_channel_def)

definition one_side_waits :: "(nat list, 'v) channel \<Rightarrow> bool" where
  "one_side_waits c \<longleftrightarrow> sendq c = [] \<or> recvq c = []"

definition in_order :: "channel_op \<Rightarrow> (nat list, 'v) channel \<Rightarrow> (nat list, 'v) channel \<Rightarrow> 'v event list \<Rightarrow> bool" where
  "in_order oper c c' evs \<longleftrightarrow>
     subseq (accepted evs @ sendq c') (sendq c @ (case oper of Emit_send s \<Rightarrow> [s] | _ \<Rightarrow> [])) \<and>
     subseq (served evs @ recvq c') (recvq c @ (case oper of Emit_receive r \<Rightarrow> [r] | _ \<Rightarrow> []))"

lemma subseq_prefix [simp]: "subseq xs (xs @ ys)"
  using list_emb_append_mono [of "(=)" xs xs "[]" ys] by simp

lemma subseq_remove1: "subseq (remove1 x xs) xs"
  by (induction xs) auto

lemma plain_send_loop:
  assumes "send_loop_outcome dbg s w c w' c' evs" "plain_channel c" "one_side_waits c"
  shows "one_side_waits c' \<and> in_order (Emit_send s) c c' evs"
  using assms(1)
proof cases
  case slo_empty
  then show ?thesis by (simp add: one_side_waits_def in_order_def)
next
  case (slo_match r rs)
  then show ?thesis using assms(3) by (simp add: one_side_waits_def in_order_def)
next
  case (slo_skip r rs w1 a)
  then show ?thesis using assms(2) by (simp add: plain_channel_def)
next
  case (slo_give_up r rs)
  then show ?thesis using assms(2) by (auto simp: plain_channel_def is_same_select_def)
qed

lemma plain_receive_loop:
  assumes "receive_loop_outcome dbg r w c w' c' evs" "plain_channel c" "one_side_waits c"
  shows "one_side_waits c' \<and> in_order (Emit_receive r) c c' evs"
  using assms(1)
proof cases
  case rlo_empty
  then show ?thesis by (simp add: one_side_waits_def in_order_def)
next
  case rlo_closed
  then show ?thesis using assms(3) by (simp add: one_side_waits_def in_order_def)
next
  case (rlo_match s ss)
  then show ?thesis using assms(3) by (simp add: one_side_waits_def in_order_def)
next
  case (rlo_skip s ss w1 a)
  then show ?thesis using assms(2) by (simp add: plain_channel_def)
next
  case (rlo_give_up s ss)
  then show ?thesis using assms(2) by (auto simp: plain_channel_def is_same_select_def)
qed

lemma plain_op_outcome:
  assumes "op_outcome dbg oper w c w' c' evs" "plain_channel c" "one_side_waits c"
  shows "one_side_waits c' \<and> in_order oper c c' evs"
proof -
  have not_same: "\<not> is_same_select (sends c s) (recvs c r)" for s r
    using assms(2) by (simp add: plain_channel_def is_same_select_def)
  from assms(1) show ?thesis
  proof cases
    case (oo_send_loop s)
    then show ?thesis using plain_send_loop assms(2,3) by blast
  next
    case (oo_receive_loop r)
    then show ?thesis using plain_receive_loop assms(2,3) by blast
  qed (use assms(3) not_same in \<open>auto simp: one_side_waits_def in_order_def subseq_remove1\<close>)
qed

definition fifo_inv :: "('q, nat) ilist_ops \<Rightarrow> ('q, 'v) history \<Rightarrow> bool" where
  "fifo_inv L h \<longleftrightarrow>
     plain_channel (h_chan h) \<and> one_side_waits (abs_channel L (h_chan h)) \<and>
     subseq (accepted (h_events h) @ il_items L (sendq (h_chan h))) (h_sent h) \<and>
     subseq (served (h_events h) @ il_items L (recvq (h_chan h))) (h_received h)"

lemma plain_abs [simp]: "plain_channel (abs_channel L c) = plain_channel c"
  by (simp add: plain_channel_def)

lemma subseq_extend:
  assumes "subseq (xs @ q) ys" "subseq (zs @ q') (q @ new)"
  shows "subseq ((xs @ zs) @ q') (ys @ new)"
proof -
  have "subseq (xs @ (zs @ q')) (xs @ (q @ new))" by (rule list_emb_append_mono [OF _ assms(2)]) simp
  also have "xs @ q @ new = (xs @ q) @ new" by simp
  also have "subseq ((xs @ q) @ new) (ys @ new)" by (rule list_emb_append_mono [OF assms(1)]) simp
  finally show ?thesis by simp
qed

lemma history_step_fifo:
  assumes L: "ilist_laws L" and "history_step dbg L h h'" "history_inv dbg L h" "fifo_inv L h"
  shows "fifo_inv L h'"
  using assms(2)
proof cases
  case (hs_words w)
  then show ?thesis using assms(4) by (simp add: fifo_inv_def)
next
  case (hs_op oper fuel c' evs w')
  note out = history_op_outcome(2) [OF L assms(3) hs_op(2,3)]
  have plain: "one_side_waits (abs_channel L c')" "in_order oper (abs_channel L (h_chan h)) (abs_channel L c') evs"
    using plain_op_outcome [OF out] assms(4) by (simp_all add: fifo_inv_def)
  have "plain_channel c'"
    using op_outcome_outputs [OF out] assms(4) plain_same_nodes [of "abs_channel L (h_chan h)" "abs_channel L c'"]
    by (simp add: outputs_ok_def fifo_inv_def)
  moreover have "h_sent h' = h_sent h @ (case oper of Emit_send s \<Rightarrow> [s] | _ \<Rightarrow> [])"
    "h_received h' = h_received h @ (case oper of Emit_receive r \<Rightarrow> [r] | _ \<Rightarrow> [])"
    unfolding hs_op(1) by (cases oper; simp add: record_op_def)+
  ultimately show ?thesis
    using plain assms(4) subseq_extend
    unfolding fifo_inv_def in_order_def hs_op(1) abs_channel_simps record_op_simps
    by (auto simp: hs_op(1))
qed

lemma reachable_fifo:
  assumes L: "ilist_laws L" and "reachable_history dbg L h" "plain_channel (h_chan h)"
  shows "fifo_inv L h"
proof -
  obtain h0 where h0: "initial_history L h0" and steps: "(history_step dbg L)\<^sup>*\<^sup>* h0 h"
    using assms(2) by (auto simp: reachable_history_def)
  have "history_inv dbg L h \<and> plain_channel (h_chan h) = plain_channel (h_chan h0) \<and>
      (plain_channel (h_chan h0) \<longrightarrow> fifo_inv L h)"
    using steps
  proof (induction rule: rtranclp_induct)
    case base
    then show ?case using h0 initial_history_inv [OF h0]
      by (simp add: initial_history_def fifo_inv_def one_side_waits_def)
  next
    case (step h1 h2)
    have inv2: "history_inv dbg L h2" using history_step_inv [OF L step.hyps(2)] step.IH by simp
    have "plain_channel (h_chan h2) = plain_channel (h_chan h1)"
      using step.hyps(2)
    proof cases
      case (hs_op oper fuel c' evs w')
      have "same_nodes (abs_channel L (h_chan h1)) (abs_channel L c')"
        using op_outcome_outputs [OF history_op_outcome(2) [OF L _ hs_op(2,3)]] step.IH by (simp add: outputs_ok_def)
      then show ?thesis using plain_same_nodes by (fastforce simp: hs_op(1))
    qed simp
    then show ?case using inv2 step.IH history_step_fifo [OF L step.hyps(2)] by blast
  qed
  then show ?thesis using assms(3) by blast
qed

end
