(* ===== verification/Channel_Properties.thy ===== *)
theory Channel_Properties
  imports Channel_History
begin

text \<open>
  The properties of the channel, over every history its users and the selects around it can make,
  and the examples that show their hypotheses can hold.
\<close>

section \<open>An example\<close>

text \<open>
  Two senders, a receiver and the close of a channel whose second sender is a case of a select.
\<close>

definition ex_channel :: "(nat list, int) channel" where
  "ex_channel = \<lparr>this_channel = 1, sendq = [], recvq = [], is_closed = False,
     sends = (\<lambda>s. new_send_node (10 + int s) (if s = 0 then None else Some 64)),
     recvs = (\<lambda>r. new_recv_node None)\<rparr>"

definition ex_start :: "(nat list, int) channel \<Rightarrow> (nat list, int) history" where
  "ex_start c = \<lparr>h_words = (\<lambda>_. 0), h_chan = c, h_sent = [], h_received = [],
     h_unsent = {}, h_unreceived = {}, h_events = []\<rparr>"

definition ex_do :: "channel_op \<Rightarrow> (nat list, int) history \<Rightarrow> (nat list, int) history" where
  "ex_do oper h =
     (case run (channel_exec True list_ops 9 oper (h_chan h)) (h_words h) of
        (Inr (c, evs), w) \<Rightarrow> record_op oper (h\<lparr>h_words := w, h_chan := c, h_events := h_events h @ evs\<rparr>)
      | _ \<Rightarrow> h)"

lemma ex_do_step:
  assumes "reachable_history True list_ops h" "allowed oper h"
    and "\<not> isl (fst (run (channel_exec True list_ops 9 oper (h_chan h)) (h_words h)))"
  shows "reachable_history True list_ops (ex_do oper h)"
proof -
  obtain c evs w where run: "run (channel_exec True list_ops 9 oper (h_chan h)) (h_words h) = (Inr (c, evs), w)"
    using assms(3) by (metis prod.collapse sum.collapse(2))
  have "history_step True list_ops h (ex_do oper h)"
    unfolding ex_do_def run
    by simp (rule hs_op [OF assms(2) run_rely_of_run [OF run]], simp)
  then show ?thesis using assms(1) unfolding reachable_history_def by (meson rtranclp.rtrancl_into_rtrancl)
qed

lemma reachable_words:
  assumes "reachable_history dbg L h" "done_grows (h_words h) w"
  shows "reachable_history dbg L (h\<lparr>h_words := w\<rparr>)"
proof -
  obtain h0 where h0: "initial_history L h0" "(history_step dbg L)\<^sup>*\<^sup>* h0 h"
    using assms(1) by (auto simp: reachable_history_def)
  have "history_step dbg L h (h\<lparr>h_words := w\<rparr>)" by (rule hs_words [OF assms(2)])
  with h0(2) have "(history_step dbg L)\<^sup>*\<^sup>* h0 (h\<lparr>h_words := w\<rparr>)" by (rule rtranclp.rtrancl_into_rtrancl)
  with h0(1) show ?thesis unfolding reachable_history_def by blast
qed

lemma ex_start_reachable: "reachable_history dbg list_ops (ex_start ex_channel)"
  unfolding reachable_history_def
  by (rule exI [of _ "ex_start ex_channel"])
    (simp add: initial_history_def ex_start_def ex_channel_def list_ops_def new_send_node_def new_recv_node_def)

definition ex_history :: "(nat list, int) history" where
  "ex_history = ex_do (Try_cancel_send 1) (ex_do Emit_close (ex_do (Emit_receive 0) (ex_do (Emit_send 1) (ex_do (Emit_send 0) (ex_start ex_channel)))))"

lemma ex_history_events:
  "h_events ex_history = [Recv_event 0 (Call_value 10), Send_event 0 (Call_value ()),
     Close_event (Call_value ()), Send_event 1 Call_null]"
  by code_simp

lemma ex_history_reachable: "reachable_history True list_ops ex_history"
  unfolding ex_history_def
proof (intro ex_do_step ex_start_reachable)
qed (code_simp)+

section \<open>Callbacks\<close>

text \<open>
  C3: in every history of a channel, whatever the other channels and selects do to the \<open>done\<close> words,
  no node's slot is called twice, and a node that was emitted and cancelled, or that was emitted and
  neither waits in a queue nor for its cancellation, has had its slot called exactly once.
\<close>

theorem channel_signals_exactly_once:
  assumes "ilist_laws L" and "reachable_history dbg L h"
  shows "send_calls s (h_events h) \<le> 1 \<and> recv_calls r (h_events h) \<le> 1 \<and>
     (s \<in> set (h_sent h) \<inter> h_unsent h \<longrightarrow> send_calls s (h_events h) = 1) \<and>
     (r \<in> set (h_received h) \<inter> h_unreceived h \<longrightarrow> recv_calls r (h_events h) = 1) \<and>
     (s \<in> set (h_sent h) \<and> queued_in (sends (h_chan h) s) = None \<and> \<not> requested_cancel (sends (h_chan h) s) \<longrightarrow>
        send_calls s (h_events h) = 1) \<and>
     (r \<in> set (h_received h) \<and> queued_in (recvs (h_chan h) r) = None \<and> \<not> requested_cancel (recvs (h_chan h) r) \<longrightarrow>
        recv_calls r (h_events h) = 1)"
proof -
  have "node_ok dbg (h_words h) (sends (h_chan h) s) (s \<in> set (h_sent h)) (s \<in> h_unsent h) (send_calls s (h_events h))"
    "node_ok dbg (h_words h) (recvs (h_chan h) r) (r \<in> set (h_received h)) (r \<in> h_unreceived h) (recv_calls r (h_events h))"
    using reachable_history_inv [OF assms] by (simp_all add: history_inv_def accounts_ok_def Let_def)
  then show ?thesis by (auto simp: node_ok_def)
qed

lemma channel_signals_exactly_once_witness:
  "send_calls 1 (h_events ex_history) = 1 \<and> recv_calls 0 (h_events ex_history) = 1"
proof -
  have "1 \<in> set (h_sent ex_history) \<inter> h_unsent ex_history"
    "0 \<in> set (h_received ex_history) \<and> queued_in (recvs (h_chan ex_history) 0) = None \<and>
      \<not> requested_cancel (recvs (h_chan ex_history) 0)" by code_simp+
  then show ?thesis
    using channel_signals_exactly_once [OF list_ops_laws ex_history_reachable, of 1 0] by blast
qed

text \<open>
  C4: values are neither lost, duplicated nor invented: the values given to receivers, in order, are
  those of the sends whose slots were told of success, in the same order, and no send is told twice.
\<close>

theorem channel_delivers_what_was_accepted:
  assumes "ilist_laws L" and "reachable_history dbg L h"
  shows "delivered (h_events h) = map (\<lambda>s. sn_value (sends (h_chan h) s)) (accepted (h_events h)) \<and>
     distinct (accepted (h_events h)) \<and> set (accepted (h_events h)) \<subseteq> set (h_sent h)"
proof -
  have inv: "history_inv dbg L h" by (rule reachable_history_inv [OF assms])
  have ok: "node_ok dbg (h_words h) (sends (h_chan h) s) (s \<in> set (h_sent h)) (s \<in> h_unsent h) (send_calls s (h_events h))" for s
    using inv by (simp add: history_inv_def accounts_ok_def Let_def)
  then have "send_calls s (h_events h) \<le> of_bool (s \<in> set (h_sent h))" for s by (auto simp: node_ok_def)
  moreover have "count_list (accepted evs) s \<le> send_calls s evs" for s and evs :: "'b event list"
    by (induction evs) (auto simp: accepted_def map_filter_simps split: event.splits callback_call.splits)
  ultimately have le: "count_list (accepted (h_events h)) s \<le> of_bool (s \<in> set (h_sent h))" for s
    using le_trans by blast
  have "count_list (accepted (h_events h)) s \<le> 1" for s
    using le [of s] by (rule le_trans) (simp add: of_bool_def)
  then have "distinct (accepted (h_events h))" by (rule distinct_if_count_le_1)
  moreover have "set (accepted (h_events h)) \<subseteq> set (h_sent h)"
    using le by (metis count_list_0_iff le_zero_eq of_bool_eq(1) subsetI)
  ultimately show ?thesis using inv by (simp add: history_inv_def Let_def)
qed

lemma channel_delivers_what_was_accepted_witness:
  "delivered (h_events ex_history) = map (\<lambda>s. sn_value (sends (h_chan ex_history) s)) (accepted (h_events ex_history)) \<and>
   distinct (accepted (h_events ex_history)) \<and> set (accepted (h_events ex_history)) \<subseteq> set (h_sent ex_history)"
  by (rule channel_delivers_what_was_accepted [OF list_ops_laws ex_history_reachable])

section \<open>Selects\<close>

text \<open>
  C5: over the whole history of a channel, at most one callback claims a given select: the word was
  0 before it, it stays nonzero ever after, and no other node of that select gets a claiming call.
\<close>

theorem channel_claims_select_once:
  assumes "ilist_laws L" and "reachable_history dbg L h"
  shows "claims (h_chan h) a (h_events h) \<le> 1 \<and> (claims (h_chan h) a (h_events h) = 1 \<longrightarrow> h_words h a \<noteq> 0)"
proof -
  have "claims (abs_channel L (h_chan h)) a (h_events h) = claims (h_chan h) a (h_events h)"
    by (rule claims_same_nodes) (simp add: same_nodes_def)
  moreover have "claims (abs_channel L (h_chan h)) a (h_events h) \<le> 1 \<and>
      (claims (abs_channel L (h_chan h)) a (h_events h) \<noteq> 0 \<longrightarrow> h_words h a \<noteq> 0)"
    using reachable_history_inv [OF assms] unfolding history_inv_def Let_def by blast
  ultimately show ?thesis by simp
qed

definition ex_claim :: "(nat list, int) history" where
  "ex_claim = ex_do (Emit_receive 0) (ex_do (Emit_send 1) (ex_start ex_channel))"

lemma ex_claim_reachable: "reachable_history True list_ops ex_claim"
  unfolding ex_claim_def
proof (intro ex_do_step ex_start_reachable)
qed (code_simp)+

lemma channel_claims_select_once_witness:
  "claims (h_chan ex_claim) 64 (h_events ex_claim) = 1 \<and> h_words ex_claim 64 \<noteq> 0"
proof -
  have "claims (h_chan ex_claim) 64 (h_events ex_claim) = 1" by code_simp
  then show ?thesis
    using channel_claims_select_once [OF list_ops_laws ex_claim_reachable, of 64] by blast
qed

text \<open>
  In a build that checks assertions, a node the channel has set aside (emitted, unqueued, not
  answered, waiting for its cancellation) always is a case of a select whose word is set, so that
  select's winner is bound to cancel it.
\<close>

theorem channel_sets_aside_only_done_selects:
  assumes "ilist_laws L" and "reachable_history True L h"
    and "s \<in> set (h_sent h)" and "s \<notin> h_unsent h" and "requested_cancel (sends (h_chan h) s)"
  shows "\<exists>a. select_done (sends (h_chan h) s) = Some a \<and> h_words h a \<noteq> 0"
  using reachable_history_inv [OF assms(1,2)] assms(3-5)
  by (auto simp: history_inv_def accounts_ok_def node_ok_def Let_def)

definition ex_aside :: "(nat list, int) history" where
  "ex_aside = ex_do (Emit_send 1) ((ex_do (Emit_receive 0) (ex_start ex_channel))\<lparr>h_words := (\<lambda>_. 1)\<rparr>)"

lemma ex_aside_reachable: "reachable_history True list_ops ex_aside"
proof -
  have "reachable_history True list_ops (ex_do (Emit_receive 0) (ex_start ex_channel))"
    by (intro ex_do_step ex_start_reachable) (code_simp)+
  then have "reachable_history True list_ops ((ex_do (Emit_receive 0) (ex_start ex_channel))\<lparr>h_words := (\<lambda>_. 1)\<rparr>)"
    by (rule reachable_words) (simp add: done_grows_def)
  then show ?thesis unfolding ex_aside_def by (rule ex_do_step) (code_simp)+
qed

lemma channel_sets_aside_only_done_selects_witness:
  "\<exists>a. select_done (sends (h_chan ex_aside) 1) = Some a \<and> h_words ex_aside a \<noteq> 0"
proof (rule channel_sets_aside_only_done_selects [OF list_ops_laws ex_aside_reachable])
qed (code_simp)+

text \<open>
  The guard against matching two cases of one select looks only at the last waiting receiver.
  When the first one is a case of the sender's select and the last is not, a release build gives
  up: nothing is called, the send is not queued but set aside although its select is not done, and
  the receivers wait on, the free ones too.
\<close>

theorem send_gives_up_on_own_select:
  assumes "ilist_laws L" and "il_items L (recvq c) = r # rs" and "distinct (r # rs)"
    and "queued_in (recvs c r) = Some (this_channel c)"
    and "select_done (sends c s) = Some a" and "select_done (recvs c r) = Some a"
    and "select_done (recvs c (last rs)) \<noteq> Some a" and "rs \<noteq> []"
    and "\<not> is_closed c" and "\<not> requested_cancel (sends c s)" and "w a = 0"
  shows "\<exists>c'. run (send False L (Suc fuel) s c) w = (Inr (c', []), w) \<and>
     il_items L (recvq c') = r # rs \<and> sendq c' = sendq c \<and> recvs c' = recvs c \<and>
     requested_cancel (sends c' s) \<and> queued_in (sends c' s) = queued_in (sends c s)"
proof -
  note laws = ilist_lawsD [OF assms(1)]
  let ?q = "snd (il_pop_front L (recvq c))"
  have pop: "fst (il_pop_front L (recvq c)) = Some r" "il_items L ?q = rs" using laws(5,6) assms(2) by simp_all
  have "il_back L (recvq c) = Some (last rs)" using laws(7) assms(2,8) by simp
  then have "send False L (Suc fuel) s c = send_loop False L (Suc fuel) s c"
    using assms(5,7,9,10) by (auto simp: send_def is_same_select_def)
  moreover have "(recvs c)(r := (recvs c r)\<lparr>queued_in := Some (this_channel c)\<rparr>) = recvs c"
    using assms(4) by (cases "recvs c r") auto
  moreover have "il_items L (il_push_front L r ?q) = r # rs" using laws(3) pop assms(3) by simp
  ultimately show ?thesis
    using assms(5,6,11) pop
    by (simp add: send_loop_Some try_fulfill_impl_def select_is_done_def read_done_def debug_assert_def
        is_same_select_def Let_def pbind_assoc del: send_loop.simps)
qed

definition ex_same_select :: "(nat list, int) channel" where
  "ex_same_select = \<lparr>this_channel = 1, sendq = [], recvq = [0, 1], is_closed = False,
     sends = (\<lambda>s. new_send_node 5 (Some 64)),
     recvs = (\<lambda>r. (new_recv_node (if r = 0 then Some 64 else None))\<lparr>queued_in := Some 1\<rparr>)\<rparr>"

lemma send_gives_up_on_own_select_witness:
  "\<exists>c'. run (send False list_ops (Suc 5) 7 ex_same_select) (\<lambda>_. 0) = (Inr (c', []), \<lambda>_. 0) \<and>
     il_items list_ops (recvq c') = 0 # [1] \<and> sendq c' = sendq ex_same_select \<and> recvs c' = recvs ex_same_select \<and>
     requested_cancel (sends c' 7) \<and> queued_in (sends c' 7) = queued_in (sends ex_same_select 7)"
  by (rule send_gives_up_on_own_select [OF list_ops_laws])
    (simp_all add: ex_same_select_def list_ops_def new_send_node_def new_recv_node_def)

section \<open>Order, termination, closing\<close>

text \<open>
  C6: on a channel none of whose users is a select, sends are accepted in the order they were
  emitted and receives are served in theirs, the waiting ones follow in that order, and never do
  senders and receivers wait at the same time.
\<close>

theorem channel_fifo:
  assumes "ilist_laws L" and "reachable_history dbg L h" and "plain_channel (h_chan h)"
  shows "subseq (accepted (h_events h) @ il_items L (sendq (h_chan h))) (h_sent h) \<and>
     subseq (served (h_events h) @ il_items L (recvq (h_chan h))) (h_received h) \<and>
     (il_items L (sendq (h_chan h)) = [] \<or> il_items L (recvq (h_chan h)) = [])"
  using reachable_fifo [OF assms] by (simp add: fifo_inv_def one_side_waits_def)

definition ex_plain :: "(nat list, int) history" where
  "ex_plain = ex_do (Emit_receive 0) (ex_do (Emit_send 1) (ex_do (Emit_send 0)
     (ex_start (ex_channel\<lparr>sends := (\<lambda>s. new_send_node (int s) None)\<rparr>))))"

lemma ex_plain_reachable: "reachable_history True list_ops ex_plain"
proof -
  have start: "reachable_history True list_ops (ex_start (ex_channel\<lparr>sends := (\<lambda>s. new_send_node (int s) None)\<rparr>))"
    unfolding reachable_history_def
    by (intro exI [of _ "ex_start (ex_channel\<lparr>sends := (\<lambda>s. new_send_node (int s) None)\<rparr>)"])
      (simp add: initial_history_def ex_start_def ex_channel_def list_ops_def new_send_node_def new_recv_node_def)
  show ?thesis
    unfolding ex_plain_def
  proof (intro ex_do_step start)
  qed (code_simp)+
qed

lemma ex_plain_chan: "plain_channel (h_chan ex_plain)"
proof -
  have "same_nodes (ex_channel\<lparr>sends := (\<lambda>s. new_send_node (int s) None)\<rparr>) (h_chan ex_plain)"
    by (simp add: ex_plain_def ex_do_def ex_start_def ex_channel_def channel_exec_def send_def send_enqueue_def
        receive_def receive_enqueue_def list_ops_def new_send_node_def new_recv_node_def is_same_select_def
        try_fulfill_impl_def same_nodes_def record_op_def eval_nat_numeral Let_def)
  moreover have "plain_channel (ex_channel\<lparr>sends := (\<lambda>s. new_send_node (int s) None)\<rparr>)"
    by (simp add: plain_channel_def ex_channel_def new_send_node_def new_recv_node_def)
  ultimately show ?thesis using plain_same_nodes by blast
qed

lemma channel_fifo_witness:
  "subseq (accepted (h_events ex_plain) @ il_items list_ops (sendq (h_chan ex_plain))) (h_sent ex_plain) \<and>
   subseq (served (h_events ex_plain) @ il_items list_ops (recvq (h_chan ex_plain))) (h_received ex_plain) \<and>
   (il_items list_ops (sendq (h_chan ex_plain)) = [] \<or> il_items list_ops (recvq (h_chan ex_plain)) = [])"
  by (rule channel_fifo [OF list_ops_laws ex_plain_reachable ex_plain_chan])






end
