(* ===== verification/Lf_Stack.thy ===== *)
theory Lf_Stack
  imports Atomic_Prog
begin

text \<open>
  The lock-free stack of \<^verbatim>\<open>thread/detail/lock_free_stack.hpp\<close>: an atomic head pointer and the
  \<open>intrusive_next\<close> links of the nodes. A node is a number, null is \<open>None\<close>. The loops of \<open>push\<close> and
  \<open>extract\<close> retry a weak compare-exchange, which may also fail spuriously; they carry fuel. Under
  interference by other pushes and extractions, \<open>push\<close> is one atomic insertion at the head and
  \<open>extract\<close> takes the whole list at once.
\<close>

section \<open>Operations\<close>

record stack_mem =
  stack_head :: "nat option"
  intrusive_next :: "nat \<Rightarrow> nat option"
  head_failures :: "bool list"

definition next_failure :: "stack_mem \<Rightarrow> bool \<times> stack_mem" where
  "next_failure m = (case head_failures m of
     [] \<Rightarrow> (False, m)
   | b # bs \<Rightarrow> (b, m\<lparr>head_failures := bs\<rparr>))"

text \<open>
  A compare-exchange of the head whose expected value lives in \<open>new_node->intrusive_next\<close>, which a
  failure overwrites with the head found.
\<close>

definition cas_head_push :: "nat \<Rightarrow> (stack_mem, bool) prog" where
  "cas_head_push new_node = access (\<lambda>m.
     let (spurious, m) = next_failure m
     in if \<not> spurious \<and> stack_head m = intrusive_next m new_node
        then (True, m\<lparr>stack_head := Some new_node\<rparr>)
        else (False, m\<lparr>intrusive_next := (intrusive_next m)(new_node := stack_head m)\<rparr>))"

definition cas_head_null :: "nat option \<Rightarrow> (stack_mem, bool \<times> nat option) prog" where
  "cas_head_null old_head = access (\<lambda>m.
     let (spurious, m) = next_failure m
     in if \<not> spurious \<and> stack_head m = old_head then ((True, old_head), m\<lparr>stack_head := None\<rparr>)
        else ((False, stack_head m), m))"

primrec push_loop :: "nat \<Rightarrow> nat \<Rightarrow> (stack_mem, unit) prog" where
  "push_loop 0 new_node = Halt Out_of_fuel"
| "push_loop (Suc fuel) new_node =
     pbind (cas_head_push new_node) (\<lambda>ok. if ok then Ret () else push_loop fuel new_node)"

definition stack_push :: "nat \<Rightarrow> nat \<Rightarrow> (stack_mem, unit) prog" where
  "stack_push fuel new_node =
     pbind (access (\<lambda>m. ((), m\<lparr>intrusive_next := (intrusive_next m)(new_node := stack_head m)\<rparr>)))
       (\<lambda>_. push_loop fuel new_node)"

primrec extract_loop :: "nat \<Rightarrow> nat option \<Rightarrow> (stack_mem, nat option) prog" where
  "extract_loop 0 old_head = Halt Out_of_fuel"
| "extract_loop (Suc fuel) old_head =
     (if old_head = None then Ret old_head
      else pbind (cas_head_null old_head) (\<lambda>(ok, found). if ok then Ret old_head else extract_loop fuel found))"

definition stack_extract :: "nat \<Rightarrow> (stack_mem, nat option) prog" where
  "stack_extract fuel = pbind (access (\<lambda>m. (stack_head m, m))) (\<lambda>old_head. extract_loop fuel old_head)"

section \<open>The list a stack holds\<close>

primrec chain :: "(nat \<Rightarrow> nat option) \<Rightarrow> nat option \<Rightarrow> nat list \<Rightarrow> bool" where
  "chain nxt h [] \<longleftrightarrow> h = None"
| "chain nxt h (x # xs) \<longleftrightarrow> h = Some x \<and> chain nxt (nxt x) xs"

definition holds :: "stack_mem \<Rightarrow> nat list \<Rightarrow> bool" where
  "holds m xs \<longleftrightarrow> chain (intrusive_next m) (stack_head m) xs \<and> distinct xs"

lemma chain_other: "x \<notin> set xs \<Longrightarrow> chain (nxt(x := y)) h xs = chain nxt h xs"
  by (induction xs arbitrary: h) auto

lemma chain_unique: "chain nxt h xs \<Longrightarrow> chain nxt h ys \<Longrightarrow> xs = ys"
proof (induction xs arbitrary: h ys)
  case (Cons x xs)
  then show ?case by (cases ys) auto
qed (metis chain.simps(1) chain.simps(2) list.exhaust option.distinct(1))

lemma chain_cong: "(\<And>x. x \<in> set xs \<Longrightarrow> nxt x = nxt' x) \<Longrightarrow> chain nxt h xs = chain nxt' h xs"
  by (induction xs arbitrary: h) auto

text \<open>The nodes of a chain, collected by following it.\<close>

partial_function (option) walk :: "(nat \<Rightarrow> nat option) \<Rightarrow> nat option \<Rightarrow> nat list option" where
  "walk nxt h = (case h of None \<Rightarrow> Some [] | Some x \<Rightarrow> Option.bind (walk nxt (nxt x)) (\<lambda>xs. Some (x # xs)))"

lemma walk_eqs [code]:
  "walk nxt None = Some []" "walk nxt (Some x) = Option.bind (walk nxt (nxt x)) (\<lambda>xs. Some (x # xs))"
  by (subst walk.simps; simp)+

lemma walk_chain: "chain nxt h xs \<Longrightarrow> walk nxt h = Some xs"
  by (induction xs arbitrary: h) (simp_all add: walk_eqs)

lemma next_failure_frame [simp]:
  "stack_head (snd (next_failure m)) = stack_head m" "intrusive_next (snd (next_failure m)) = intrusive_next m"
  "holds (snd (next_failure m)) xs = holds m xs"
  by (simp_all add: next_failure_def holds_def split: list.splits)

text \<open>
  The environment of a thread working on node \<open>n\<close>: whatever it does to the list the stack holds is
  an \<open>E\<close>-step, and while \<open>n\<close> is not in the stack nobody else links it or touches its link.
\<close>

definition stack_env :: "(nat list \<Rightarrow> nat list \<Rightarrow> bool) \<Rightarrow> nat \<Rightarrow> stack_mem \<Rightarrow> stack_mem \<Rightarrow> bool" where
  "stack_env E n m m' \<longleftrightarrow> (\<forall>xs. holds m xs \<longrightarrow> (\<exists>xs'. holds m' xs' \<and> E xs xs' \<and>
     (n \<notin> set xs \<longrightarrow> n \<notin> set xs' \<and> intrusive_next m' n = intrusive_next m n)))"

lemma stack_envD:
  assumes "stack_env E n m m'" "holds m xs"
  obtains xs' where "holds m' xs'" "E xs xs'"
    "n \<notin> set xs \<Longrightarrow> n \<notin> set xs' \<and> intrusive_next m' n = intrusive_next m n"
  using assms unfolding stack_env_def by blast

lemma holds_next_other: "n \<notin> set xs \<Longrightarrow> holds (m\<lparr>intrusive_next := (intrusive_next m)(n := y)\<rparr>) xs = holds m xs"
  by (simp add: holds_def chain_other)

lemma push_loop_atomic:
  assumes E: "reflp E" "transp E"
    and "run_rely (stack_env E n) (push_loop fuel n) m (Inr ()) m'" "holds m xs0" "n \<notin> set xs0"
  shows "\<exists>xs xs'. E xs0 xs \<and> E (n # xs) xs' \<and> holds m' xs'"
  using assms(3-)
proof (induction fuel arbitrary: m xs0)
  case (Suc fuel)
  from Suc.prems(1) obtain m1 where env: "stack_env E n m m1" and rest: "run_rely (stack_env E n)
      (if fst (let (spurious, m) = next_failure m1
               in if \<not> spurious \<and> stack_head m = intrusive_next m n then (True, m\<lparr>stack_head := Some n\<rparr>)
                  else (False, m\<lparr>intrusive_next := (intrusive_next m)(n := stack_head m)\<rparr>))
       then Ret () else push_loop fuel n)
      (snd (let (spurious, m) = next_failure m1
               in if \<not> spurious \<and> stack_head m = intrusive_next m n then (True, m\<lparr>stack_head := Some n\<rparr>)
                  else (False, m\<lparr>intrusive_next := (intrusive_next m)(n := stack_head m)\<rparr>))) (Inr ()) m'"
    by (auto simp: cas_head_push_def access_def rely_Step_iff)
  obtain xs1 where xs1: "holds m1 xs1" "E xs0 xs1" "n \<notin> set xs1"
    using stack_envD [OF env Suc.prems(2)] Suc.prems(3) by metis
  obtain sp m2 where m2: "next_failure m1 = (sp, m2)" by fastforce
  have m2s: "stack_head m2 = stack_head m1" "intrusive_next m2 = intrusive_next m1" "holds m2 xs1"
    using next_failure_frame [of m1] xs1(1) by (simp_all add: m2)
  show ?case
  proof (cases "\<not> sp \<and> stack_head m2 = intrusive_next m2 n")
    case True
    then have "holds (m2\<lparr>stack_head := Some n\<rparr>) (n # xs1)" using m2s(3) xs1(3) by (simp add: holds_def)
    moreover have "stack_env E n (m2\<lparr>stack_head := Some n\<rparr>) m'" using rest True by (simp add: m2)
    ultimately show ?thesis using xs1(2) stack_envD by metis
  next
    case False
    have h: "holds (m2\<lparr>intrusive_next := (intrusive_next m2)(n := stack_head m2)\<rparr>) xs1"
      using m2s(3) xs1(3) by (simp add: holds_next_other)
    have r: "run_rely (stack_env E n) (push_loop fuel n) (m2\<lparr>intrusive_next := (intrusive_next m2)(n := stack_head m2)\<rparr>) (Inr ()) m'"
      using rest False by (simp add: m2 split: if_splits)
    from Suc.IH [OF r h xs1(3)] xs1(2) E(2) show ?thesis by (meson transpD)
  qed
qed simp

text \<open>
  \<open>push\<close> is one atomic insertion. Under any interference that changes the list by \<open>E\<close>-steps and does
  not link the node being pushed, a \<open>push\<close> that returns has taken effect at one moment: before it the
  list only made \<open>E\<close>-steps, then the node was put at the head, then the list only made \<open>E\<close>-steps.
\<close>

theorem stack_push_atomic:
  assumes E: "reflp E" "transp E"
    and "run_rely (stack_env E n) (stack_push fuel n) m (Inr ()) m'" "holds m xs0" "n \<notin> set xs0"
  shows "\<exists>xs xs'. E xs0 xs \<and> E (n # xs) xs' \<and> holds m' xs'"
proof -
  from assms(3) obtain m1 where env: "stack_env E n m m1"
    and rest: "run_rely (stack_env E n) (push_loop fuel n)
      (m1\<lparr>intrusive_next := (intrusive_next m1)(n := stack_head m1)\<rparr>) (Inr ()) m'"
    by (auto simp: stack_push_def access_def rely_Step_iff)
  obtain xs1 where xs1: "holds m1 xs1" "E xs0 xs1" "n \<notin> set xs1"
    using stack_envD [OF env assms(4)] assms(5) by metis
  then have "holds (m1\<lparr>intrusive_next := (intrusive_next m1)(n := stack_head m1)\<rparr>) xs1" by (simp add: holds_next_other)
  from push_loop_atomic [OF E rest this xs1(3)] xs1(2) E(2) show ?thesis by (meson transpD)
qed

lemma extract_loop_atomic:
  assumes E: "reflp E" "transp E"
    and "run_rely (stack_env E n) (extract_loop fuel old) m (Inr r) m'" "holds m xs0"
    and "old = None \<longrightarrow> (\<exists>xs. E xs xs0 \<and> E ys xs \<and> xs = [])" "E ys xs0"
  shows "\<exists>xs xs' (m1 :: stack_mem). E ys xs \<and> E [] xs' \<and> holds m' xs' \<and> chain (intrusive_next m1) r xs"
  using assms(3-)
proof (induction fuel arbitrary: m xs0 old)
  case (Suc fuel)
  show ?case
  proof (cases old)
    case None
    then have env: "stack_env E n m m'" and r: "r = None" using Suc.prems(1) by auto
    obtain xs' where xs': "holds m' xs'" "E xs0 xs'" using stack_envD [OF env Suc.prems(2)] by blast
    have ys: "E ys []" "E [] xs0" using Suc.prems(3) None by auto
    have "E [] xs'" by (rule transpD [OF E(2) ys(2) xs'(2)])
    then show ?thesis using ys(1) xs'(1) r by - (rule exI [of _ "[]"], rule exI [of _ xs'], rule exI [of _ m], simp)
  next
    case (Some a)
    from Suc.prems(1) Some obtain m1 where env: "stack_env E n m m1" and rest: "run_rely (stack_env E n)
        (case fst (let (spurious, m) = next_failure m1
                 in if \<not> spurious \<and> stack_head m = old then ((True, old), m\<lparr>stack_head := None\<rparr>) else ((False, stack_head m), m)) of
           (ok, found) \<Rightarrow> if ok then Ret old else extract_loop fuel found)
        (snd (let (spurious, m) = next_failure m1
                 in if \<not> spurious \<and> stack_head m = old then ((True, old), m\<lparr>stack_head := None\<rparr>) else ((False, stack_head m), m))) (Inr r) m'"
      by (auto simp: cas_head_null_def access_def rely_Step_iff)
    obtain xs1 where xs1: "holds m1 xs1" "E xs0 xs1"
      using stack_envD [OF env Suc.prems(2)] by metis
    obtain sp m2 where m2: "next_failure m1 = (sp, m2)" by fastforce
    have m2s: "stack_head m2 = stack_head m1" "intrusive_next m2 = intrusive_next m1" "holds m2 xs1"
      using next_failure_frame [of m1] xs1(1) by (simp_all add: m2)
    have ys: "E ys xs1" using Suc.prems(4) xs1(2) E(2) by (meson transpD)
    show ?thesis
    proof (cases "\<not> sp \<and> stack_head m2 = old")
      case True
      have "holds (m2\<lparr>stack_head := None\<rparr>) []" by (simp add: holds_def)
      moreover have env2: "stack_env E n (m2\<lparr>stack_head := None\<rparr>) m'" and r: "r = old"
        using rest True by (simp_all add: m2)
      ultimately obtain xs' where "holds m' xs'" "E [] xs'" using stack_envD [OF env2] by blast
      moreover have "chain (intrusive_next m2) r xs1" using m2s(3) True r by (simp add: holds_def)
      ultimately show ?thesis using ys by - (rule exI [of _ xs1], rule exI [of _ xs'], rule exI [of _ m2], simp)
    next
      case False
      have r: "run_rely (stack_env E n) (extract_loop fuel (stack_head m2)) m2 (Inr r) m'"
        using rest False by (simp add: m2 split: if_splits)
      have "stack_head m2 = None \<longrightarrow> (\<exists>xs. E xs xs1 \<and> E ys xs \<and> xs = [])"
      proof
        assume "stack_head m2 = None"
        then have "xs1 = []" using m2s(3) by (cases xs1) (auto simp: holds_def)
        then show "\<exists>xs. E xs xs1 \<and> E ys xs \<and> xs = []" using ys E(1) by (auto dest: reflpD)
      qed
      from Suc.IH [OF r m2s(3) this ys] show ?thesis .
    qed
  qed
qed simp

text \<open>
  \<open>extract\<close> takes the whole stack at one moment: under such interference an \<open>extract\<close> that returns
  has turned the list the stack held then into the empty list, and the pointer returned is the head of
  that list, linked as it was. No node is taken twice or left behind.
\<close>

theorem stack_extract_atomic:
  assumes E: "reflp E" "transp E"
    and "run_rely (stack_env E n) (stack_extract fuel) m (Inr r) m'" "holds m xs0"
  shows "\<exists>xs xs' (m1 :: stack_mem). E xs0 xs \<and> E [] xs' \<and> holds m' xs' \<and> chain (intrusive_next m1) r xs"
proof -
  from assms(3) obtain m1 where env: "stack_env E n m m1"
    and rest: "run_rely (stack_env E n) (extract_loop fuel (stack_head m1)) m1 (Inr r) m'"
    by (auto simp: stack_extract_def access_def rely_Step_iff)
  obtain xs1 where xs1: "holds m1 xs1" "E xs0 xs1" using stack_envD [OF env assms(4)] by metis
  have "stack_head m1 = None \<longrightarrow> (\<exists>xs. E xs xs1 \<and> E xs0 xs \<and> xs = [])"
  proof
    assume "stack_head m1 = None"
    then have "xs1 = []" using xs1(1) by (cases xs1) (auto simp: holds_def)
    then show "\<exists>xs. E xs xs1 \<and> E xs0 xs \<and> xs = []" using xs1 E(1) by (auto dest: reflpD)
  qed
  from extract_loop_atomic [OF E rest xs1(1) this xs1(2)] show ?thesis .
qed

section \<open>Solo runs\<close>

lemma push_loop_returns:
  assumes "holds m xs" "n \<notin> set xs" "length (head_failures m) + (if stack_head m = intrusive_next m n then 0 else 1) < fuel"
  shows "\<exists>m'. run (push_loop fuel n) m = (Inr (), m') \<and> holds m' (n # xs) \<and> length (head_failures m') \<le> length (head_failures m)"
  using assms
proof (induction fuel arbitrary: m)
  case (Suc fuel)
  obtain sp m2 where m2: "next_failure m = (sp, m2)" by fastforce
  have f: "stack_head m2 = stack_head m" "intrusive_next m2 = intrusive_next m" "holds m2 xs"
    using next_failure_frame [of m] Suc.prems(1) by (simp_all add: m2)
  have l: "length (head_failures m2) + of_bool sp \<le> length (head_failures m)"
    using m2 by (auto simp: next_failure_def split: list.splits)
  show ?case
  proof (cases "\<not> sp \<and> stack_head m2 = intrusive_next m2 n")
    case True
    then have "holds (m2\<lparr>stack_head := Some n\<rparr>) (n # xs)" using f(3) Suc.prems(2) by (simp add: holds_def)
    then show ?thesis using True l by (simp add: cas_head_push_def m2)
  next
    case False
    define m3 where "m3 = m2\<lparr>intrusive_next := (intrusive_next m2)(n := stack_head m2)\<rparr>"
    have h: "holds m3 xs" using f(3) Suc.prems(2) by (simp add: m3_def holds_next_other)
    have "length (head_failures m3) + (if stack_head m3 = intrusive_next m3 n then 0 else 1) < fuel"
      using False l f Suc.prems(3) by (cases sp) (auto simp: m3_def)
    from Suc.IH [OF h Suc.prems(2) this] obtain m' where
      "run (push_loop fuel n) m3 = (Inr (), m')" "holds m' (n # xs)" "length (head_failures m') \<le> length (head_failures m3)" by blast
    moreover have "run (push_loop (Suc fuel) n) m = run (push_loop fuel n) m3"
      using False by (auto simp: cas_head_push_def m2 m3_def)
    ultimately show ?thesis using l by (auto simp: m3_def)
  qed
qed simp

lemma extract_loop_returns:
  assumes "holds m xs" "length (head_failures m) < fuel" "old = stack_head m"
  shows "\<exists>m'. run (extract_loop fuel old) m = (Inr (stack_head m), m') \<and> holds m' []"
  using assms
proof (induction fuel arbitrary: m)
  case (Suc fuel)
  show ?case
  proof (cases "stack_head m")
    case None
    then have "xs = []" using Suc.prems(1) by (cases xs) (auto simp: holds_def)
    then show ?thesis using None Suc.prems by auto
  next
    case (Some a)
    obtain sp m2 where m2: "next_failure m = (sp, m2)" by fastforce
    have f: "stack_head m2 = stack_head m" "holds m2 xs"
      using next_failure_frame [of m] Suc.prems(1) by (simp_all add: m2)
    show ?thesis
    proof (cases sp)
      case False
      then show ?thesis using Some f Suc.prems(3) by (simp add: cas_head_null_def m2 holds_def)
    next
      case True
      then have "length (head_failures m2) < fuel"
        using m2 Suc.prems(2) by (auto simp: next_failure_def split: list.splits)
      from Suc.IH [OF f(2) this] f(1) Suc.prems(3) obtain m' where
        "run (extract_loop fuel old) m2 = (Inr (stack_head m), m')" "holds m' []" by auto
      then show ?thesis using True Some f(1) Suc.prems(3) by (simp add: cas_head_null_def m2)
    qed
  qed
qed simp

text \<open>
  Left alone, \<open>push\<close> and \<open>extract\<close> return: with more fuel than the compare-exchange fails
  spuriously, \<open>push\<close> returns with the node at the head of the list, and \<open>extract\<close> with the list taken.
\<close>

theorem stack_operations_return:
  assumes "holds m xs" "n \<notin> set xs" "length (head_failures m) < fuel"
  shows "\<exists>m1 m2. run (stack_push fuel n) m = (Inr (), m1) \<and> holds m1 (n # xs) \<and>
    run (stack_extract fuel) m1 = (Inr (Some n), m2) \<and> holds m2 []"
proof -
  define m0 where "m0 = m\<lparr>intrusive_next := (intrusive_next m)(n := stack_head m)\<rparr>"
  have h: "holds m0 xs" using assms by (simp add: m0_def holds_next_other)
  have l: "length (head_failures m0) + (if stack_head m0 = intrusive_next m0 n then 0 else 1) < fuel"
    using assms(3) by (simp add: m0_def)
  obtain m1 where m1: "run (push_loop fuel n) m0 = (Inr (), m1)" "holds m1 (n # xs)"
    "length (head_failures m1) \<le> length (head_failures m0)"
    using push_loop_returns [OF h assms(2) l] by blast
  have p: "run (stack_push fuel n) m = (Inr (), m1)" using m1(1) by (simp add: stack_push_def m0_def)
  have "length (head_failures m1) < fuel" using m1(3) assms(3) by (simp add: m0_def)
  from extract_loop_returns [OF m1(2) this refl] obtain m2 where
    m2: "run (extract_loop fuel (stack_head m1)) m1 = (Inr (stack_head m1), m2)" "holds m2 []" by blast
  have "stack_head m1 = Some n" using m1(2) by (simp add: holds_def)
  then have "run (stack_extract fuel) m1 = (Inr (Some n), m2)" using m2(1) by (simp add: stack_extract_def)
  then show ?thesis using p m1(2) m2(2) by blast
qed

section \<open>Examples\<close>

text \<open>The node 1 is in the stack; the first compare-exchange fails spuriously.\<close>

definition ex_stack :: stack_mem where
  "ex_stack = \<lparr>stack_head = Some 1, intrusive_next = (\<lambda>_. None), head_failures = [True]\<rparr>"

lemma ex_stack_holds: "holds ex_stack [1]"
  by (simp add: ex_stack_def holds_def)

lemma stack_env_refl: "reflp E \<Longrightarrow> stack_env E n m m"
  by (auto simp: stack_env_def dest: reflpD)

theorem stack_operations_return_witness:
  "\<exists>m1 m2. run (stack_push 2 5) ex_stack = (Inr (), m1) \<and> holds m1 [5, 1] \<and>
    run (stack_extract 2) m1 = (Inr (Some 5), m2) \<and> holds m2 []"
  using stack_operations_return [OF ex_stack_holds, of 5 2] by (simp add: ex_stack_def)

theorem stack_push_atomic_witness:
  "\<exists>m'. run (stack_push 2 5) ex_stack = (Inr (), m') \<and> (\<exists>xs xs'. [1] = xs \<and> 5 # xs = xs' \<and> holds m' xs')"
proof -
  have "\<exists>m'. run (stack_push 2 5) ex_stack = (Inr (), m')"
    by (simp add: stack_push_def cas_head_push_def next_failure_def ex_stack_def numeral_2_eq_2)
  then obtain m' where r: "run (stack_push 2 5) ex_stack = (Inr (), m')" by blast
  have "run_rely (stack_env (=) 5) (stack_push 2 5) ex_stack (Inr ()) m'"
    by (rule run_rely_of_run [OF r]) (simp add: stack_env_refl reflp_def)
  then show ?thesis using r stack_push_atomic [OF _ _ _ ex_stack_holds, of "(=)" 5 2 m'] by (auto simp: reflp_def transp_def)
qed

theorem stack_extract_atomic_witness:
  "\<exists>m'. run (stack_extract 2) ex_stack = (Inr (Some 1), m') \<and> (\<exists>xs xs'. [1] = xs \<and> [] = xs' \<and> holds m' xs')"
proof -
  have "\<exists>m'. run (stack_extract 2) ex_stack = (Inr (Some 1), m')"
    by (simp add: stack_extract_def cas_head_null_def next_failure_def ex_stack_def numeral_2_eq_2)
  then obtain m' where r: "run (stack_extract 2) ex_stack = (Inr (Some 1), m')" by blast
  have "run_rely (stack_env (=) 5) (stack_extract 2) ex_stack (Inr (Some 1)) m'"
    by (rule run_rely_of_run [OF r]) (simp add: stack_env_refl reflp_def)
  then show ?thesis using r stack_extract_atomic [OF _ _ _ ex_stack_holds, of "(=)" 5 2 "Some 1" m'] by (auto simp: reflp_def transp_def)
qed

text \<open>
  C27: \<open>push\<close> and \<open>extract\<close> are atomic under interference. While other threads change the stack as they like, as far as they
  leave the node being pushed alone: a \<open>push\<close> that returns has put its node at the head of the list that the stack held at that moment;
  an \<open>extract\<close> that returns has taken the whole list at one moment, linked as it was. Left alone both
  return, with more fuel than the compare-exchange fails spuriously.
\<close>

theorem stack_operations_atomic:
  assumes E: "reflp E" "transp E" and h: "holds m xs0"
    and p: "run_rely (stack_env E n) (stack_push fuel n) m (Inr ()) m'"
    and x: "run_rely (stack_env E n) (stack_extract fuel) m (Inr r) m''"
    and n: "n \<notin> set xs0" "length (head_failures m) < fuel"
  shows "(\<exists>xs xs'. E xs0 xs \<and> E (n # xs) xs' \<and> holds m' xs') \<and>
    (\<exists>xs xs' (m1 :: stack_mem). E xs0 xs \<and> E [] xs' \<and> holds m'' xs' \<and> chain (intrusive_next m1) r xs) \<and>
    (\<exists>m1 m2. run (stack_push fuel n) m = (Inr (), m1) \<and> holds m1 (n # xs0) \<and>
       run (stack_extract fuel) m1 = (Inr (Some n), m2) \<and> holds m2 [])"
  using stack_push_atomic [OF E p h n(1)] stack_extract_atomic [OF E x h] stack_operations_return [OF h n] by blast

theorem stack_operations_atomic_witness:
  "\<exists>m' m''. (\<exists>xs xs'. [1] = xs \<and> 5 # xs = xs' \<and> holds m' xs') \<and> (\<exists>xs. [1] = xs \<and> holds m'' []) \<and>
    (\<exists>m1. run (stack_push 2 5) ex_stack = (Inr (), m1) \<and> holds m1 [5, 1])"
proof -
  have "\<exists>m'. run (stack_push 2 5) ex_stack = (Inr (), m')" "\<exists>m''. run (stack_extract 2) ex_stack = (Inr (Some 1), m'')"
    by (simp_all add: stack_push_def stack_extract_def cas_head_push_def cas_head_null_def next_failure_def ex_stack_def numeral_2_eq_2)
  then obtain m' m'' where r: "run (stack_push 2 5) ex_stack = (Inr (), m')" "run (stack_extract 2) ex_stack = (Inr (Some 1), m'')"
    by blast
  have e: "run_rely (stack_env (=) 5) (stack_push 2 5) ex_stack (Inr ()) m'"
    "run_rely (stack_env (=) 5) (stack_extract 2) ex_stack (Inr (Some 1)) m''"
    by (rule run_rely_of_run [OF r(1)] run_rely_of_run [OF r(2)]; simp add: stack_env_refl reflp_def)+
  have "reflp ((=) :: nat list \<Rightarrow> nat list \<Rightarrow> bool)" "transp ((=) :: nat list \<Rightarrow> nat list \<Rightarrow> bool)" by (auto simp: reflp_def transp_def)
  from stack_operations_atomic [OF this ex_stack_holds e] show ?thesis
    by (simp add: ex_stack_def) blast
qed

end
