(* ===== verification/Serial_Executor.thy ===== *)
theory Serial_Executor
  imports Sl_Prelude "HOL-Library.Word"
begin

text \<open>
  The strand of \<^verbatim>\<open>algo/sync/serial.hpp\<close>: any number of threads schedule tasks; the tasks run one
  after the other on the inner executor. \<open>batch\<close> is the lock-free stack, latest first, with the
  atomic \<open>push\<close> and \<open>extract\<close> it is shown to have in \<open>Lf_Stack\<close>; \<open>work\<close> is the 32-bit counter.
  Each atomic action of \<open>schedule\<close> and of \<open>serial_executor_task::execute\<close> is a function on the
  state, the interleavings are the step relation. A thread between its push and its increment is
  counted by \<open>adding\<close>; a thread, or the task itself, that has decided to call
  \<open>executor_.schedule\<close> by \<open>waking\<close>; the inner executor's copies of the serial task by \<open>inner\<close>;
  \<open>runs\<close> are the executions of the serial task in progress, with the tasks still to run and the
  size of the batch so far. \<open>pushed\<close> and \<open>executed\<close> record the tasks in order.

  Reversing a chain of nodes is the function \<open>rv\<close> of the library of intrusive lists; that it
  reverses the order is a hypothesis.
\<close>

section \<open>State and actions\<close>

record 'n serial =
  batch :: "'n list"
  work :: u32
  adding :: nat
  waking :: nat
  inner :: nat
  runs :: "('n list \<times> u32) list"
  pushed :: "'n list"
  executed :: "'n list"
  cancelled :: "'n list"
  assert_failed :: bool

definition serial_init :: "'n serial" where
  "serial_init = \<lparr>batch = [], work = 0, adding = 0, waking = 0, inner = 0, runs = [],
     pushed = [], executed = [], cancelled = [], assert_failed = False\<rparr>"

text \<open>\<open>schedule\<close>: the push, then the increment of \<open>work\<close> and the decision to wake, then the wake.\<close>

definition schedule_push :: "'n \<Rightarrow> 'n serial \<Rightarrow> 'n serial" where
  "schedule_push n s = s\<lparr>batch := n # batch s, adding := adding s + 1, pushed := pushed s @ [n]\<rparr>"

definition schedule_add :: "'n serial \<Rightarrow> 'n serial" where
  "schedule_add s =
     (let prev_work = work s; s = s\<lparr>work := work s + 1, adding := adding s - 1\<rparr>
      in if prev_work = 0 then s\<lparr>waking := waking s + 1\<rparr> else s)"

definition schedule_inner :: "'n serial \<Rightarrow> 'n serial" where
  "schedule_inner s = s\<lparr>waking := waking s - 1, inner := inner s + 1\<rparr>"

text \<open>\<open>execute\<close>: the extraction and its assertion, one task at a time, and the end of the batch.\<close>

definition execute_extract :: "('n list \<Rightarrow> 'n list) \<Rightarrow> 'n serial \<Rightarrow> 'n serial" where
  "execute_extract rv s =
     (let head = batch s; s = s\<lparr>batch := [], inner := inner s - 1\<rparr>
      in if head = [] then s\<lparr>assert_failed := True\<rparr>
         else s\<lparr>runs := (rv head, 0) # runs s\<rparr>)"

definition execute_task :: "nat \<Rightarrow> 'n serial \<Rightarrow> 'n serial" where
  "execute_task i s =
     (case runs s ! i of
        (n # ns, batch_size) \<Rightarrow> s\<lparr>runs := (runs s)[i := (ns, batch_size + 1)], executed := executed s @ [n]\<rparr>
      | ([], _) \<Rightarrow> s)"

definition execute_finish :: "nat \<Rightarrow> 'n serial \<Rightarrow> 'n serial" where
  "execute_finish i s =
     (let batch_size = snd (runs s ! i); work_before_batch = work s;
          s = s\<lparr>work := work s - batch_size, runs := take i (runs s) @ drop (Suc i) (runs s)\<rparr>
      in if work_before_batch > batch_size then s\<lparr>waking := waking s + 1\<rparr> else s)"

text \<open>
  \<open>stop\<close>, without interference: rounds that extract the stack, cancel its tasks in order and take
  them off the counter, while more work was counted than was found. A round on an empty stack fails
  the assertion; the recursion carries fuel.
\<close>

definition stop_round :: "('n list \<Rightarrow> 'n list) \<Rightarrow> 'n serial \<Rightarrow> bool \<times> 'n serial" where
  "stop_round rv s =
     (let head = batch s; s = s\<lparr>batch := []\<rparr>
      in if head = [] then (False, s\<lparr>assert_failed := True\<rparr>)
         else let batch_size = of_nat (length head); work_before_batch = work s
              in (work_before_batch > batch_size,
                  s\<lparr>cancelled := cancelled s @ rv head, work := work s - batch_size\<rparr>))"

primrec serial_stop :: "nat \<Rightarrow> ('n list \<Rightarrow> 'n list) \<Rightarrow> 'n serial \<Rightarrow> 'n serial option" where
  "serial_stop 0 rv s = None"
| "serial_stop (Suc fuel) rv s =
     (let (again, s) = stop_round rv s in if again then serial_stop fuel rv s else Some s)"

text \<open>
  The tasks in flight are those in the stack or in a batch and those scheduled by a thread that has
  not counted them yet. A push takes place only while they are fewer than the counter can hold.
\<close>

definition in_flight :: "'n serial \<Rightarrow> nat" where
  "in_flight s = length (batch s) + sum_list (map (\<lambda>(todo, size). length todo + unat size) (runs s)) + adding s"

inductive serial_step :: "('n list \<Rightarrow> 'n list) \<Rightarrow> bool \<Rightarrow> 'n serial \<Rightarrow> 'n serial \<Rightarrow> bool" for rv where
  st_push: "in_flight s + 2 < 2 ^ 32 \<Longrightarrow> serial_step rv True s (schedule_push n s)"
| st_add: "0 < adding s \<Longrightarrow> serial_step rv False s (schedule_add s)"
| st_wake: "0 < waking s \<Longrightarrow> serial_step rv False s (schedule_inner s)"
| st_extract: "0 < inner s \<Longrightarrow> serial_step rv False s (execute_extract rv s)"
| st_task: "i < length (runs s) \<Longrightarrow> fst (runs s ! i) \<noteq> [] \<Longrightarrow> serial_step rv False s (execute_task i s)"
| st_finish: "i < length (runs s) \<Longrightarrow> fst (runs s ! i) = [] \<Longrightarrow> serial_step rv False s (execute_finish i s)"

definition serial_reachable :: "('n list \<Rightarrow> 'n list) \<Rightarrow> 'n serial \<Rightarrow> bool" where
  "serial_reachable rv s \<longleftrightarrow> (\<lambda>s s'. \<exists>b. serial_step rv b s s')\<^sup>*\<^sup>* serial_init s"

section \<open>The invariant\<close>

text \<open>
  \<open>level\<close> is the value the counter stands for: the tasks in the stack or in the current batch, less
  those not counted yet. It can be negative, when a batch contains tasks whose threads have not
  counted them; the 32-bit word then has wrapped around. The serial task is active, once, exactly
  when the level is positive.
\<close>

definition taken :: "'n serial \<Rightarrow> nat" where
  "taken s = sum_list (map (\<lambda>(todo, size). length todo + unat size) (runs s))"

definition level :: "'n serial \<Rightarrow> int" where
  "level s = int (length (batch s)) + int (taken s) - int (adding s)"

definition serial_inv :: "'n serial \<Rightarrow> bool" where
  "serial_inv s \<longleftrightarrow>
     work s = word_of_int (level s) \<and>
     waking s + inner s + length (runs s) = (if 0 < level s then 1 else 0) \<and>
     executed s @ concat (map fst (runs s)) @ rev (batch s) = pushed s \<and>
     in_flight s < 2 ^ 32 \<and> \<not> assert_failed s"

lemma in_flight_taken: "in_flight s = length (batch s) + taken s + adding s"
  by (simp add: in_flight_def taken_def)

lemma serial_init_inv: "serial_inv serial_init"
  by (simp add: serial_inv_def serial_init_def level_def taken_def in_flight_def)

lemma word_of_small_int:
  assumes "0 \<le> x" "x < 2 ^ 32"
  shows "uint (word_of_int x :: u32) = x"
  using assms by (simp add: uint_word_of_int)

lemma word_of_int_0_iff:
  assumes "- (2 ^ 32) < x" "x < 2 ^ 32"
  shows "(word_of_int x :: u32) = 0 \<longleftrightarrow> x = 0"
proof -
  have "(word_of_int x :: u32) = 0 \<longleftrightarrow> 2 ^ 32 dvd x"
    by (simp add: word_of_int_eq_0_iff)
  moreover have "x = 0" if "2 ^ 32 dvd x"
  proof (rule ccontr)
    assume x: "x \<noteq> 0"
    have "\<bar>2 ^ 32 :: int\<bar> \<le> \<bar>x\<bar>" by (rule dvd_imp_le_int [OF x that])
    then show False using assms by linarith
  qed
  ultimately show ?thesis by auto
qed

lemma level_bounds: "in_flight s < 2 ^ 32 \<Longrightarrow> - (2 ^ 32) < level s \<and> level s < 2 ^ 32"
  by (simp add: level_def in_flight_taken)

lemma push_inv: "serial_inv s \<Longrightarrow> in_flight s + 2 < 2 ^ 32 \<Longrightarrow> serial_inv (schedule_push n s)"
  by (simp add: serial_inv_def schedule_push_def level_def taken_def in_flight_def)

lemma schedule_add_eq:
  "schedule_add s = s\<lparr>work := work s + 1, adding := adding s - 1,
     waking := waking s + (if work s = 0 then 1 else 0)\<rparr>"
  by (simp add: schedule_add_def Let_def)

lemma add_inv:
  assumes inv: "serial_inv s" and "0 < adding s"
  shows "serial_inv (schedule_add s)"
proof -
  have lv: "level (schedule_add s) = level s + 1"
    using assms(2) by (simp add: schedule_add_eq level_def taken_def)
  have z: "(work s = 0) = (level s = 0)"
    using inv level_bounds [of s] word_of_int_0_iff [of "level s"] by (simp add: serial_inv_def)
  have "waking (schedule_add s) + inner (schedule_add s) + length (runs (schedule_add s)) =
      (if 0 < level s + 1 then 1 else 0)"
    using inv unfolding schedule_add_eq z by (auto simp: serial_inv_def split: if_splits)
  moreover have "work (schedule_add s) = word_of_int (level s + 1)"
    using inv by (simp add: schedule_add_eq serial_inv_def)
  ultimately show ?thesis
    using inv unfolding serial_inv_def lv
    by (cases "adding s") (simp_all add: schedule_add_eq in_flight_def)
qed

lemma wake_inv: "serial_inv s \<Longrightarrow> 0 < waking s \<Longrightarrow> serial_inv (schedule_inner s)"
  by (simp add: serial_inv_def schedule_inner_def level_def taken_def in_flight_def)

text \<open>When the serial task starts, the stack is not empty.\<close>

lemma active_alone:
  assumes "serial_inv s"
  shows "0 < inner s \<Longrightarrow> runs s = [] \<and> waking s = 0 \<and> inner s = 1 \<and> 0 < level s"
    and "i < length (runs s) \<Longrightarrow> i = 0 \<and> runs s = [runs s ! 0] \<and> waking s = 0 \<and> inner s = 0 \<and> 0 < level s"
proof -
  have one: "waking s + inner s + length (runs s) = (if 0 < level s then 1 else 0)"
    using assms by (simp add: serial_inv_def)
  then show "0 < inner s \<Longrightarrow> runs s = [] \<and> waking s = 0 \<and> inner s = 1 \<and> 0 < level s"
    by (cases "runs s") (auto split: if_splits)
  show "i < length (runs s) \<Longrightarrow> i = 0 \<and> runs s = [runs s ! 0] \<and> waking s = 0 \<and> inner s = 0 \<and> 0 < level s"
    using one by (cases "runs s") (auto split: if_splits)
qed

lemma extract_inv:
  assumes inv: "serial_inv s" and "0 < inner s" and rv: "\<And>xs. rv xs = rev xs"
  shows "serial_inv (execute_extract rv s)" and "batch s \<noteq> []"
proof -
  note alone = active_alone(1) [OF inv assms(2)]
  then show ne: "batch s \<noteq> []" by (auto simp: level_def taken_def)
  have e: "execute_extract rv s = s\<lparr>batch := [], inner := 0, runs := [(rev (batch s), 0)]\<rparr>"
    using ne alone by (simp add: execute_extract_def rv Let_def)
  show "serial_inv (execute_extract rv s)"
    using inv alone unfolding e serial_inv_def
    by (simp add: level_def taken_def in_flight_def)
qed

lemma task_inv:
  assumes inv: "serial_inv s" and i: "i < length (runs s)" "fst (runs s ! i) \<noteq> []"
  shows "serial_inv (execute_task i s)"
proof -
  note alone = active_alone(2) [OF inv i(1)]
  obtain n ns size where r: "runs s = [(n # ns, size)]"
    using alone i(2) by (cases "runs s ! 0"; cases "fst (runs s ! 0)") auto
  have e: "execute_task i s = s\<lparr>runs := [(ns, size + 1)], executed := executed s @ [n]\<rparr>"
    using alone r by (simp add: execute_task_def)
  have "in_flight s < 2 ^ 32" using inv by (simp add: serial_inv_def)
  then have "unat size + 1 < 2 ^ 32" by (simp add: in_flight_def r)
  then have "unat (size + 1) = unat size + 1" by (simp add: unat_word_ariths)
  then show ?thesis using inv unfolding e serial_inv_def
    by (simp add: level_def taken_def in_flight_def r)
qed

lemma finish_inv:
  assumes inv: "serial_inv s" and i: "i < length (runs s)" "fst (runs s ! i) = []"
  shows "serial_inv (execute_finish i s)"
    and "level (execute_finish i s) = level s - int (unat (snd (runs s ! i)))"
proof -
  note alone = active_alone(2) [OF inv i(1)]
  obtain size where r: "runs s = [([], size)]" using alone i(2) by (cases "runs s ! 0") auto
  have lv: "int (unat (work s)) = level s"
    using inv alone level_bounds [of s] word_of_small_int [of "level s"] by (simp add: serial_inv_def)
  have gt: "(work s > size) = (0 < level s - int (unat size))"
    unfolding lv [symmetric] word_less_nat_alt by linarith
  have e: "execute_finish i s = s\<lparr>work := work s - size, runs := [],
      waking := (if size < work s then 1 else 0)\<rparr>"
    using alone r by (simp add: execute_finish_def Let_def)
  have l: "level (execute_finish i s) = level s - int (unat size)"
    by (simp add: e level_def taken_def r)
  then show "level (execute_finish i s) = level s - int (unat (snd (runs s ! i)))" using alone r by simp
  have "work s - size = word_of_int (level s - int (unat size))"
    using inv by (simp add: serial_inv_def)
  then show "serial_inv (execute_finish i s)"
    using inv alone gt unfolding serial_inv_def l unfolding e
    by (simp add: in_flight_def r)
qed

lemma serial_step_inv:
  assumes "serial_step rv b s s'" "serial_inv s" "\<And>xs. rv xs = rev xs"
  shows "serial_inv s'"
  using assms
  by (induction rule: serial_step.induct) (simp_all add: push_inv add_inv wake_inv extract_inv task_inv finish_inv(1))

lemma serial_reachable_inv:
  assumes "serial_reachable rv s" "\<And>xs. rv xs = rev xs"
  shows "serial_inv s"
  using assms(1) unfolding serial_reachable_def
  by (induction rule: rtranclp_induct) (auto intro: serial_init_inv serial_step_inv assms(2))

section \<open>The strand drains\<close>

text \<open>Every action but a push brings the state closer to rest.\<close>

definition distance :: "'n serial \<Rightarrow> nat" where
  "distance s = 4 * length (batch s) + 4 * adding s + 3 * waking s + 2 * inner s +
     sum_list (map (\<lambda>(todo, size). length todo + 4) (runs s))"

lemma serial_step_closer:
  assumes "serial_step rv False s s'" "serial_inv s" "\<And>xs. rv xs = rev xs"
  shows "distance s' < distance s"
  using assms(1)
proof cases
  case (st_push n)
  then show ?thesis by simp
next
  case st_add
  then show ?thesis by (cases "adding s") (simp_all add: distance_def schedule_add_eq)
next
  case st_wake
  then show ?thesis by (simp add: distance_def schedule_inner_def)
next
  case st_extract
  note alone = active_alone(1) [OF assms(2) st_extract(2)] and ne = extract_inv(2) [OF assms(2) st_extract(2)]
  then show ?thesis using st_extract
    by (cases "batch s") (simp_all add: distance_def execute_extract_def assms(3) Let_def)
next
  case (st_task i)
  note alone = active_alone(2) [OF assms(2) st_task(2)]
  obtain n ns size where "runs s = [(n # ns, size)]"
    using alone st_task(3) by (cases "runs s ! 0"; cases "fst (runs s ! 0)") auto
  then show ?thesis using alone st_task(1) by (simp add: distance_def execute_task_def)
next
  case (st_finish i)
  note alone = active_alone(2) [OF assms(2) st_finish(2)]
  obtain size where "runs s = [([], size)]" using alone st_finish(3) by (cases "runs s ! 0") auto
  then show ?thesis using alone st_finish(1) by (auto simp: distance_def execute_finish_def Let_def)
qed

lemma serial_progress:
  assumes inv: "serial_inv s" and stuck: "\<not> (\<exists>s'. serial_step rv False s s')"
  shows "executed s = pushed s \<and> work s = 0"
proof -
  have "adding s = 0" "waking s = 0" "inner s = 0" using stuck st_add st_wake st_extract by blast+
  moreover have runs: "runs s = []"
  proof (rule ccontr)
    assume "runs s \<noteq> []"
    then have "0 < length (runs s)" by simp
    then show False using stuck st_task [of 0 s] st_finish [of 0 s] by (cases "fst (runs s ! 0) = []") blast+
  qed
  ultimately have "level s \<le> 0" "level s = int (length (batch s))"
    using inv by (auto simp: serial_inv_def level_def taken_def split: if_splits)
  then show ?thesis using inv runs by (simp add: serial_inv_def level_def)
qed

section \<open>Concrete histories\<close>

text \<open>
  Two threads push before either counts its task, the first wakes the strand, which runs both tasks
  and takes two off a counter that holds one: it wraps around. The second thread then counts.
\<close>

definition ex_queued :: "nat serial" where
  "ex_queued = schedule_inner (schedule_add (schedule_push 8 (schedule_push 7 serial_init)))"

definition ex_running :: "nat serial" where
  "ex_running = execute_task 0 (execute_extract rev ex_queued)"

definition ex_wrapped :: "nat serial" where
  "ex_wrapped = execute_finish 0 (execute_task 0 ex_running)"

definition ex_queued_both :: "nat serial" where
  "ex_queued_both = schedule_add ex_queued"

lemmas ex_serial_defs = ex_queued_def ex_running_def ex_wrapped_def serial_init_def schedule_push_def
  schedule_add_def schedule_inner_def execute_extract_def execute_task_def execute_finish_def

lemma serial_reachable_init: "serial_reachable rv serial_init"
  by (simp add: serial_reachable_def)

lemma serial_reachable_step: "serial_reachable rv s \<Longrightarrow> serial_step rv b s s' \<Longrightarrow> serial_reachable rv s'"
  unfolding serial_reachable_def by (erule rtranclp.rtrancl_into_rtrancl) blast

lemma ex_queued_reachable: "serial_reachable rev ex_queued"
  unfolding ex_queued_def
  by (rule serial_reachable_step [OF _ st_wake], rule serial_reachable_step [OF _ st_add],
      rule serial_reachable_step [OF _ st_push], rule serial_reachable_step [OF _ st_push],
      rule serial_reachable_init)
    (simp_all add: ex_serial_defs in_flight_def)

lemma ex_queued_both_reachable: "serial_reachable rev ex_queued_both"
  unfolding ex_queued_both_def
  by (rule serial_reachable_step [OF _ st_add], rule ex_queued_reachable) (simp add: ex_serial_defs)

lemma ex_running_reachable: "serial_reachable rev ex_running"
  unfolding ex_running_def
  by (rule serial_reachable_step [OF _ st_task], rule serial_reachable_step [OF _ st_extract],
      rule ex_queued_reachable) (simp_all add: ex_serial_defs)

lemma ex_wrapped_reachable: "serial_reachable rev ex_wrapped"
  unfolding ex_wrapped_def
  by (rule serial_reachable_step [OF _ st_finish], rule serial_reachable_step [OF _ st_task],
      rule ex_running_reachable) (simp_all add: ex_serial_defs)

section \<open>Properties\<close>

text \<open>
  A strand runs its tasks one at a time and in the order in which they were pushed, none lost and
  none run twice: what has run, the rest of the batch in progress and the stack read from its end are
  together the sequence of pushes. At most one execution of the serial task is ever in progress or
  on its way to the inner executor, and the assertion that it finds work never fails.
\<close>

theorem serial_runs_in_order:
  assumes "serial_reachable rv s" and "\<And>xs. rv xs = rev xs"
  shows "executed s @ concat (map fst (runs s)) @ rev (batch s) = pushed s \<and>
    waking s + inner s + length (runs s) \<le> 1 \<and> \<not> assert_failed s"
  using serial_reachable_inv [OF assms] by (auto simp: serial_inv_def split: if_splits)

theorem serial_runs_in_order_witness:
  "executed ex_running @ concat (map fst (runs ex_running)) @ rev (batch ex_running) = pushed ex_running \<and>
   executed ex_running = [7] \<and> runs ex_running = [([8], 1)] \<and> \<not> assert_failed ex_running"
  using serial_runs_in_order [OF ex_running_reachable refl] by (simp add: ex_serial_defs)

text \<open>
  C11: The 32-bit counter may wrap around below zero, when a batch holds tasks whose threads have not
  counted them yet, and this is harmless. The counter is always the number of tasks in the stack and
  in the batch less the tasks not counted yet, modulo 2 to the 32; and the serial task is on its way
  or running exactly when that number is positive, so that no wake-up is lost and none is doubled.
\<close>

theorem serial_no_lost_wakeup:
  assumes "serial_reachable rv s" and "\<And>xs. rv xs = rev xs"
  shows "work s = word_of_int (int (length (batch s)) + int (taken s) - int (adding s)) \<and>
    waking s + inner s + length (runs s) =
      (if int (adding s) < int (length (batch s)) + int (taken s) then 1 else 0)"
  using serial_reachable_inv [OF assms] by (auto simp: serial_inv_def level_def)

theorem serial_no_lost_wakeup_witness:
  "work ex_wrapped = - 1 \<and> adding ex_wrapped = 1 \<and> executed ex_wrapped = [7, 8] \<and>
   waking ex_wrapped + inner ex_wrapped + length (runs ex_wrapped) = 0"
  using serial_no_lost_wakeup [OF ex_wrapped_reachable refl] by (simp add: ex_serial_defs taken_def)

text \<open>
  Without further pushes a strand drains: from any reachable state it makes at most
  \<open>distance s\<close> steps whatever their interleaving, and as long as some pushed task has not run there
  is a next step, so that it can only stop with every pushed task run and the counter at zero.
\<close>

theorem serial_drains:
  assumes "serial_reachable rv s" and rv: "\<And>xs. rv xs = rev xs"
    and "(serial_step rv False ^^ k) s s'"
  shows "k + distance s' \<le> distance s \<and> pushed s' = pushed s \<and>
    (executed s' = pushed s \<and> work s' = 0 \<or> (\<exists>s''. serial_step rv False s' s''))"
proof -
  have "serial_inv s' \<and> k + distance s' \<le> distance s \<and> pushed s' = pushed s"
    using assms(3)
  proof (induction k arbitrary: s')
    case 0
    then show ?case using serial_reachable_inv [OF assms(1) rv] by simp
  next
    case (Suc k)
    then obtain t where t: "(serial_step rv False ^^ k) s t" "serial_step rv False t s'" by auto
    have "pushed s' = pushed t" using t(2)
      by cases (auto simp: schedule_add_eq schedule_inner_def execute_extract_def execute_task_def
          execute_finish_def Let_def split: list.splits prod.splits)
    then show ?case
      using Suc.IH [OF t(1)] serial_step_inv [OF t(2) _ rv] serial_step_closer [OF t(2) _ rv] by force
  qed
  then show ?thesis using serial_progress [of s' rv] by auto
qed

text \<open>The steps from the wrapped counter to rest.\<close>

theorem serial_drains_witness:
  "distance ex_wrapped = 4 \<and> pushed (schedule_add ex_wrapped) = [7, 8] \<and>
   executed (schedule_add ex_wrapped) = [7, 8] \<and> work (schedule_add ex_wrapped) = 0"
proof -
  have "serial_step rev False ex_wrapped (schedule_add ex_wrapped)"
    by (rule st_add) (simp add: ex_serial_defs)
  then have "(serial_step rev False ^^ Suc 0) ex_wrapped (schedule_add ex_wrapped)" by auto
  then show ?thesis using serial_drains [OF ex_wrapped_reachable refl]
    by (fastforce simp: ex_serial_defs distance_def)
qed

text \<open>
  \<open>stop\<close> on a strand at rest with waiting tasks cancels them all in order of their arrival in one
  round and brings the counter to zero, but the serial task it leaves on the inner executor then finds
  an empty stack and fails the assertion of \<open>execute\<close>; and \<open>stop\<close> on an empty strand fails its own.
\<close>

theorem serial_stop_effect:
  assumes "serial_reachable rv s" and rv: "\<And>xs. rv xs = rev xs" and "adding s = 0" "runs s = []"
  shows "\<exists>s'. serial_stop 1 rv s = Some s' \<and> executed s' @ drop (length (cancelled s)) (cancelled s') = pushed s' \<and>
    (if batch s = [] then assert_failed s'
     else work s' = 0 \<and> waking s' + inner s' = 1 \<and> assert_failed (execute_extract rv s'))"
proof -
  have inv: "serial_inv s" by (rule serial_reachable_inv [OF assms(1) rv])
  have l: "level s = int (length (batch s))" using assms(3,4) by (simp add: level_def taken_def)
  have w: "work s = of_nat (length (batch s))" using inv l by (simp add: serial_inv_def)
  show ?thesis using inv assms(4) l w
    by (cases "batch s") (simp_all add: stop_round_def serial_inv_def Let_def rv execute_extract_def)
qed

theorem serial_stop_effect_witness:
  "\<exists>s'. serial_stop 1 rev ex_queued_both = Some s' \<and> cancelled s' = [7, 8] \<and> work s' = 0 \<and>
     assert_failed (execute_extract rev s')"
  using serial_stop_effect [OF ex_queued_both_reachable refl] by (simp add: ex_serial_defs ex_queued_both_def stop_round_def Let_def)

end
