(* ===== verification/Strand.thy ===== *)
theory Strand
  imports Lf_Stack Serial_Executor "HOL-Library.Multiset"
begin

text \<open>
  The strand of \<^verbatim>\<open>algo/sync/serial.hpp\<close> on its lock-free stack: the threads that schedule tasks and the serial task
  interleave at every access to the head of the stack and to the links of its nodes, and at every action
  of \<open>Serial_Executor\<close>. The stack there is a list with atomic operations; here it is a memory, and the
  theorems say that this makes no difference: the memory implements the list, and no retry goes on for ever.

  Nodes are numbers. Reversing the nodes taken from the stack and walking them are functions of another
  library, a parameter. A task may be scheduled again once it has started to execute.
\<close>

section \<open>Chains of nodes taken from the stack\<close>

type_synonym links = "nat \<Rightarrow> nat option"

record forward_list_ops =
  fl_reverse :: "links \<Rightarrow> nat option \<Rightarrow> links \<times> nat option"
  fl_for_each :: "links \<Rightarrow> nat option \<Rightarrow> nat list"

definition forward_list_laws :: "forward_list_ops \<Rightarrow> bool" where
  "forward_list_laws L \<longleftrightarrow>
     (\<forall>nxt h xs. chain nxt h xs \<longrightarrow> distinct xs \<longrightarrow>
       chain (fst (fl_reverse L nxt h)) (snd (fl_reverse L nxt h)) (rev xs) \<and>
       (\<forall>n. n \<notin> set xs \<longrightarrow> fst (fl_reverse L nxt h) n = nxt n) \<and> fl_for_each L nxt h = xs)"

lemma forward_list_lawsD:
  assumes "forward_list_laws L" "chain nxt h xs" "distinct xs"
  shows "chain (fst (fl_reverse L nxt h)) (snd (fl_reverse L nxt h)) (rev xs)"
    and "n \<notin> set xs \<Longrightarrow> fst (fl_reverse L nxt h) n = nxt n"
    and "fl_for_each L nxt h = xs"
  using assms unfolding forward_list_laws_def by blast+

section \<open>State and steps\<close>

datatype push_pc = Push_load | Push_cas

datatype extract_pc = Extract_load | Extract_cas "nat option" | Extract_done "nat option"

text \<open>
  \<open>pushing\<close> are the calls of \<open>schedule\<close> inside \<open>batch_.push\<close>, \<open>extracting\<close> the executions of the serial task that have not
  started on their batch; everything else is in \<open>control\<close>, whose own stack is not used.
\<close>

record strand =
  smem :: stack_mem
  pushing :: "(nat \<times> push_pc) list"
  extracting :: "extract_pc list"
  control :: "nat serial"

definition strand_init :: "bool list \<Rightarrow> strand" where
  "strand_init failures =
     \<lparr>smem = \<lparr>stack_head = None, intrusive_next = (\<lambda>_. None), head_failures = failures\<rparr>,
      pushing = [], extracting = [], control = serial_init\<rparr>"

text \<open>The tasks that are on the stack or in a batch.\<close>

definition queued :: "strand \<Rightarrow> nat list" where
  "queued c = drop (length (executed (control c))) (pushed (control c))"

definition strand_load :: "strand \<Rightarrow> nat" where
  "strand_load c = 2 * length (pushing c) + length (queued c) +
     sum_list (map (\<lambda>(todo, size). unat size) (runs (control c))) + adding (control c)"

definition remove_nth :: "nat \<Rightarrow> 'a list \<Rightarrow> 'a list" where
  "remove_nth i xs = take i xs @ drop (Suc i) xs"

text \<open>One access each: the load of the head into the link of the new node, and the compare-exchange.\<close>

definition push_load :: "nat \<Rightarrow> strand \<Rightarrow> strand" where
  "push_load i c = (let n = fst (pushing c ! i); m = smem c
     in c\<lparr>smem := m\<lparr>intrusive_next := (intrusive_next m)(n := stack_head m)\<rparr>, pushing := (pushing c)[i := (n, Push_cas)]\<rparr>)"

definition push_cas :: "nat \<Rightarrow> strand \<Rightarrow> strand" where
  "push_cas i c = (let n = fst (pushing c ! i)
     in case run (cas_head_push n) (smem c) of
          (Inr True, m) \<Rightarrow> c\<lparr>smem := m, pushing := remove_nth i (pushing c),
            control := (control c)\<lparr>adding := adding (control c) + 1, pushed := pushed (control c) @ [n]\<rparr>\<rparr>
        | (_, m) \<Rightarrow> c\<lparr>smem := m\<rparr>)"

definition extract_start :: "strand \<Rightarrow> strand" where
  "extract_start c = c\<lparr>extracting := Extract_load # extracting c, control := (control c)\<lparr>inner := inner (control c) - 1\<rparr>\<rparr>"

text \<open>The loop goes on with the head found unless that is null.\<close>

definition extract_next :: "nat option \<Rightarrow> extract_pc" where
  "extract_next head = (if head = None then Extract_done None else Extract_cas head)"

definition extract_load :: "nat \<Rightarrow> strand \<Rightarrow> strand" where
  "extract_load i c = c\<lparr>extracting := (extracting c)[i := extract_next (stack_head (smem c))]\<rparr>"

definition extract_cas :: "nat \<Rightarrow> nat option \<Rightarrow> strand \<Rightarrow> strand" where
  "extract_cas i old_head c = (case run (cas_head_null old_head) (smem c) of
       (Inr (ok, found), m) \<Rightarrow>
         c\<lparr>smem := m, extracting := (extracting c)[i := if ok then Extract_done old_head else extract_next found]\<rparr>
     | (_, m) \<Rightarrow> c\<lparr>smem := m\<rparr>)"

definition begin_batch :: "forward_list_ops \<Rightarrow> nat \<Rightarrow> nat option \<Rightarrow> strand \<Rightarrow> strand" where
  "begin_batch L i head c = (let c = c\<lparr>extracting := remove_nth i (extracting c)\<rparr> in
     if head = None then c\<lparr>control := (control c)\<lparr>assert_failed := True\<rparr>\<rparr>
     else let (nxt, tail) = fl_reverse L (intrusive_next (smem c)) head
       in c\<lparr>smem := (smem c)\<lparr>intrusive_next := nxt\<rparr>,
            control := (control c)\<lparr>runs := (fl_for_each L nxt tail, 0) # runs (control c)\<rparr>\<rparr>)"

inductive strand_step :: "forward_list_ops \<Rightarrow> bool \<Rightarrow> strand \<Rightarrow> strand \<Rightarrow> bool" for L where
  sd_call: "n \<notin> set (queued c) \<Longrightarrow> n \<notin> fst ` set (pushing c) \<Longrightarrow> strand_load c + 4 < 2 ^ 32 \<Longrightarrow>
    strand_step L True c (c\<lparr>pushing := (n, Push_load) # pushing c\<rparr>)"
| sd_load: "i < length (pushing c) \<Longrightarrow> snd (pushing c ! i) = Push_load \<Longrightarrow> strand_step L False c (push_load i c)"
| sd_cas: "i < length (pushing c) \<Longrightarrow> snd (pushing c ! i) = Push_cas \<Longrightarrow> strand_step L False c (push_cas i c)"
| sd_add: "0 < adding (control c) \<Longrightarrow> strand_step L False c (c\<lparr>control := schedule_add (control c)\<rparr>)"
| sd_wake: "0 < waking (control c) \<Longrightarrow> strand_step L False c (c\<lparr>control := schedule_inner (control c)\<rparr>)"
| sd_start: "0 < inner (control c) \<Longrightarrow> strand_step L False c (extract_start c)"
| sd_extract_load: "i < length (extracting c) \<Longrightarrow> extracting c ! i = Extract_load \<Longrightarrow> strand_step L False c (extract_load i c)"
| sd_extract_cas: "i < length (extracting c) \<Longrightarrow> extracting c ! i = Extract_cas h \<Longrightarrow> strand_step L False c (extract_cas i h c)"
| sd_begin: "i < length (extracting c) \<Longrightarrow> extracting c ! i = Extract_done h \<Longrightarrow> strand_step L False c (begin_batch L i h c)"
| sd_task: "i < length (runs (control c)) \<Longrightarrow> fst (runs (control c) ! i) \<noteq> [] \<Longrightarrow>
    strand_step L False c (c\<lparr>control := execute_task i (control c)\<rparr>)"
| sd_finish: "i < length (runs (control c)) \<Longrightarrow> fst (runs (control c) ! i) = [] \<Longrightarrow>
    strand_step L False c (c\<lparr>control := execute_finish i (control c)\<rparr>)"

definition strand_reachable :: "forward_list_ops \<Rightarrow> bool list \<Rightarrow> strand \<Rightarrow> bool" where
  "strand_reachable L failures c \<longleftrightarrow> (\<lambda>c c'. \<exists>b. strand_step L b c c')\<^sup>*\<^sup>* (strand_init failures) c"

section \<open>The memory implements the list\<close>

text \<open>
  An execution of the serial task has taken effect on the stack once its compare-exchange has succeeded; the abstract
  strand then has the batch already.
\<close>

fun runner_at :: "links \<Rightarrow> extract_pc list \<Rightarrow> nat \<Rightarrow> (nat list \<times> u32) list \<Rightarrow> bool" where
  "runner_at nxt [] k rs \<longleftrightarrow> k = 0 \<and> rs = []"
| "runner_at nxt [Extract_load] k rs \<longleftrightarrow> k = 1 \<and> rs = []"
| "runner_at nxt [Extract_cas h] k rs \<longleftrightarrow> k = 1 \<and> rs = [] \<and> h \<noteq> None"
| "runner_at nxt [Extract_done h] k rs \<longleftrightarrow> k = 0 \<and> (\<exists>ys. chain nxt h ys \<and> ys \<noteq> [] \<and> rs = [(rev ys, 0)])"
| "runner_at nxt (p # q # ps) k rs \<longleftrightarrow> False"

definition implements :: "strand \<Rightarrow> nat serial \<Rightarrow> bool" where
  "implements c a \<longleftrightarrow> holds (smem c) (batch a) \<and> (\<exists>k rs. runner_at (intrusive_next (smem c)) (extracting c) k rs \<and>
     a = (control c)\<lparr>batch := batch a, inner := inner (control c) + k, runs := rs @ runs (control c)\<rparr>)"

definition strand_inv :: "strand \<Rightarrow> nat serial \<Rightarrow> bool" where
  "strand_inv c a \<longleftrightarrow> implements c a \<and> serial_inv a \<and> distinct (map fst (pushing c) @ queued c) \<and>
     strand_load c + 2 < 2 ^ 32"

lemma implementsE:
  assumes "implements c a"
  obtains k rs where "runner_at (intrusive_next (smem c)) (extracting c) k rs"
    "a = (control c)\<lparr>batch := batch a, inner := inner (control c) + k, runs := rs @ runs (control c)\<rparr>"
    "inner a = inner (control c) + k" "runs a = rs @ runs (control c)"
proof -
  obtain k rs where r: "runner_at (intrusive_next (smem c)) (extracting c) k rs"
    and a: "a = (control c)\<lparr>batch := batch a, inner := inner (control c) + k, runs := rs @ runs (control c)\<rparr>"
    using assms unfolding implements_def by blast
  show thesis by (rule that [OF r a]) (subst a, simp)+
qed

lemma implements_fields:
  assumes "implements c a"
  shows "work a = work (control c)" "adding a = adding (control c)" "waking a = waking (control c)"
    "pushed a = pushed (control c)" "executed a = executed (control c)" "assert_failed a = assert_failed (control c)"
proof -
  obtain k rs where a: "a = (control c)\<lparr>batch := batch a, inner := inner (control c) + k, runs := rs @ runs (control c)\<rparr>"
    using assms by (rule implementsE)
  show "work a = work (control c)" "adding a = adding (control c)" "waking a = waking (control c)"
    "pushed a = pushed (control c)" "executed a = executed (control c)" "assert_failed a = assert_failed (control c)"
    by (subst a, simp)+
qed

lemma queued_abs:
  assumes "implements c a" "serial_inv a"
  shows "queued c = concat (map fst (runs a)) @ rev (batch a)"
proof -
  have "pushed (control c) = executed (control c) @ concat (map fst (runs a)) @ rev (batch a)"
    using assms(2) implements_fields [OF assms(1)] by (simp add: serial_inv_def)
  then show ?thesis by (simp add: queued_def)
qed

lemma runner_sizes: "runner_at nxt ps k rs \<Longrightarrow> sum_list (map (\<lambda>(todo, size). unat size) rs) = 0"
  by (induction nxt ps k rs rule: runner_at.induct) auto

lemma length_sizes:
  "sum_list (map (\<lambda>(todo, size). length todo + unat (size :: u32)) rs) =
     length (concat (map fst rs)) + sum_list (map (\<lambda>(todo, size). unat size) rs)"
  by (induction rs) auto

lemma load_abs: "implements c a \<Longrightarrow> serial_inv a \<Longrightarrow> strand_load c = in_flight a + 2 * length (pushing c)"
proof -
  assume a: "implements c a" "serial_inv a"
  obtain k rs where r: "runner_at (intrusive_next (smem c)) (extracting c) k rs" "runs a = rs @ runs (control c)"
    using a(1) by (rule implementsE)
  show ?thesis
    using runner_sizes [OF r(1)] implements_fields [OF a(1)]
    by (simp add: strand_load_def in_flight_def queued_abs [OF a] length_sizes r(2) del: length_concat map_append)
      (simp add: length_concat)
qed

lemma runner_alone:
  assumes "implements c a" "serial_inv a"
  shows "extracting c \<noteq> [] \<Longrightarrow> runs (control c) = [] \<and> inner (control c) = 0 \<and> waking (control c) = 0"
    and "runs (control c) \<noteq> [] \<Longrightarrow> extracting c = []" and "0 < inner (control c) \<Longrightarrow> extracting c = []"
proof -
  obtain k rs where r: "runner_at (intrusive_next (smem c)) (extracting c) k rs"
    and "inner a = inner (control c) + k" "runs a = rs @ runs (control c)" "waking a = waking (control c)"
    using assms(1) implements_fields(3) [OF assms(1)] by (auto elim: implementsE)
  moreover have "waking a + inner a + length (runs a) \<le> 1" using assms(2) by (auto simp: serial_inv_def split: if_splits)
  moreover have "extracting c \<noteq> [] \<Longrightarrow> k + length rs = 1" using r by (cases "(intrusive_next (smem c), extracting c, k, rs)" rule: runner_at.cases) auto
  ultimately show "extracting c \<noteq> [] \<Longrightarrow> runs (control c) = [] \<and> inner (control c) = 0 \<and> waking (control c) = 0"
    and "runs (control c) \<noteq> [] \<Longrightarrow> extracting c = []" and "0 < inner (control c) \<Longrightarrow> extracting c = []"
    by (auto simp: add_eq_if split: if_splits)
qed

section \<open>Every step is one of the list, or none\<close>

lemma runner_links:
  "runner_at nxt ps k rs \<Longrightarrow> (\<And>n. n \<in> set (concat (map fst rs)) \<Longrightarrow> nxt' n = nxt n) \<Longrightarrow> runner_at nxt' ps k rs"
proof (induction nxt ps k rs rule: runner_at.induct)
  case (4 nxt h k rs)
  then obtain ys where "k = 0" "chain nxt h ys" "ys \<noteq> []" "rs = [(rev ys, 0)]" by auto
  then show ?case using chain_cong [of ys nxt' nxt h] 4 by auto
qed auto

lemma implementsI:
  assumes "holds (smem c) xs" "runner_at (intrusive_next (smem c)) (extracting c) k rs"
  shows "implements c ((control c)\<lparr>batch := xs, inner := inner (control c) + k, runs := rs @ runs (control c)\<rparr>)"
  using assms unfolding implements_def by auto

text \<open>What changes neither the list nor the control.\<close>

lemma implements_links:
  assumes i: "implements c a" "serial_inv a" and n: "n \<notin> set (queued c)"
    and c': "stack_head (smem c') = stack_head (smem c)" "intrusive_next (smem c') = (intrusive_next (smem c))(n := p)"
      "extracting c' = extracting c" "control c' = control c"
  shows "implements c' a"
proof -
  have q: "n \<notin> set (batch a)" "n \<notin> set (concat (map fst (runs a)))" using n by (auto simp: queued_abs [OF i])
  obtain k rs where r: "runner_at (intrusive_next (smem c)) (extracting c) k rs" "runs a = rs @ runs (control c)"
    and a: "a = (control c)\<lparr>batch := batch a, inner := inner (control c) + k, runs := rs @ runs (control c)\<rparr>"
    using i(1) by (rule implementsE)
  have "runner_at (intrusive_next (smem c')) (extracting c') k rs"
    using q(2) by (intro runner_links [OF r(1) [folded c'(3)]]) (auto simp: c'(2) r(2))
  moreover have "holds (smem c') (batch a)"
    using i(1) q(1) by (simp add: implements_def holds_def c' chain_other)
  ultimately show ?thesis using implementsI [of c' "batch a" k rs] by (subst a) (simp add: c'(4))
qed

lemma run_cas_head_push:
  "run (cas_head_push n) m = (let m1 = snd (next_failure m) in
     if \<not> fst (next_failure m) \<and> stack_head m = intrusive_next m n then (Inr True, m1\<lparr>stack_head := Some n\<rparr>)
     else (Inr False, m1\<lparr>intrusive_next := (intrusive_next m)(n := stack_head m)\<rparr>))"
  by (simp add: cas_head_push_def split_beta Let_def)

lemma run_cas_head_null:
  "run (cas_head_null h) m = (let m1 = snd (next_failure m) in
     if \<not> fst (next_failure m) \<and> stack_head m = h then (Inr (True, h), m1\<lparr>stack_head := None\<rparr>)
     else (Inr (False, stack_head m), m1))"
  by (simp add: cas_head_null_def split_beta Let_def)

lemma sim_load:
  assumes i: "implements c a" "serial_inv a" and n: "fst (pushing c ! i) \<notin> set (queued c)"
  shows "implements (push_load i c) a"
  by (rule implements_links [OF i n]) (simp_all add: push_load_def Let_def)

lemma sim_cas:
  assumes i: "implements c a" "serial_inv a" and n: "fst (pushing c ! i) \<notin> set (queued c)"
  shows "implements (push_cas i c) a \<and> control (push_cas i c) = control c \<and> pushing (push_cas i c) = pushing c \<or>
    implements (push_cas i c) (schedule_push (fst (pushing c ! i)) a) \<and> pushing (push_cas i c) = remove_nth i (pushing c) \<and>
      control (push_cas i c) = (control c)\<lparr>adding := adding (control c) + 1, pushed := pushed (control c) @ [fst (pushing c ! i)]\<rparr>"
proof (cases "\<not> fst (next_failure (smem c)) \<and> stack_head (smem c) = intrusive_next (smem c) (fst (pushing c ! i))")
  case True
  let ?n = "fst (pushing c ! i)" and ?c = "push_cas i c"
  have c': "smem ?c = (snd (next_failure (smem c)))\<lparr>stack_head := Some ?n\<rparr>" "pushing ?c = remove_nth i (pushing c)"
    "extracting ?c = extracting c"
    "control ?c = (control c)\<lparr>adding := adding (control c) + 1, pushed := pushed (control c) @ [?n]\<rparr>"
    using True by (simp_all add: push_cas_def run_cas_head_push Let_def)
  obtain k rs where r: "runner_at (intrusive_next (smem c)) (extracting c) k rs"
    and a: "a = (control c)\<lparr>batch := batch a, inner := inner (control c) + k, runs := rs @ runs (control c)\<rparr>"
    using i(1) by (rule implementsE)
  have "holds (smem ?c) (?n # batch a)"
    using i(1) n True by (simp add: c' implements_def holds_def queued_abs [OF i])
  then have "implements ?c ((control ?c)\<lparr>batch := ?n # batch a, inner := inner (control ?c) + k, runs := rs @ runs (control ?c)\<rparr>)"
    using r by (intro implementsI) (simp_all add: c')
  also have "(control ?c)\<lparr>batch := ?n # batch a, inner := inner (control ?c) + k, runs := rs @ runs (control ?c)\<rparr> = schedule_push ?n a"
    by (subst (2) a) (simp add: c' schedule_push_def)
  finally show ?thesis using c' by simp
next
  case False
  have "implements (push_cas i c) a"
    using False by (intro implements_links [OF i n]) (auto simp: push_cas_def run_cas_head_push Let_def)
  then show ?thesis using False by (auto simp: push_cas_def run_cas_head_push Let_def)
qed

lemma sim_control:
  assumes "implements c a"
  shows "implements (c\<lparr>control := schedule_add (control c)\<rparr>) (schedule_add a)"
    and "implements (c\<lparr>control := schedule_inner (control c)\<rparr>) (schedule_inner a)"
proof -
  obtain k rs where r: "runner_at (intrusive_next (smem c)) (extracting c) k rs"
    and a: "a = (control c)\<lparr>batch := batch a, inner := inner (control c) + k, runs := rs @ runs (control c)\<rparr>"
    using assms by (rule implementsE)
  have h: "holds (smem c) (batch a)" using assms by (simp add: implements_def)
  have "implements (c\<lparr>control := f (control c)\<rparr>) (f a)"
    if "f a = (f (control c))\<lparr>batch := batch a, inner := inner (f (control c)) + k, runs := rs @ runs (f (control c))\<rparr>" for f
    unfolding that using implementsI [of "c\<lparr>control := f (control c)\<rparr>" "batch a" k rs] h r by simp
  moreover have "schedule_add a = (schedule_add (control c))\<lparr>batch := batch a, inner := inner (schedule_add (control c)) + k,
      runs := rs @ runs (schedule_add (control c))\<rparr>"
    by (subst a) (simp add: schedule_add_eq)
  moreover have "schedule_inner a = (schedule_inner (control c))\<lparr>batch := batch a, inner := inner (schedule_inner (control c)) + k,
      runs := rs @ runs (schedule_inner (control c))\<rparr>"
    by (subst a) (simp add: schedule_inner_def)
  ultimately show "implements (c\<lparr>control := schedule_add (control c)\<rparr>) (schedule_add a)"
    "implements (c\<lparr>control := schedule_inner (control c)\<rparr>) (schedule_inner a)" by blast+
qed

lemma sim_start:
  assumes i: "implements c a" "serial_inv a" and "0 < inner (control c)"
  shows "implements (extract_start c) a"
proof -
  have e: "extracting c = []" by (rule runner_alone(3) [OF i assms(3)])
  obtain k rs where r: "runner_at (intrusive_next (smem c)) (extracting c) k rs"
    and a: "a = (control c)\<lparr>batch := batch a, inner := inner (control c) + k, runs := rs @ runs (control c)\<rparr>"
    using i(1) by (rule implementsE)
  have "implements (extract_start c) ((control (extract_start c))\<lparr>batch := batch a,
      inner := inner (control (extract_start c)) + 1, runs := [] @ runs (control (extract_start c))\<rparr>)"
    using i(1) e by (intro implementsI) (simp_all add: implements_def extract_start_def)
  then show ?thesis using r e assms(3) by (subst a) (simp add: extract_start_def)
qed

text \<open>While the serial task extracts, it is alone and the stack is not empty.\<close>

lemma extracting_alone:
  assumes "implements c a" "serial_inv a" "i < length (extracting c)"
  obtains p k rs where "extracting c = [p]" "i = 0" "runner_at (intrusive_next (smem c)) [p] k rs" "runs (control c) = []"
    "inner (control c) = 0" "inner a = k" "runs a = rs" "holds (smem c) (batch a)"
    "a = (control c)\<lparr>batch := batch a, inner := k, runs := rs\<rparr>" "k = 0 \<or> batch a \<noteq> []"
proof -
  have "extracting c \<noteq> []" using assms(3) by auto
  note e = runner_alone(1) [OF assms(1,2) this, THEN conjunct1] runner_alone(1) [OF assms(1,2) this, THEN conjunct2, THEN conjunct1]
  obtain k rs where r: "runner_at (intrusive_next (smem c)) (extracting c) k rs"
    and a: "a = (control c)\<lparr>batch := batch a, inner := inner (control c) + k, runs := rs @ runs (control c)\<rparr>"
      "inner a = inner (control c) + k" "runs a = rs @ runs (control c)"
    using assms(1) by (rule implementsE)
  from r assms(3) obtain p where p: "extracting c = [p]" "i = 0"
    by (cases "(intrusive_next (smem c), extracting c, k, rs)" rule: runner_at.cases) auto
  show thesis
    using extract_inv(2) [OF assms(2), of rev] assms(1) p r a e by (intro that [of p k rs]) (auto simp: implements_def)
qed

lemma holds_head: "holds m xs \<Longrightarrow> stack_head m = None \<longleftrightarrow> xs = []"
  by (cases xs) (auto simp: holds_def)

lemma sim_extract_load:
  assumes i: "implements c a" "serial_inv a" and p: "i < length (extracting c)" "extracting c ! i = Extract_load"
  shows "implements (extract_load i c) a"
proof -
  obtain q k rs where x: "extracting c = [q]" "i = 0" "runner_at (intrusive_next (smem c)) [q] k rs" "runs (control c) = []"
    "inner (control c) = 0" "inner a = k" "runs a = rs" "holds (smem c) (batch a)"
    and a: "a = (control c)\<lparr>batch := batch a, inner := k, runs := rs\<rparr>" and ne: "k = 0 \<or> batch a \<noteq> []"
    using i p(1) by (rule extracting_alone)
  have q: "q = Extract_load" using x(1,2) p(2) by simp
  then have k: "k = 1" "rs = []" "batch a \<noteq> []" using x(3) ne by simp_all
  then obtain n where n: "stack_head (smem c) = Some n" using holds_head [OF x(8)] by auto
  have "implements (extract_load i c) ((control c)\<lparr>batch := batch a, inner := inner (control c) + 1, runs := [] @ runs (control c)\<rparr>)"
    using implementsI [of "extract_load i c" "batch a" 1 "[]"] x(8) by (simp add: extract_load_def extract_next_def x(1,2) n)
  then show ?thesis by (subst a) (simp add: k x)
qed

lemma sim_extract_cas:
  assumes i: "implements c a" "serial_inv a" and p: "i < length (extracting c)" "extracting c ! i = Extract_cas h"
  shows "implements (extract_cas i h c) a \<or> implements (extract_cas i h c) (execute_extract rev a)"
proof -
  obtain q k rs where x: "extracting c = [q]" "i = 0" "runner_at (intrusive_next (smem c)) [q] k rs" "runs (control c) = []"
    "inner (control c) = 0" "inner a = k" "runs a = rs" "holds (smem c) (batch a)"
    and a: "a = (control c)\<lparr>batch := batch a, inner := k, runs := rs\<rparr>" and ne: "k = 0 \<or> batch a \<noteq> []"
    using i p(1) by (rule extracting_alone)
  have q: "q = Extract_cas h" using x(1,2) p(2) by simp
  then have k: "k = 1" "rs = []" "h \<noteq> None" "batch a \<noteq> []" using x(3) ne by simp_all
  note e = x(1,2,4-8) q k
  let ?c = "extract_cas i h c"
  have ctl: "control ?c = control c" by (simp add: extract_cas_def run_cas_head_null Let_def)
  show ?thesis
  proof (cases "\<not> fst (next_failure (smem c)) \<and> stack_head (smem c) = h")
    case True
    then have "implements ?c ((control c)\<lparr>batch := [], inner := inner (control c) + 0, runs := [(rev (batch a), 0)] @ runs (control c)\<rparr>)"
      using implementsI [of ?c "[]" 0 "[(rev (batch a), 0)]"] x(8) k(4)
      by (simp add: ctl) (simp add: extract_cas_def run_cas_head_null Let_def holds_def x(1,2))
    moreover have "execute_extract rev a = (control c)\<lparr>batch := [], inner := 0, runs := [(rev (batch a), 0)]\<rparr>"
      using k(4) by (simp add: execute_extract_def Let_def x(6,7) k) (subst a, simp)
    ultimately show ?thesis by (simp add: x(4,5))
  next
    case False
    then have "implements ?c ((control c)\<lparr>batch := batch a, inner := inner (control c) + 1, runs := [] @ runs (control c)\<rparr>)"
      using implementsI [of ?c "batch a" 1 "[]"] x(8) k(4) holds_head [OF x(8)]
      by (simp add: ctl) (auto simp: extract_cas_def run_cas_head_null extract_next_def Let_def x(1,2))
    moreover have "a = (control c)\<lparr>batch := batch a, inner := inner (control c) + 1, runs := [] @ runs (control c)\<rparr>"
      by (subst a) (simp add: e)
    ultimately show ?thesis by simp
  qed
qed

lemma sim_begin:
  assumes L: "forward_list_laws L" and i: "implements c a" "serial_inv a" and d: "distinct (queued c)"
    and p: "i < length (extracting c)" "extracting c ! i = Extract_done h"
  shows "implements (begin_batch L i h c) a \<and> control (begin_batch L i h c) = (control c)\<lparr>runs := runs a\<rparr>"
proof -
  obtain q k rs where x: "extracting c = [q]" "i = 0" "runner_at (intrusive_next (smem c)) [q] k rs" "runs (control c) = []"
    "inner (control c) = 0" "inner a = k" "runs a = rs" "holds (smem c) (batch a)"
    and a: "a = (control c)\<lparr>batch := batch a, inner := k, runs := rs\<rparr>" and ne: "k = 0 \<or> batch a \<noteq> []"
    using i p(1) by (rule extracting_alone)
  have q: "q = Extract_done h" using x(1,2) p(2) by simp
  then obtain ys where ys: "k = 0" "rs = [(rev ys, 0)]" "chain (intrusive_next (smem c)) h ys" "ys \<noteq> []" using x(3) by auto
  have e: "extracting c = [Extract_done h]" "i = 0" "k = 0" "rs = [(rev ys, 0)]" "chain (intrusive_next (smem c)) h ys" "ys \<noteq> []"
    "holds (smem c) (batch a)" "runs (control c) = []" "inner (control c) = 0" "runs a = [(rev ys, 0)]"
    using x ys q by simp_all
  have dq: "distinct ys" "\<And>n. n \<in> set (batch a) \<Longrightarrow> n \<notin> set ys" using d by (auto simp: queued_abs [OF i] e(10))
  obtain n where h: "h = Some n" using e(5,6) by (cases ys) auto
  obtain nxt tl where rv: "fl_reverse L (intrusive_next (smem c)) h = (nxt, tl)" by fastforce
  note laws = forward_list_lawsD [OF L e(5) dq(1), unfolded rv fst_conv snd_conv]
  have each: "fl_for_each L nxt tl = rev ys" using forward_list_lawsD(3) [OF L laws(1)] dq(1) by simp
  have c': "begin_batch L i h c = c\<lparr>extracting := [], smem := (smem c)\<lparr>intrusive_next := nxt\<rparr>, control := (control c)\<lparr>runs := [(rev ys, 0)]\<rparr>\<rparr>"
    using rv each by (simp add: begin_batch_def remove_nth_def h x(1,2,4) Let_def)
  have "holds ((smem c)\<lparr>intrusive_next := nxt\<rparr>) (batch a)"
    using e(7) laws(2) dq(2) chain_cong [of "batch a" nxt "intrusive_next (smem c)"] by (simp add: holds_def)
  then have "implements (begin_batch L i h c) ((control c)\<lparr>runs := [(rev ys, 0)], batch := batch a, inner := inner (control c) + 0,
      runs := [] @ [(rev ys, 0)]\<rparr>)"
    using implementsI [of "begin_batch L i h c" "batch a" 0 "[]"] by (simp add: c')
  then have "implements (begin_batch L i h c) a" using e by (subst a) simp
  moreover have "control (begin_batch L i h c) = (control c)\<lparr>runs := runs a\<rparr>" by (simp add: c' e(10))
  ultimately show ?thesis ..
qed

lemma sim_run:
  assumes i: "implements c a" "serial_inv a" and r: "runs (control c) \<noteq> []"
  shows "implements (c\<lparr>control := execute_task i (control c)\<rparr>) (execute_task i a)"
    and "implements (c\<lparr>control := execute_finish i (control c)\<rparr>) (execute_finish i a)"
    and "runs a = runs (control c)"
proof -
  have e: "extracting c = []" by (rule runner_alone(2) [OF i r])
  obtain k rs where x: "runner_at (intrusive_next (smem c)) (extracting c) k rs"
    "a = (control c)\<lparr>batch := batch a, inner := inner (control c) + k, runs := rs @ runs (control c)\<rparr>" "runs a = rs @ runs (control c)"
    using i(1) by (rule implementsE)
  have k: "k = 0" "rs = []" using x(1) e by simp_all
  have h: "holds (smem c) (batch a)" using i(1) by (simp add: implements_def)
  show "runs a = runs (control c)" using x(3) k by simp
  have a: "a = (control c)\<lparr>batch := batch a\<rparr>" by (subst x(2)) (simp add: k)
  have "implements (c\<lparr>control := f (control c)\<rparr>) (f a)" if "f a = (f (control c))\<lparr>batch := batch a\<rparr>" for f
    unfolding that using implementsI [of "c\<lparr>control := f (control c)\<rparr>" "batch a" 0 "[]"] h e by simp
  moreover have "execute_task i a = (execute_task i (control c))\<lparr>batch := batch a\<rparr>"
    by (subst a) (simp add: execute_task_def split: list.split prod.split)
  moreover have "execute_finish i a = (execute_finish i (control c))\<lparr>batch := batch a\<rparr>"
    by (subst a) (simp add: execute_finish_def Let_def)
  ultimately show "implements (c\<lparr>control := execute_task i (control c)\<rparr>) (execute_task i a)"
    "implements (c\<lparr>control := execute_finish i (control c)\<rparr>) (execute_finish i a)" by blast+
qed

section \<open>Steps that the list does not see\<close>

text \<open>
  Retries come to an end: a compare-exchange fails spuriously, of which the memory has so many in store, or because the
  head has changed since it was read, and then what was read is up to date.
\<close>

fun push_rank :: "stack_mem \<Rightarrow> nat \<times> push_pc \<Rightarrow> nat" where
  "push_rank m (n, Push_load) = 2"
| "push_rank m (n, Push_cas) = (if intrusive_next m n = stack_head m then 0 else 1)"

fun extract_rank :: "stack_mem \<Rightarrow> extract_pc \<Rightarrow> nat" where
  "extract_rank m Extract_load = 3"
| "extract_rank m (Extract_cas h) = (if h = stack_head m then 1 else 2)"
| "extract_rank m (Extract_done h) = 1"

definition strand_rank :: "strand \<Rightarrow> nat \<times> nat" where
  "strand_rank c = (length (head_failures (smem c)),
     sum_list (map (push_rank (smem c)) (pushing c)) + sum_list (map (extract_rank (smem c)) (extracting c)) + 4 * inner (control c))"

abbreviation rank_less :: "nat \<times> nat \<Rightarrow> nat \<times> nat \<Rightarrow> bool" where
  "rank_less p q \<equiv> (p, q) \<in> less_than <*lex*> less_than"

lemma sum_list_change:
  fixes f f' :: "'a \<Rightarrow> nat"
  assumes "i < length xs" "\<And>j. j < length xs \<Longrightarrow> j \<noteq> i \<Longrightarrow> f' (xs ! j) = f (xs ! j)"
  shows "sum_list (map f' (xs[i := y])) + f (xs ! i) = sum_list (map f xs) + f' y"
proof -
  have "sum_list (map f' (xs[i := y])) = (\<Sum>j<length xs. f' (xs[i := y] ! j))"
    by (simp add: sum_list_sum_nth atLeast0LessThan)
  also have "\<dots> = f' y + (\<Sum>j\<in>{..<length xs} - {i}. f' (xs[i := y] ! j))"
    using assms(1) by (subst sum.remove [of _ i]) auto
  also have "(\<Sum>j\<in>{..<length xs} - {i}. f' (xs[i := y] ! j)) = (\<Sum>j\<in>{..<length xs} - {i}. f (xs ! j))"
    using assms(2) by (intro sum.cong) auto
  finally have 1: "sum_list (map f' (xs[i := y])) = f' y + (\<Sum>j\<in>{..<length xs} - {i}. f (xs ! j))" .
  have "sum_list (map f xs) = (\<Sum>j<length xs. f (xs ! j))" by (simp add: sum_list_sum_nth atLeast0LessThan)
  also have "\<dots> = f (xs ! i) + (\<Sum>j\<in>{..<length xs} - {i}. f (xs ! j))"
    using assms(1) by (subst sum.remove [of _ i]) auto
  finally show ?thesis using 1 by simp
qed

lemma push_rank_other: "n \<noteq> fst p \<Longrightarrow> stack_head m' = stack_head m \<Longrightarrow> intrusive_next m' = (intrusive_next m)(n := x) \<Longrightarrow>
    push_rank m' p = push_rank m p"
  by (cases "(m, p)" rule: push_rank.cases) auto

lemma push_ranks:
  assumes "distinct (map fst (pushing c))" "i < length (pushing c)" "n = fst (pushing c ! i)"
    and "stack_head m' = stack_head (smem c)" "intrusive_next m' = (intrusive_next (smem c))(n := x)"
  shows "sum_list (map (push_rank m') ((pushing c)[i := p])) + push_rank (smem c) (pushing c ! i) =
    sum_list (map (push_rank (smem c)) (pushing c)) + push_rank m' p"
proof (rule sum_list_change [OF assms(2)])
  fix j assume j: "j < length (pushing c)" "j \<noteq> i"
  have "n \<noteq> fst (pushing c ! j)" using nth_eq_iff_index_eq [OF assms(1), of i j] assms(2,3) j by auto
  then show "push_rank m' (pushing c ! j) = push_rank (smem c) (pushing c ! j)" using assms(4,5) by (rule push_rank_other)
qed

lemma extract_rank_head:
  assumes "stack_head m' = stack_head m"
  shows "extract_rank m' = extract_rank m"
proof (rule ext)
  fix p
  show "extract_rank m' p = extract_rank m p" by (cases p) (simp_all add: assms)
qed

lemma push_rank_links:
  assumes "stack_head m' = stack_head m" "\<And>p. p \<in> set ps \<Longrightarrow> intrusive_next m' (fst p) = intrusive_next m (fst p)"
  shows "sum_list (map (push_rank m') ps) = sum_list (map (push_rank m) ps)"
proof (rule arg_cong [of _ _ sum_list], rule map_cong [OF refl])
  fix p
  assume "p \<in> set ps"
  then show "push_rank m' p = push_rank m p" using assms by (cases "(m, p)" rule: push_rank.cases) fastforce+
qed

lemma rank_load:
  assumes "distinct (map fst (pushing c))" "i < length (pushing c)" "snd (pushing c ! i) = Push_load"
  shows "rank_less (strand_rank (push_load i c)) (strand_rank c)"
proof -
  let ?m = "smem (push_load i c)" and ?n = "fst (pushing c ! i)"
  have p: "pushing c ! i = (?n, Push_load)" using assms(3) by (metis prod.collapse)
  have m: "stack_head ?m = stack_head (smem c)" "intrusive_next ?m = (intrusive_next (smem c))(?n := stack_head (smem c))"
    "head_failures ?m = head_failures (smem c)" "pushing (push_load i c) = (pushing c)[i := (?n, Push_cas)]"
    "extracting (push_load i c) = extracting c" "control (push_load i c) = control c"
    by (simp_all add: push_load_def Let_def)
  have "push_rank (smem c) (pushing c ! i) = 2" "push_rank ?m (?n, Push_cas) = 0" by (subst p, simp) (simp add: m)
  then have "sum_list (map (push_rank ?m) ((pushing c)[i := (?n, Push_cas)])) < sum_list (map (push_rank (smem c)) (pushing c))"
    using push_ranks [OF assms(1,2) refl m(1,2), of "(?n, Push_cas)"] by simp
  then show ?thesis by (simp add: strand_rank_def m extract_rank_head [OF m(1)])
qed

lemma next_failure_shorter:
  "length (head_failures (snd (next_failure m))) < length (head_failures m) \<or> \<not> fst (next_failure m) \<and> snd (next_failure m) = m"
  by (cases "head_failures m") (simp_all add: next_failure_def)

lemma rank_cas_failed:
  assumes "distinct (map fst (pushing c))" "i < length (pushing c)" "snd (pushing c ! i) = Push_cas"
    and fail: "fst (next_failure (smem c)) \<or> stack_head (smem c) \<noteq> intrusive_next (smem c) (fst (pushing c ! i))"
  shows "rank_less (strand_rank (push_cas i c)) (strand_rank c)"
proof -
  let ?m = "smem (push_cas i c)" and ?n = "fst (pushing c ! i)"
  have p: "pushing c ! i = (?n, Push_cas)" using assms(3) by (metis prod.collapse)
  have m: "stack_head ?m = stack_head (smem c)" "intrusive_next ?m = (intrusive_next (smem c))(?n := stack_head (smem c))"
    "head_failures ?m = head_failures (snd (next_failure (smem c)))" "pushing (push_cas i c) = pushing c"
    "extracting (push_cas i c) = extracting c" "control (push_cas i c) = control c"
    using fail by (auto simp: push_cas_def run_cas_head_push Let_def)
  show ?thesis
  proof (cases "length (head_failures ?m) < length (head_failures (smem c))")
    case True
    then show ?thesis by (simp add: strand_rank_def)
  next
    case False
    then have nf: "\<not> fst (next_failure (smem c))" "head_failures ?m = head_failures (smem c)"
      using next_failure_shorter [of "smem c"] by (auto simp: m)
    then have "push_rank (smem c) (pushing c ! i) = 1" using fail by (subst p) simp
    moreover have "push_rank ?m (pushing c ! i) = 0" by (subst p) (simp add: m)
    ultimately have "sum_list (map (push_rank ?m) (pushing c)) < sum_list (map (push_rank (smem c)) (pushing c))"
      using push_ranks [OF assms(1,2) refl m(1,2), of "pushing c ! i"] by simp
    then show ?thesis by (simp add: strand_rank_def m nf(2) [unfolded m] extract_rank_head [OF m(1)])
  qed
qed

lemma rank_start: "0 < inner (control c) \<Longrightarrow> rank_less (strand_rank (extract_start c)) (strand_rank c)"
  by (cases "inner (control c)") (simp_all add: strand_rank_def extract_start_def)

lemma rank_extract_load:
  assumes "extracting c = [Extract_load]"
  shows "rank_less (strand_rank (extract_load 0 c)) (strand_rank c)"
  by (simp add: strand_rank_def extract_load_def extract_next_def assms)

lemma rank_extract_failed:
  assumes "extracting c = [Extract_cas h]" "fst (next_failure (smem c)) \<or> stack_head (smem c) \<noteq> h"
  shows "rank_less (strand_rank (extract_cas 0 h c)) (strand_rank c)"
proof -
  let ?m = "smem (extract_cas 0 h c)"
  have m: "stack_head ?m = stack_head (smem c)" "intrusive_next ?m = intrusive_next (smem c)"
    "head_failures ?m = head_failures (snd (next_failure (smem c)))" "pushing (extract_cas 0 h c) = pushing c"
    "extracting (extract_cas 0 h c) = [extract_next (stack_head (smem c))]" "control (extract_cas 0 h c) = control c"
    using assms(2) by (auto simp: extract_cas_def run_cas_head_null Let_def assms(1))
  have p: "sum_list (map (push_rank ?m) (pushing c)) = sum_list (map (push_rank (smem c)) (pushing c))" by (rule push_rank_links) (simp_all add: m)
  show ?thesis
  proof (cases "length (head_failures ?m) < length (head_failures (smem c))")
    case True
    then show ?thesis by (simp add: strand_rank_def)
  next
    case False
    then have nf: "\<not> fst (next_failure (smem c))" "head_failures ?m = head_failures (smem c)"
      using next_failure_shorter [of "smem c"] by (auto simp: m)
    then show ?thesis using assms p by (auto simp: strand_rank_def m extract_next_def nf(2) [unfolded m])
  qed
qed

lemma rank_begin:
  assumes L: "forward_list_laws L" and i: "implements c a" "serial_inv a" and d: "distinct (map fst (pushing c) @ queued c)"
    and e: "extracting c = [Extract_done h]"
  shows "rank_less (strand_rank (begin_batch L 0 h c)) (strand_rank c)"
proof -
  have l: "0 < length (extracting c)" using e by simp
  obtain q k rs where x: "extracting c = [q]" "runner_at (intrusive_next (smem c)) [q] k rs" "runs a = rs"
    using i l by (rule extracting_alone)
  then obtain ys where ys: "chain (intrusive_next (smem c)) h ys" "ys \<noteq> []" "rs = [(rev ys, 0)]" using e by auto
  have dy: "distinct ys" "\<And>n. n \<in> fst ` set (pushing c) \<Longrightarrow> n \<notin> set ys" using d x(3) ys(3) by (auto simp: queued_abs [OF i])
  obtain n where h: "h = Some n" using ys by (cases ys) auto
  obtain nxt tl where rv: "fl_reverse L (intrusive_next (smem c)) h = (nxt, tl)" by fastforce
  let ?c = "begin_batch L 0 h c"
  have c': "smem ?c = (smem c)\<lparr>intrusive_next := nxt\<rparr>" "pushing ?c = pushing c" "extracting ?c = []" "inner (control ?c) = inner (control c)"
    using rv by (simp_all add: begin_batch_def remove_nth_def h e Let_def)
  have "sum_list (map (push_rank (smem ?c)) (pushing c)) = sum_list (map (push_rank (smem c)) (pushing c))"
    using forward_list_lawsD(2) [OF L ys(1) dy(1)] dy(2) by (intro push_rank_links) (auto simp: c' rv)
  then show ?thesis by (simp add: strand_rank_def c' e)
qed

section \<open>The simulation\<close>

lemma length_remove_nth: "i < length xs \<Longrightarrow> length xs = Suc (length (remove_nth i xs))"
  by (simp add: remove_nth_def)

lemma map_remove_nth: "map f (remove_nth i xs) = remove_nth i (map f xs)"
  by (simp add: remove_nth_def take_map drop_map)

lemma remove_nth_mset: "i < length xs \<Longrightarrow> mset xs = add_mset (xs ! i) (mset (remove_nth i xs))"
  by (subst id_take_nth_drop [of i xs]) (simp_all add: remove_nth_def)

lemma serial_step_frame:
  assumes "serial_step rev False a a'" "serial_inv a"
  shows "pushed a' = pushed a" "\<exists>xs. executed a' = executed a @ xs" "in_flight a' \<le> in_flight a"
proof -
  show "pushed a' = pushed a" "\<exists>xs. executed a' = executed a @ xs"
    using assms(1) by (cases; auto simp: schedule_add_eq schedule_inner_def execute_extract_def execute_task_def
        execute_finish_def Let_def split: list.splits prod.splits)+
  show "in_flight a' \<le> in_flight a"
    using assms(1)
  proof cases
    case (st_task i)
    note alone = active_alone(2) [OF assms(2) st_task(2)]
    obtain n ns size where r: "runs a = [(n # ns, size)]" using alone st_task(3) by (cases "runs a ! 0"; cases "fst (runs a ! 0)") auto
    have "in_flight a < 2 ^ 32" using assms(2) by (simp add: serial_inv_def)
    then have "unat (size + 1) = unat size + 1" using r by (simp add: in_flight_def unat_word_ariths)
    then show ?thesis using alone st_task(1) by (simp add: in_flight_def execute_task_def r)
  next
    case (st_finish i)
    note alone = active_alone(2) [OF assms(2) st_finish(2)]
    then obtain size where "runs a = [([], size)]" using st_finish(3) by (cases "runs a ! 0") auto
    then show ?thesis using alone st_finish(1) by (simp add: in_flight_def execute_finish_def Let_def)
  next
    case st_extract
    note alone = active_alone(1) [OF assms(2) st_extract(2)]
    then show ?thesis using st_extract(1) by (simp add: in_flight_def execute_extract_def Let_def)
  qed (simp_all add: in_flight_def schedule_add_eq schedule_inner_def)
qed

text \<open>An internal step of the strand is none or one of the abstract strand; a call only adds to those pushing.\<close>

definition sim_by :: "strand \<Rightarrow> nat serial \<Rightarrow> strand \<Rightarrow> nat serial \<Rightarrow> bool" where
  "sim_by c a c' a' \<longleftrightarrow>
     a' = a \<and> length (pushing c') = length (pushing c) \<and> rank_less (strand_rank c') (strand_rank c) \<or>
     serial_step rev False a a' \<and> length (pushing c') = length (pushing c) \<or>
     (\<exists>n. serial_step rev True a a' \<and> a' = schedule_push n a \<and> length (pushing c) = Suc (length (pushing c')))"

lemma inv_same:
  assumes "strand_inv c a" "implements c' a" "mset (map fst (pushing c')) = mset (map fst (pushing c))"
  shows "strand_inv c' a"
proof -
  have i: "implements c a" "serial_inv a" using assms(1) by (simp_all add: strand_inv_def)
  have q: "queued c' = queued c" by (simp add: queued_abs [OF i] queued_abs [OF assms(2) i(2)])
  have l: "length (pushing c') = length (pushing c)" using arg_cong [OF assms(3), of size] by simp
  have "distinct (map fst (pushing c') @ queued c)"
    using assms(1) mset_eq_imp_distinct_iff [OF assms(3)] mset_eq_setD [OF assms(3)] by (auto simp: strand_inv_def)
  then show ?thesis
    using assms(1,2) i(2) load_abs [OF i] load_abs [OF assms(2) i(2)] l by (simp add: strand_inv_def q)
qed

lemma inv_abstract:
  assumes "strand_inv c a" "implements c' a'" "serial_step rev False a a'" "pushing c' = pushing c"
  shows "strand_inv c' a'"
proof -
  have i: "implements c a" "serial_inv a" using assms(1) by (simp_all add: strand_inv_def)
  note f = serial_step_frame [OF assms(3) i(2)]
  have i': "serial_inv a'" using serial_step_inv [OF assms(3) i(2)] by simp
  obtain xs where xs: "executed a' = executed a @ xs" using f(2) by blast
  have "executed (control c') = executed (control c) @ xs" "pushed (control c') = pushed (control c)"
    using implements_fields(4,5) [OF i(1)] implements_fields(4,5) [OF assms(2)] f(1) xs by simp_all
  then have "queued c' = drop (length xs) (queued c)" by (simp add: queued_def add.commute)
  then have "distinct (map fst (pushing c') @ queued c')"
    using assms(1,4) set_drop_subset [of "length xs" "queued c"] by (auto simp: strand_inv_def distinct_drop)
  then show ?thesis
    using assms i' load_abs [OF i] load_abs [OF assms(2) i'] f(3) by (simp add: strand_inv_def)
qed

lemma inv_push:
  assumes inv: "strand_inv c a" and i: "i < length (pushing c)" and imp: "implements c' (schedule_push (fst (pushing c ! i)) a)"
    and c': "pushing c' = remove_nth i (pushing c)"
      "control c' = (control c)\<lparr>adding := adding (control c) + 1, pushed := pushed (control c) @ [fst (pushing c ! i)]\<rparr>"
  shows "strand_inv c' (schedule_push (fst (pushing c ! i)) a) \<and> serial_step rev True a (schedule_push (fst (pushing c ! i)) a)"
proof -
  let ?n = "fst (pushing c ! i)"
  have a: "implements c a" "serial_inv a" using inv by (simp_all add: strand_inv_def)
  have load: "strand_load c = in_flight a + 2 * length (pushing c)" by (rule load_abs [OF a])
  have f: "in_flight (schedule_push ?n a) = in_flight a + 2" by (simp add: in_flight_def schedule_push_def)
  have room: "in_flight a + 2 < 2 ^ 32" using inv i load by (simp add: strand_inv_def)
  then have step: "serial_step rev True a (schedule_push ?n a)" by (rule st_push)
  have a': "serial_inv (schedule_push ?n a)" by (rule push_inv [OF a(2) room])
  have "length (executed (control c)) \<le> length (pushed (control c))"
    using a(2) implements_fields(4,5) [OF a(1)] by (metis le_add1 length_append serial_inv_def)
  then have q: "queued c' = queued c @ [?n]" by (simp add: queued_def c'(2))
  have "mset (map fst (pushing c') @ queued c') = mset (map fst (pushing c) @ queued c)"
    using arg_cong [OF remove_nth_mset [OF i], of "image_mset fst"] by (simp add: q c'(1) mset_map)
  then have "distinct (map fst (pushing c') @ queued c')"
    using inv mset_eq_imp_distinct_iff [of "map fst (pushing c') @ queued c'" "map fst (pushing c) @ queued c"]
    unfolding strand_inv_def by blast
  moreover have "strand_load c' + 2 < 2 ^ 32"
    using inv load load_abs [OF imp a'] f length_remove_nth [OF i] by (simp add: strand_inv_def c'(1))
  ultimately show ?thesis using step imp a' by (simp add: strand_inv_def)
qed

lemma strand_step_sim:
  assumes L: "forward_list_laws L" and inv: "strand_inv c a" and step: "strand_step L False c c'"
  shows "\<exists>a'. strand_inv c' a' \<and> sim_by c a c' a'"
proof -
  have i: "implements c a" "serial_inv a" and d: "distinct (map fst (pushing c) @ queued c)"
    using inv by (simp_all add: strand_inv_def)
  have n: "fst (pushing c ! j) \<notin> set (queued c)" if "j < length (pushing c)" for j
    using d nth_mem [OF that] by auto
  have dp: "distinct (map fst (pushing c))" using d by simp
  note fields = implements_fields [OF i(1)]
  have stutter: "\<exists>a'. strand_inv c' a' \<and> sim_by c a c' a'"
    if "implements c' a" "mset (map fst (pushing c')) = mset (map fst (pushing c))" "rank_less (strand_rank c') (strand_rank c)"
    using inv_same [OF inv that(1,2)] arg_cong [OF that(2), of size] that(3) by (auto simp: sim_by_def)
  have abstract: "\<exists>a'. strand_inv c' a' \<and> sim_by c a c' a'"
    if "implements c' a'" "serial_step rev False a a'" "pushing c' = pushing c" for a'
    using inv_abstract [OF inv that] that by (auto simp: sim_by_def)
  from step show ?thesis
  proof cases
    case (sd_load j)
    then have "mset (map fst (pushing c')) = mset (map fst (pushing c))"
      by (simp add: push_load_def Let_def map_update mset_update)
    then show ?thesis using sd_load sim_load [OF i n] rank_load [OF dp] by (intro stutter) simp_all
  next
    case (sd_cas j)
    show ?thesis
    proof (cases "fst (next_failure (smem c)) \<or> stack_head (smem c) \<noteq> intrusive_next (smem c) (fst (pushing c ! j))")
      case True
      then have "pushing c' = pushing c" "implements c' a"
        using sim_cas [OF i n [OF sd_cas(2)]] length_remove_nth [OF sd_cas(2)] sd_cas(1)
        by (auto simp: push_cas_def run_cas_head_push Let_def)
      then show ?thesis using rank_cas_failed [OF dp sd_cas(2,3) True] sd_cas(1) by (intro stutter) simp_all
    next
      case False
      then have "pushing c' = remove_nth j (pushing c)" by (simp add: sd_cas(1) push_cas_def run_cas_head_push Let_def)
      then show ?thesis
        using sim_cas [OF i n [OF sd_cas(2)]] inv_push [OF inv sd_cas(2), of c'] length_remove_nth [OF sd_cas(2)] sd_cas(1)
        by (auto simp: sim_by_def)
    qed
  next
    case sd_add
    then show ?thesis using abstract [OF _ st_add] sim_control(1) [OF i(1)] fields by simp
  next
    case sd_wake
    then show ?thesis using abstract [OF _ st_wake] sim_control(2) [OF i(1)] fields by simp
  next
    case sd_start
    then show ?thesis using sim_start [OF i] rank_start by (intro stutter) (simp_all add: extract_start_def)
  next
    case (sd_extract_load j)
    then have "extracting c = [Extract_load]" "j = 0" using extracting_alone [OF i sd_extract_load(2)] by (metis nth_Cons_0)+
    then show ?thesis using sd_extract_load sim_extract_load [OF i] rank_extract_load by (intro stutter) (simp_all add: extract_load_def)
  next
    case (sd_extract_cas j h)
    then have e: "extracting c = [Extract_cas h]" "j = 0" using extracting_alone [OF i sd_extract_cas(2)] by (metis nth_Cons_0)+
    have p: "pushing c' = pushing c" using sd_extract_cas(1) by (simp add: extract_cas_def run_cas_head_null Let_def)
    have "0 < inner a" using extracting_alone [OF i sd_extract_cas(2)] e(1)
      by (metis list.inject runner_at.simps(3) zero_less_one)
    note ex = st_extract [OF this, of rev]
    show ?thesis
    proof (cases "implements c' (execute_extract rev a)")
      case True
      then show ?thesis using abstract [OF True ex p] by simp
    next
      case False
      then have imp: "implements c' a" using sim_extract_cas [OF i sd_extract_cas(2,3)] sd_extract_cas(1) by simp
      show ?thesis
      proof (cases "fst (next_failure (smem c)) \<or> stack_head (smem c) \<noteq> h")
        case True
        then show ?thesis using rank_extract_failed [OF e(1)] imp p e(2) sd_extract_cas(1) by (intro stutter) simp_all
      next
        case ok: False
        then have "stack_head (smem c') = None" by (simp add: sd_extract_cas(1) extract_cas_def run_cas_head_null Let_def)
        then have "batch a = []" using imp holds_head by (auto simp: implements_def)
        then show ?thesis using extract_inv(2) [OF i(2) \<open>0 < inner a\<close>, of rev] by simp
      qed
    qed
  next
    case (sd_begin j h)
    then have e: "extracting c = [Extract_done h]" "j = 0" using extracting_alone [OF i sd_begin(2)] by (metis nth_Cons_0)+
    have "pushing c' = pushing c" using sd_begin(1) by (simp add: begin_batch_def Let_def split: prod.split)
    then show ?thesis using sim_begin [OF L i _ sd_begin(2,3)] rank_begin [OF L i d e(1)] d sd_begin(1) e(2) by (intro stutter) simp_all
  next
    case (sd_task j)
    then have "runs (control c) \<noteq> []" by auto
    note r = sim_run [OF i this]
    then show ?thesis using sd_task abstract [OF _ st_task [of j a]] by simp
  next
    case (sd_finish j)
    then have "runs (control c) \<noteq> []" by auto
    note r = sim_run [OF i this]
    then show ?thesis using sd_finish abstract [OF _ st_finish [of j a]] by simp
  qed simp_all
qed

lemma strand_call_sim:
  assumes inv: "strand_inv c a" and step: "strand_step L True c c'"
  shows "strand_inv c' a"
  using step
proof cases
  case (sd_call n)
  have i: "implements c a" "serial_inv a" using inv by (simp_all add: strand_inv_def)
  have imp: "implements c' a" using i(1) by (simp add: sd_call implements_def)
  have "queued c' = queued c" by (simp add: sd_call queued_def)
  then show ?thesis
    using inv imp sd_call load_abs [OF i] load_abs [OF imp i(2)] by (auto simp: strand_inv_def)
qed simp_all

lemma strand_init_inv: "strand_inv (strand_init failures) serial_init"
proof -
  have "implements (strand_init failures) serial_init"
    by (simp add: implements_def strand_init_def holds_def serial_init_def)
  then show ?thesis
    using serial_init_inv by (simp add: strand_inv_def strand_init_def queued_def strand_load_def serial_init_def)
qed

lemma strand_refines:
  assumes "strand_reachable L failures c" "forward_list_laws L"
  shows "\<exists>a. serial_reachable rev a \<and> strand_inv c a"
  using assms(1) unfolding strand_reachable_def
proof (induction rule: rtranclp_induct)
  case base
  then show ?case using strand_init_inv serial_reachable_init by blast
next
  case (step c c')
  then obtain a b where a: "serial_reachable rev a" "strand_inv c a" and b: "strand_step L b c c'" by blast
  show ?case
  proof (cases b)
    case True
    then show ?thesis using a b strand_call_sim [of c a L c'] by auto
  next
    case False
    then obtain a' where "strand_inv c' a'" "sim_by c a c' a'" using strand_step_sim [OF assms(2) a(2), of c'] b by auto
    then show ?thesis using serial_reachable_step [OF a(1)] a(1) by (auto simp: sim_by_def)
  qed
qed

section \<open>Every run ends\<close>

definition total_rank :: "strand \<Rightarrow> nat serial \<Rightarrow> nat \<times> nat \<times> nat" where
  "total_rank c a = (distance a + 9 * length (pushing c), strand_rank c)"

lemma sim_by_rank:
  assumes "sim_by c a c' a'" "serial_inv a"
  shows "(total_rank c' a', total_rank c a) \<in> less_than <*lex*> less_than <*lex*> less_than"
  using assms(1) unfolding sim_by_def
proof (elim disjE conjE exE)
  assume "serial_step rev False a a'" "length (pushing c') = length (pushing c)"
  then show ?thesis using serial_step_closer [OF _ assms(2)] by (simp add: total_rank_def)
qed (simp_all add: total_rank_def distance_def schedule_push_def)

lemma strand_run_ends:
  assumes L: "forward_list_laws L"
  shows "strand_inv c a \<Longrightarrow> Wellfounded.accp (\<lambda>c' c. strand_step L False c c') c"
proof (induction "total_rank c a" arbitrary: c a rule: wf_induct_rule [OF wf_lex_prod [OF wf_less_than wf_lex_prod [OF wf_less_than wf_less_than]]])
  case 1
  show ?case
  proof (rule accp.accI)
    fix c'
    assume "strand_step L False c c'"
    then obtain a' where a': "strand_inv c' a'" "sim_by c a c' a'" using strand_step_sim [OF L 1(2)] by blast
    then show "Wellfounded.accp (\<lambda>c' c. strand_step L False c c') c'"
      using 1 sim_by_rank [OF a'(2)] by (simp add: strand_inv_def)
  qed
qed

lemma accp_no_infinite:
  assumes "Wellfounded.accp r x"
  shows "f 0 = x \<Longrightarrow> \<exists>k. \<not> r (f (Suc k)) (f k)"
  using assms
proof (induction arbitrary: f rule: accp.induct)
  case (accI x)
  show ?case
  proof (cases "r (f 1) x")
    case True
    then have "\<exists>k. \<not> r (f (Suc (Suc k))) (f (Suc k))" using accI.IH [of "f 1" "\<lambda>k. f (Suc k)"] by (metis One_nat_def)
    then show ?thesis by blast
  next
    case False
    then show ?thesis using accI.prems by (metis One_nat_def)
  qed
qed

lemma strand_progress:
  assumes inv: "strand_inv c a" and stuck: "\<not> (\<exists>c'. strand_step L False c c')"
  shows "pushing c = [] \<and> extracting c = [] \<and> executed (control c) = pushed (control c) \<and> work (control c) = 0"
proof -
  have i: "implements c a" "serial_inv a" using inv by (simp_all add: strand_inv_def)
  have p: "pushing c = []"
  proof (rule ccontr)
    assume "pushing c \<noteq> []"
    then have "0 < length (pushing c)" by simp
    then show False using stuck sd_load [of 0 c L] sd_cas [of 0 c L] by (cases "snd (pushing c ! 0)") blast+
  qed
  have e: "extracting c = []"
  proof (rule ccontr)
    assume "extracting c \<noteq> []"
    then have "0 < length (extracting c)" by simp
    then show False
      using stuck sd_extract_load [of 0 c L] sd_extract_cas [of 0 c _ L] sd_begin [of 0 c _ L] by (cases "extracting c ! 0") blast+
  qed
  obtain k rs where r: "runner_at (intrusive_next (smem c)) (extracting c) k rs" "inner a = inner (control c) + k" "runs a = rs @ runs (control c)"
    using i(1) by (rule implementsE)
  have "\<not> (\<exists>a'. serial_step rev False a a')"
  proof
    assume "\<exists>a'. serial_step rev False a a'"
    then obtain a' where "serial_step rev False a a'" ..
    then have "0 < adding a \<or> 0 < waking a \<or> 0 < inner a \<or> (\<exists>j<length (runs a). fst (runs a ! j) \<noteq> [] \<or> fst (runs a ! j) = [])"
      by cases auto
    then show False
      using stuck sd_add sd_wake sd_start sd_task sd_finish r implements_fields [OF i(1)] by (auto simp: e) blast+
  qed
  then show ?thesis using serial_progress [OF i(2)] implements_fields [OF i(1)] p e by simp
qed

text \<open>What is on its way to execution.\<close>

lemma strand_tasks:
  assumes "strand_step L False c c'"
  shows "mset (pushed (control c')) + mset (map fst (pushing c')) = mset (pushed (control c)) + mset (map fst (pushing c))"
  using assms
proof cases
  case (sd_load i)
  then show ?thesis by (simp add: push_load_def Let_def map_update mset_update)
next
  case (sd_cas i)
  have "mset (map fst (pushing c)) = add_mset (fst (pushing c ! i)) (mset (map fst (remove_nth i (pushing c))))"
    using remove_nth_mset [OF sd_cas(2)] by (metis image_mset_add_mset mset_map)
  then show ?thesis by (simp add: sd_cas(1) push_cas_def run_cas_head_push Let_def)
next
  case (sd_extract_cas i h)
  then show ?thesis by (simp add: extract_cas_def run_cas_head_null Let_def)
qed (simp_all add: extract_start_def extract_load_def begin_batch_def schedule_add_eq schedule_inner_def execute_task_def
    execute_finish_def Let_def split: prod.split list.split)

section \<open>An instance of the list functions\<close>

partial_function (option) relink :: "links \<Rightarrow> nat option \<Rightarrow> nat option \<Rightarrow> (links \<times> nat option) option" where
  "relink nxt done h = (case h of None \<Rightarrow> Some (nxt, done) | Some n \<Rightarrow> relink (nxt(n := done)) (Some n) (nxt n))"

definition pointer_ops :: forward_list_ops where
  "pointer_ops = \<lparr>fl_reverse = (\<lambda>nxt h. case relink nxt None h of Some r \<Rightarrow> r | None \<Rightarrow> (nxt, h)),
     fl_for_each = (\<lambda>nxt h. case walk nxt h of Some xs \<Rightarrow> xs | None \<Rightarrow> [])\<rparr>"

lemma relink_chain:
  "chain nxt h xs \<Longrightarrow> chain nxt done ys \<Longrightarrow> distinct (xs @ ys) \<Longrightarrow>
     \<exists>nxt' h'. relink nxt done h = Some (nxt', h') \<and> chain nxt' h' (rev xs @ ys) \<and> (\<forall>n. n \<notin> set xs \<longrightarrow> nxt' n = nxt n)"
proof (induction xs arbitrary: nxt "done" h ys)
  case Nil
  then show ?case by (simp add: relink.simps)
next
  case (Cons x xs)
  have "chain (nxt(x := done)) (nxt x) xs" "chain (nxt(x := done)) (Some x) (x # ys)" "distinct (xs @ x # ys)"
    using Cons.prems by (auto simp: chain_other)
  from Cons.IH [OF this] obtain nxt' h' where r: "relink (nxt(x := done)) (Some x) (nxt x) = Some (nxt', h')"
    "chain nxt' h' (rev xs @ x # ys)" "\<And>n. n \<notin> set xs \<Longrightarrow> nxt' n = (nxt(x := done)) n" by blast
  have "relink nxt done h = Some (nxt', h')" using Cons.prems(1) r(1) by (subst relink.simps) simp
  then show ?case using r(2,3) by auto
qed

lemma pointer_ops_laws: "forward_list_laws pointer_ops"
  unfolding forward_list_laws_def
proof (intro allI impI)
  fix nxt h xs
  assume c: "chain nxt h xs" "distinct xs"
  obtain nxt' h' where "relink nxt None h = Some (nxt', h')" "chain nxt' h' (rev xs)" "\<forall>n. n \<notin> set xs \<longrightarrow> nxt' n = nxt n"
    using relink_chain [OF c(1), of None "[]"] c(2) by auto
  then show "chain (fst (fl_reverse pointer_ops nxt h)) (snd (fl_reverse pointer_ops nxt h)) (rev xs) \<and>
      (\<forall>n. n \<notin> set xs \<longrightarrow> fst (fl_reverse pointer_ops nxt h) n = nxt n) \<and> fl_for_each pointer_ops nxt h = xs"
    using walk_chain [OF c(1)] by (simp add: pointer_ops_def)
qed

section \<open>A history\<close>

text \<open>
  Two threads push. The first compare-exchange fails spuriously, that of the second thread because the first has been
  quicker; then the strand takes both tasks and executes the one pushed first.
\<close>

definition ex_call :: "nat \<Rightarrow> strand \<Rightarrow> strand" where
  "ex_call n c = c\<lparr>pushing := (n, Push_load) # pushing c\<rparr>"

definition ex_pushing :: strand where
  "ex_pushing = push_load 0 (ex_call 8 (push_load 0 (ex_call 7 (strand_init [True]))))"

definition ex_retried :: strand where
  "ex_retried = push_cas 0 (push_cas 1 (push_cas 1 ex_pushing))"

definition ex_counted :: strand where
  "ex_counted = (let c = push_cas 0 ex_retried; c = c\<lparr>control := schedule_add (control c)\<rparr> in c\<lparr>control := schedule_inner (control c)\<rparr>)"

definition ex_taken :: strand where
  "ex_taken = begin_batch pointer_ops 0 (Some 8) (extract_cas 0 (Some 8) (extract_load 0 (extract_start ex_counted)))"

definition ex_first_run :: strand where
  "ex_first_run = ex_taken\<lparr>control := execute_task 0 (control ex_taken)\<rparr>"

lemma strand_reachable_step: "strand_reachable L failures c \<Longrightarrow> strand_step L b c c' \<Longrightarrow> strand_reachable L failures c'"
  unfolding strand_reachable_def by (erule rtranclp.rtrancl_into_rtrancl) blast

lemmas ex_strand_defs = ex_call_def ex_pushing_def ex_retried_def ex_counted_def strand_init_def serial_init_def push_load_def push_cas_def
  run_cas_head_push next_failure_def remove_nth_def schedule_add_eq schedule_inner_def extract_start_def extract_load_def extract_cas_def
  extract_next_def run_cas_head_null Let_def

lemma ex_call_step: "n \<notin> set (queued c) \<Longrightarrow> n \<notin> fst ` set (pushing c) \<Longrightarrow> strand_load c + 4 < 2 ^ 32 \<Longrightarrow> strand_step L True c (ex_call n c)"
  unfolding ex_call_def by (rule sd_call)

lemma ex_pushing_reachable: "strand_reachable pointer_ops [True] ex_pushing"
  unfolding ex_pushing_def
  by (rule strand_reachable_step [OF _ sd_load], rule strand_reachable_step [OF _ ex_call_step],
      rule strand_reachable_step [OF _ sd_load], rule strand_reachable_step [OF _ ex_call_step])
    (simp_all add: strand_reachable_def ex_strand_defs queued_def strand_load_def)

lemma ex_retried_reachable: "strand_reachable pointer_ops [True] ex_retried"
  unfolding ex_retried_def
  by (rule strand_reachable_step [OF _ sd_cas], rule strand_reachable_step [OF _ sd_cas],
      rule strand_reachable_step [OF _ sd_cas], rule ex_pushing_reachable)
    (simp_all add: ex_strand_defs)

lemma ex_counted_reachable: "strand_reachable pointer_ops [True] ex_counted"
  unfolding ex_counted_def Let_def
  by (rule strand_reachable_step [OF _ sd_wake], rule strand_reachable_step [OF _ sd_add],
      rule strand_reachable_step [OF _ sd_cas], rule ex_retried_reachable)
    (simp_all add: ex_strand_defs)

lemma ex_taken_reachable: "strand_reachable pointer_ops [True] ex_taken"
  unfolding ex_taken_def
  by (rule strand_reachable_step [OF _ sd_begin], rule strand_reachable_step [OF _ sd_extract_cas],
      rule strand_reachable_step [OF _ sd_extract_load], rule strand_reachable_step [OF _ sd_start], rule ex_counted_reachable)
    (simp_all add: ex_strand_defs)

lemma ex_taken_control: "runs (control ex_taken) = [([7, 8], 0)]" "pushed (control ex_taken) = [7, 8]" "executed (control ex_taken) = []"
    "adding (control ex_taken) = 1" "pushing ex_taken = []"
  by (simp_all add: ex_taken_def begin_batch_def ex_strand_defs pointer_ops_def relink.simps walk.simps)

lemma ex_first_run_reachable: "strand_reachable pointer_ops [True] ex_first_run"
  unfolding ex_first_run_def
  by (rule strand_reachable_step [OF _ sd_task], rule ex_taken_reachable) (simp_all add: ex_taken_control)

lemma ex_first_run_control: "executed (control ex_first_run) = [7]" "runs (control ex_first_run) = [([8], 1)]"
    "pushed (control ex_first_run) = [7, 8]" "pushing ex_first_run = []"
  by (simp_all add: ex_first_run_def execute_task_def ex_taken_control)

section \<open>Properties\<close>

text \<open>
  C10: A strand on its lock-free stack runs tasks one at a time and in the order in which their compare-exchanges
  succeeded, none lost and none run twice. Threads may be stopped at every access to the stack, in the middle of pushes and
  of the extraction, and compare-exchanges may fail spuriously: each state implements one that the
  strand over an atomic list can reach, each step is one of its steps or none, and no assertion fails.
\<close>

theorem strand_runs_in_order:
  assumes "strand_reachable L failures c" "forward_list_laws L"
  shows "executed (control c) @ queued c = pushed (control c) \<and> distinct (map fst (pushing c) @ queued c) \<and>
    length (extracting c) + waking (control c) + inner (control c) + length (runs (control c)) \<le> 1 \<and>
    \<not> assert_failed (control c) \<and>
    (\<exists>a. serial_reachable rev a \<and> implements c a \<and>
      (\<forall>b c'. strand_step L b c c' \<longrightarrow> (\<exists>a'. implements c' a' \<and> (a' = a \<or> (\<exists>b'. serial_step rev b' a a')))))"
proof -
  obtain a where a: "serial_reachable rev a" "strand_inv c a" using strand_refines [OF assms] by blast
  then have i: "implements c a" "serial_inv a" and d: "distinct (map fst (pushing c) @ queued c)" by (simp_all add: strand_inv_def)
  note f = implements_fields [OF i(1)]
  obtain k rs where r: "runner_at (intrusive_next (smem c)) (extracting c) k rs" "inner a = inner (control c) + k" "runs a = rs @ runs (control c)"
    using i(1) by (rule implementsE)
  have "length (extracting c) = k + length rs"
    using r(1) by (cases "(intrusive_next (smem c), extracting c, k, rs)" rule: runner_at.cases) auto
  then have one: "length (extracting c) + waking (control c) + inner (control c) + length (runs (control c)) \<le> 1"
    using i(2) f(3) r(2,3) by (auto simp: serial_inv_def split: if_splits)
  have order: "executed (control c) @ queued c = pushed (control c)"
    using i(2) f(4,5) by (simp add: queued_abs [OF i] serial_inv_def)
  have sim: "\<exists>a'. implements c' a' \<and> (a' = a \<or> (\<exists>b'. serial_step rev b' a a'))" if "strand_step L b c c'" for b c'
  proof (cases b)
    case True
    then show ?thesis using strand_call_sim [OF a(2), of L c'] that by (auto simp: strand_inv_def)
  next
    case False
    then show ?thesis using strand_step_sim [OF assms(2) a(2), of c'] that by (auto simp: strand_inv_def sim_by_def)
  qed
  have "\<not> assert_failed (control c)" using i(2) f(6) by (simp add: serial_inv_def)
  then show ?thesis using a(1) i(1) d one order sim by blast
qed

theorem strand_runs_in_order_witness:
  "executed (control ex_first_run) @ queued ex_first_run = [7, 8] \<and> executed (control ex_first_run) = [7] \<and>
   \<not> assert_failed (control ex_first_run)"
  using strand_runs_in_order [OF ex_first_run_reachable pointer_ops_laws] by (simp add: ex_first_run_control)

text \<open>
  C12: The strand is lock-free and drains. Without further calls, whatever the interleaving of the threads, retries included,
  no run is infinite, if the hardware lets only finitely many compare-exchanges fail spuriously; and a run can stop only
  when every call has returned, every task has been executed and the counter is at zero.
\<close>

theorem strand_drains:
  assumes "strand_reachable L failures c" "forward_list_laws L"
  shows "\<not> (\<exists>f. f 0 = c \<and> (\<forall>k. strand_step L False (f k) (f (Suc k)))) \<and>
    (\<forall>c'. (strand_step L False)\<^sup>*\<^sup>* c c' \<longrightarrow> (\<exists>c''. strand_step L False c' c'') \<or>
       pushing c' = [] \<and> extracting c' = [] \<and> work (control c') = 0 \<and>
       mset (executed (control c')) = mset (pushed (control c)) + mset (map fst (pushing c)))"
proof (intro conjI allI impI)
  obtain a where a: "strand_inv c a" using strand_refines [OF assms] by blast
  show "\<not> (\<exists>f. f 0 = c \<and> (\<forall>k. strand_step L False (f k) (f (Suc k))))"
    using accp_no_infinite [OF strand_run_ends [OF assms(2) a]] by blast
  fix c'
  assume "(strand_step L False)\<^sup>*\<^sup>* c c'"
  then have "(\<exists>a'. strand_inv c' a') \<and>
    mset (pushed (control c')) + mset (map fst (pushing c')) = mset (pushed (control c)) + mset (map fst (pushing c))"
  proof (induction rule: rtranclp_induct)
    case (step d d')
    then show ?case using strand_step_sim [OF assms(2) _ step(2)] strand_tasks [OF step(2)] by fastforce
  qed (use a in blast)
  then show "(\<exists>c''. strand_step L False c' c'') \<or> pushing c' = [] \<and> extracting c' = [] \<and> work (control c') = 0 \<and>
       mset (executed (control c')) = mset (pushed (control c)) + mset (map fst (pushing c))"
    using strand_progress [of c' _ L] by force
qed

theorem strand_drains_witness:
  "\<not> (\<exists>f. f 0 = ex_retried \<and> (\<forall>k. strand_step pointer_ops False (f k) (f (Suc k)))) \<and> pushing ex_retried \<noteq> []"
  using strand_drains [OF ex_retried_reachable pointer_ops_laws] by (simp add: ex_strand_defs)

end
