(* ===== verification/Parallel.thy ===== *)
theory Parallel
  imports Atomic_Prog Slot_Model
begin

text \<open>
  \<^verbatim>\<open>algo/sync/detail/parallel.hpp\<close>: the part shared by \<open>all\<close>, \<open>any\<close> and \<open>select\<close>. One object owns
  \<open>N\<close> connections; each, once emitted, answers its slot at some time, from any thread. The object
  emits the connections, cancels all but one of them on request and deletes itself, the last three
  as tasks of a serial executor, which runs them one at a time in the order scheduled (shown in
  \<open>Serial_Executor\<close>).

  \<open>par\<close> is the memory of the object and of its client: the atomic counter and the atomic \<open>done\<close> flag
  or word of the client, the client's slot (as the calls it received), the results \<open>all\<close> collects,
  the tasks and the serialized state. A cancel handle is the index of its connection. \<open>emitted\<close>,
  \<open>cancelled\<close> and \<open>deletions\<close> record the calls of \<open>emit\<close>, \<open>try_cancel\<close> and \<open>delete_this\<close>; \<open>dangling\<close>
  tells that the object was accessed after its deletion.
\<close>

section \<open>State\<close>

datatype task = Emit_task "nat list" | Try_cancel_beside_task nat | Delete_this_task

record ('r, 'e, 'v) par =
  counter :: u32
  done_word :: u64
  slot_calls :: "('r, 'e) slot_call list"
  maybe_results :: "nat \<Rightarrow> 'v option"
  emit_scheduled :: bool
  cancel_scheduled :: bool
  delete_scheduled :: bool
  task_queue :: "task list"
  cancel_handles :: "nat list option"
  cancel_request :: "nat option"
  delete_requested :: bool
  emitted :: "nat list"
  cancelled_handles :: "nat list"
  deletions :: nat
  dangling :: bool
  check_failed :: bool

definition par_init :: "('r, 'e, 'v) par" where
  "par_init = \<lparr>counter = 0, done_word = 0, slot_calls = [], maybe_results = (\<lambda>_. None),
     emit_scheduled = False, cancel_scheduled = False, delete_scheduled = False, task_queue = [],
     cancel_handles = None, cancel_request = None, delete_requested = False, emitted = [],
     cancelled_handles = [], deletions = 0, dangling = False, check_failed = False\<rparr>"

text \<open>An access to the object.\<close>

definition mark :: "('r, 'e, 'v) par \<Rightarrow> ('r, 'e, 'v) par" where
  "mark s = s\<lparr>dangling := dangling s \<or> 0 < deletions s\<rparr>"

definition touch :: "(('r, 'e, 'v) par \<Rightarrow> 'a \<times> ('r, 'e, 'v) par) \<Rightarrow> (('r, 'e, 'v) par, 'a) prog" where
  "touch h = access (\<lambda>s. h (mark s))"

section \<open>Operations of the callbacks\<close>

definition increment_and_check :: "nat \<Rightarrow> (('r, 'e, 'v) par, bool) prog" where
  "increment_and_check N = touch (\<lambda>s.
     let current_count = 1 + counter s
     in (unat current_count = N, s\<lparr>counter := counter s + 1\<rparr>))"

definition schedule_try_cancel_beside :: "nat \<Rightarrow> (('r, 'e, 'v) par, unit) prog" where
  "schedule_try_cancel_beside excluded_index = touch (\<lambda>s.
     ((), if cancel_scheduled s then s\<lparr>check_failed := True\<rparr>
          else s\<lparr>cancel_scheduled := True, task_queue := task_queue s @ [Try_cancel_beside_task excluded_index]\<rparr>))"

definition schedule_delete_this :: "(('r, 'e, 'v) par, unit) prog" where
  "schedule_delete_this = touch (\<lambda>s.
     ((), if delete_scheduled s then s\<lparr>check_failed := True\<rparr>
          else s\<lparr>delete_scheduled := True, task_queue := task_queue s @ [Delete_this_task]\<rparr>))"

section \<open>Emission\<close>

definition emit_connection :: "nat \<Rightarrow> (('r, 'e, 'v) par, nat) prog" where
  "emit_connection i = touch (\<lambda>s. (i, s\<lparr>emitted := emitted s @ [i]\<rparr>))"

definition emit_impl :: "nat list \<Rightarrow> (('r, 'e, 'v) par, unit) prog" where
  "emit_impl handles = touch (\<lambda>s.
     ((), if emit_scheduled s then s\<lparr>check_failed := True\<rparr>
          else s\<lparr>emit_scheduled := True, task_queue := task_queue s @ [Emit_task handles]\<rparr>))"

primrec emit_each :: "nat list \<Rightarrow> nat list \<Rightarrow> (('r, 'e, 'v) par, unit) prog" where
  "emit_each [] handles = emit_impl handles"
| "emit_each (i # is) handles = pbind (emit_connection i) (\<lambda>h. emit_each is (handles @ [h]))"

definition parallel_emit :: "nat \<Rightarrow> (('r, 'e, 'v) par, unit) prog" where
  "parallel_emit N = emit_each [0..<N] []"

text \<open>
  \<open>emit_ordered\<close>: connections without an ordering come last; \<open>stable_sort\<close> by ordering; each handle is
  stored at the original index of its connection.
\<close>

definition get_connection_ordering :: "u64 option \<Rightarrow> u64" where
  "get_connection_ordering c = (case c of Some key \<Rightarrow> key | None \<Rightarrow> - 1)"

definition emit_order :: "u64 option list \<Rightarrow> nat list" where
  "emit_order cs = map snd (sort_key fst (zip (map get_connection_ordering cs) [0..<length cs]))"

primrec emit_in_order :: "nat list \<Rightarrow> nat option list \<Rightarrow> (('r, 'e, 'v) par, unit) prog" where
  "emit_in_order [] maybe_result = emit_impl (map the maybe_result)"
| "emit_in_order (idx # is) maybe_result =
     pbind (emit_connection idx) (\<lambda>h. emit_in_order is (maybe_result[idx := Some h]))"

definition parallel_emit_ordered :: "u64 option list \<Rightarrow> (('r, 'e, 'v) par, unit) prog" where
  "parallel_emit_ordered cs = emit_in_order (emit_order cs) (replicate (length cs) None)"

section \<open>Serialized tasks\<close>

definition delete_this :: "('r, 'e, 'v) par \<Rightarrow> ('r, 'e, 'v) par" where
  "delete_this s = s\<lparr>deletions := deletions s + 1\<rparr>"

definition try_cancel_beside_impl :: "nat list \<Rightarrow> nat \<Rightarrow> ('r, 'e, 'v) par \<Rightarrow> ('r, 'e, 'v) par" where
  "try_cancel_beside_impl handles excluded_index s =
     s\<lparr>cancelled_handles := cancelled_handles s @
         map (\<lambda>i. handles ! i) (filter (\<lambda>i. i \<noteq> excluded_index) [0..<length handles])\<rparr>"

definition serialized_emit :: "nat list \<Rightarrow> ('r, 'e, 'v) par \<Rightarrow> ('r, 'e, 'v) par" where
  "serialized_emit handles s =
     (let s = s\<lparr>cancel_handles := Some handles\<rparr>;
          s = (case cancel_request s of
                 Some excluded_index \<Rightarrow> (try_cancel_beside_impl handles excluded_index s)\<lparr>cancel_request := None\<rparr>
               | None \<Rightarrow> s)
      in if delete_requested s then delete_this s else s)"

definition serialized_try_cancel_beside :: "nat \<Rightarrow> ('r, 'e, 'v) par \<Rightarrow> ('r, 'e, 'v) par" where
  "serialized_try_cancel_beside excluded_index s =
     (if cancel_request s \<noteq> None then s
      else case cancel_handles s of
          None \<Rightarrow> s\<lparr>cancel_request := Some excluded_index\<rparr>
        | Some handles \<Rightarrow> try_cancel_beside_impl handles excluded_index s)"

definition serialized_delete_this :: "('r, 'e, 'v) par \<Rightarrow> ('r, 'e, 'v) par" where
  "serialized_delete_this s =
     (if cancel_handles s = None then s\<lparr>delete_requested := True\<rparr> else delete_this s)"

primrec execute :: "task \<Rightarrow> ('r, 'e, 'v) par \<Rightarrow> ('r, 'e, 'v) par" where
  "execute (Emit_task handles) s = serialized_emit handles s"
| "execute (Try_cancel_beside_task excluded_index) s = serialized_try_cancel_beside excluded_index s"
| "execute Delete_this_task s = serialized_delete_this s"

definition run_next_task :: "('r, 'e, 'v) par \<Rightarrow> ('r, 'e, 'v) par" where
  "run_next_task s = (case task_queue s of [] \<Rightarrow> s | t # ts \<Rightarrow> execute t (mark s\<lparr>task_queue := ts\<rparr>))"

section \<open>Interleaving\<close>

text \<open>
  The whole of an operation in progress: the object, the callbacks started so far (each the rest of
  its program), the thread that emits, and the answers the connections gave. A connection answers
  after its emission, once. \<open>body\<close> is the client's callback; \<open>claimed\<close>, if there is one, is the
  callback of a connection that has set the \<open>done\<close> word itself beforehand.
\<close>

record ('r, 'e, 'v, 'd) par_run =
  object :: "('r, 'e, 'v) par"
  callbacks :: "nat \<Rightarrow> (('r, 'e, 'v) par, unit) prog option"
  emitter :: "(('r, 'e, 'v) par, unit) prog"
  answers :: "nat \<Rightarrow> ('v, 'd) slot_call option"

definition run_init :: "(('r, 'e, 'v) par, unit) prog \<Rightarrow> ('r, 'e, 'v, 'd) par_run" where
  "run_init emit = \<lparr>object = par_init, callbacks = (\<lambda>_. None), emitter = emit, answers = (\<lambda>_. None)\<rparr>"

inductive par_step for N :: nat and body :: "nat \<Rightarrow> ('v, 'd) slot_call \<Rightarrow> (('r, 'e, 'v) par, unit) prog"
  and claimed :: "(nat \<Rightarrow> 'v \<Rightarrow> (('r, 'e, 'v) par, unit) prog) option" where
  answer: "i < N \<Longrightarrow> i \<in> set (emitted (object c)) \<Longrightarrow> callbacks c i = None \<Longrightarrow>
    par_step N body claimed c
      (c\<lparr>callbacks := (callbacks c)(i := Some (body i a)), answers := (answers c)(i := Some a)\<rparr>)"
| answer_claimed: "claimed = Some f \<Longrightarrow> i < N \<Longrightarrow> i \<in> set (emitted (object c)) \<Longrightarrow> callbacks c i = None \<Longrightarrow>
    done_word (object c) = 0 \<Longrightarrow>
    par_step N body claimed c
      (c\<lparr>object := mark (object c)\<lparr>done_word := 1\<rparr>,
         callbacks := (callbacks c)(i := Some (f i v)), answers := (answers c)(i := Some (Set_value v))\<rparr>)"
| callback: "callbacks c i = Some (Step g) \<Longrightarrow>
    par_step N body claimed c
      (c\<lparr>object := snd (g (object c)), callbacks := (callbacks c)(i := Some (fst (g (object c))))\<rparr>)"
| emit: "emitter c = Step g \<Longrightarrow>
    par_step N body claimed c (c\<lparr>object := snd (g (object c)), emitter := fst (g (object c))\<rparr>)"
| task: "task_queue (object c) \<noteq> [] \<Longrightarrow>
    par_step N body claimed c (c\<lparr>object := run_next_task (object c)\<rparr>)"

definition par_reachable where
  "par_reachable N body claimed emit c \<longleftrightarrow> (par_step N body claimed)\<^sup>*\<^sup>* (run_init emit) c"

text \<open>Everything has happened: all connections answered, all programs and tasks have run.\<close>

definition par_ended :: "nat \<Rightarrow> ('r, 'e, 'v, 'd) par_run \<Rightarrow> bool" where
  "par_ended N c \<longleftrightarrow> (\<forall>i<N. callbacks c i = Some (Ret ())) \<and> emitter c = Ret () \<and> task_queue (object c) = []"

text \<open>A run by a given schedule, for examples.\<close>

datatype ('v, 'd) move = Answer nat "('v, 'd) slot_call" | Answer_claimed nat 'v | Callback nat | Emit | Task

fun par_move where
  "par_move N body claimed (Answer i a) c =
     (if i < N \<and> i \<in> set (emitted (object c)) \<and> callbacks c i = None
      then Some (c\<lparr>callbacks := (callbacks c)(i := Some (body i a)), answers := (answers c)(i := Some a)\<rparr>) else None)"
| "par_move N body claimed (Answer_claimed i v) c =
     (case claimed of None \<Rightarrow> None | Some f \<Rightarrow>
        if i < N \<and> i \<in> set (emitted (object c)) \<and> callbacks c i = None \<and> done_word (object c) = 0
        then Some (c\<lparr>object := mark (object c)\<lparr>done_word := 1\<rparr>,
          callbacks := (callbacks c)(i := Some (f i v)), answers := (answers c)(i := Some (Set_value v))\<rparr>) else None)"
| "par_move N body claimed (Callback i) c =
     (case callbacks c i of
        Some (Step g) \<Rightarrow> let r = g (object c) in
          Some (c\<lparr>object := snd r, callbacks := (callbacks c)(i := Some (fst r))\<rparr>)
      | _ \<Rightarrow> None)"
| "par_move N body claimed Emit c =
     (case emitter c of Step g \<Rightarrow> let r = g (object c) in Some (c\<lparr>object := snd r, emitter := fst r\<rparr>) | _ \<Rightarrow> None)"
| "par_move N body claimed Task c =
     (if task_queue (object c) \<noteq> [] then Some (c\<lparr>object := run_next_task (object c)\<rparr>) else None)"

fun par_moves where
  "par_moves N body claimed [] c = Some c"
| "par_moves N body claimed (m # ms) c =
     (case par_move N body claimed m c of None \<Rightarrow> None | Some c' \<Rightarrow> par_moves N body claimed ms c')"

lemma par_move_step: "par_move N body claimed m c = Some c' \<Longrightarrow> par_step N body claimed c c'"
  by (cases m) (auto simp: Let_def split: if_splits option.splits prog.splits intro: par_step.intros)

lemma par_moves_reachable:
  "par_moves N body claimed ms (run_init emit) = Some c \<Longrightarrow> par_reachable N body claimed emit c"
proof -
  have "par_moves N body claimed ms c1 = Some c \<Longrightarrow> (par_step N body claimed)\<^sup>*\<^sup>* c1 c" for c1
  proof (induction ms arbitrary: c1)
    case (Cons m ms)
    then obtain c2 where c2: "par_move N body claimed m c1 = Some c2" "par_moves N body claimed ms c2 = Some c"
      by (auto split: option.splits)
    show ?case by (rule converse_rtranclp_into_rtranclp [OF par_move_step [OF c2(1)] Cons.IH [OF c2(2)]])
  qed simp
  then show "par_moves N body claimed ms (run_init emit) = Some c \<Longrightarrow> par_reachable N body claimed emit c"
    by (simp add: par_reachable_def)
qed

end
