(* ===== verification/Parallel_Client.thy ===== *)
theory Parallel_Client
  imports Parallel
begin

text \<open>
  What \<open>all\<close>, \<open>any\<close> and \<open>select\<close> have in common. Their callbacks have one of two shapes: an answer
  that settles the operation by being first claims \<open>done\<close>, fulfils the slot and has the others
  cancelled before it counts itself (\<open>first_wins\<close>); an answer that matters only when nothing has
  settled the operation counts itself first, and the last one claims \<open>done\<close> and fulfils the slot
  (\<open>last_wins\<close>). Whoever counts last schedules the deletion. The locale \<open>parallel_client\<close> states this
  shape; its lemmas give, for every interleaving, the number of calls of the slot, the object's
  lifetime and the cancellation of the other connections.
\<close>

section \<open>The two shapes of callbacks\<close>

definition fulfill :: "('r, 'e) slot_call \<Rightarrow> (('r, 'e, 'v) par, unit) prog" where
  "fulfill c = touch (\<lambda>s. ((), s\<lparr>slot_calls := slot_calls s @ [c]\<rparr>))"

definition emplace_result :: "nat \<Rightarrow> 'v option \<Rightarrow> (('r, 'e, 'v) par, unit) prog" where
  "emplace_result i v = touch (\<lambda>s. ((), s\<lparr>maybe_results := (maybe_results s)(i := v)\<rparr>))"

definition fulfill_outcome ::
  "((nat \<Rightarrow> 'v option) \<Rightarrow> ('r, 'e) slot_call option) \<Rightarrow> (('r, 'e, 'v) par, unit) prog" where
  "fulfill_outcome f = touch (\<lambda>s. ((), case f (maybe_results s) of
     None \<Rightarrow> s\<lparr>check_failed := True\<rparr> | Some c \<Rightarrow> s\<lparr>slot_calls := slot_calls s @ [c]\<rparr>))"

definition count_and_delete :: "nat \<Rightarrow> (('r, 'e, 'v) par, unit) prog" where
  "count_and_delete N = pbind (increment_and_check N) (\<lambda>is_last. if is_last then schedule_delete_this else Ret ())"

definition cancel_others :: "nat \<Rightarrow> nat \<Rightarrow> (('r, 'e, 'v) par, unit) prog" where
  "cancel_others N i = pbind (schedule_try_cancel_beside i) (\<lambda>_. count_and_delete N)"

definition fulfill_first :: "nat \<Rightarrow> nat \<Rightarrow> ('r, 'e) slot_call \<Rightarrow> (('r, 'e, 'v) par, unit) prog" where
  "fulfill_first N i c = pbind (fulfill c) (\<lambda>_. cancel_others N i)"

definition first_wins where
  "first_wins N claim i c = pbind (touch claim) (\<lambda>won. if won then fulfill_first N i c else count_and_delete N)"

definition fulfill_last where
  "fulfill_last f = pbind (fulfill_outcome f) (\<lambda>_. schedule_delete_this)"

definition claim_last where
  "claim_last claim f = pbind (touch claim) (\<lambda>won. if won then fulfill_last f else schedule_delete_this)"

definition last_wins where
  "last_wins N claim f = pbind (increment_and_check N) (\<lambda>is_last. if is_last then claim_last claim f else Ret ())"

definition client_body where
  "client_body N claim wins own store outcome i a =
     (if wins a then first_wins N claim i (own i a)
      else if store a = None then last_wins N claim (outcome N a)
      else pbind (emplace_result i (store a)) (\<lambda>_. last_wins N claim (outcome N a)))"

section \<open>Counting callbacks by phase\<close>

datatype phase = Idle | First_claim | First_fulfill | First_cancel | First_count
  | Last_store | Last_count | Last_claim | Last_fulfill | Delete_next | Finished

definition passed :: "phase \<Rightarrow> bool" where
  "passed p \<longleftrightarrow> p \<in> {Last_claim, Last_fulfill, Delete_next, Finished}"

definition closing :: "phase \<Rightarrow> bool" where
  "closing p \<longleftrightarrow> p \<in> {Last_claim, Last_fulfill, Delete_next}"

definition fulfilling :: "phase \<Rightarrow> bool" where
  "fulfilling p \<longleftrightarrow> p \<in> {First_fulfill, Last_fulfill}"

definition cancelling :: "phase \<Rightarrow> bool" where
  "cancelling p \<longleftrightarrow> p \<in> {First_fulfill, First_cancel, Last_fulfill}"

lemmas phase_defs = passed_def closing_def fulfilling_def cancelling_def


text \<open>The program of a callback in each phase, and what its next access does.\<close>

fun prog_of where
  "prog_of N claim own store outcome i a First_claim = first_wins N claim i (own i a)"
| "prog_of N claim own store outcome i a First_fulfill = fulfill_first N i (own i a)"
| "prog_of N claim own store outcome i a First_cancel = cancel_others N i"
| "prog_of N claim own store outcome i a First_count = count_and_delete N"
| "prog_of N claim own store outcome i a Last_store =
     pbind (emplace_result i (store a)) (\<lambda>_. last_wins N claim (outcome N a))"
| "prog_of N claim own store outcome i a Last_count = last_wins N claim (outcome N a)"
| "prog_of N claim own store outcome i a Last_claim = claim_last claim (outcome N a)"
| "prog_of N claim own store outcome i a Last_fulfill = fulfill_last (outcome N a)"
| "prog_of N claim own store outcome i a Delete_next = schedule_delete_this"
| "prog_of N claim own store outcome i a _ = Ret ()"

definition counted :: "nat \<Rightarrow> ('r, 'e, 'v) par \<Rightarrow> bool" where
  "counted N s \<longleftrightarrow> unat (1 + counter s) = N"

definition next_phase where
  "next_phase N claim p s = (case p of
     First_claim \<Rightarrow> if fst (claim s) then First_fulfill else First_count
   | First_fulfill \<Rightarrow> First_cancel
   | First_cancel \<Rightarrow> First_count
   | First_count \<Rightarrow> if counted N s then Delete_next else Finished
   | Last_store \<Rightarrow> Last_count
   | Last_count \<Rightarrow> if counted N s then Last_claim else Finished
   | Last_claim \<Rightarrow> if fst (claim s) then Last_fulfill else Delete_next
   | Last_fulfill \<Rightarrow> Delete_next
   | Delete_next \<Rightarrow> Finished
   | _ \<Rightarrow> p)"

definition run_access :: "(('r, 'e, 'v) par, unit) prog \<Rightarrow> ('r, 'e, 'v) par \<Rightarrow> ('r, 'e, 'v) par" where
  "run_access p s = snd (run p s)"

definition next_object where
  "next_object N claim own store outcome i a p s = (case p of
     First_claim \<Rightarrow> snd (claim s)
   | First_fulfill \<Rightarrow> s\<lparr>slot_calls := slot_calls s @ [own i a]\<rparr>
   | First_cancel \<Rightarrow> run_access (schedule_try_cancel_beside i) s
   | First_count \<Rightarrow> s\<lparr>counter := counter s + 1\<rparr>
   | Last_store \<Rightarrow> s\<lparr>maybe_results := (maybe_results s)(i := store a)\<rparr>
   | Last_count \<Rightarrow> s\<lparr>counter := counter s + 1\<rparr>
   | Last_claim \<Rightarrow> snd (claim s)
   | Last_fulfill \<Rightarrow> run_access (fulfill_outcome (outcome N a)) s
   | Delete_next \<Rightarrow> run_access schedule_delete_this s
   | _ \<Rightarrow> s)"

lemma mark_idem [simp]: "mark (mark s) = mark s"
  by (simp add: mark_def)

lemmas access_defs = touch_def access_def fulfill_def fulfill_outcome_def emplace_result_def
  increment_and_check_def schedule_try_cancel_beside_def schedule_delete_this_def Let_def

lemma prog_of_step:
  assumes "p \<noteq> Idle" "p \<noteq> Finished"
  shows "\<exists>g. prog_of N claim own store outcome i a p = Step g \<and>
    (\<forall>s. g s = (prog_of N claim own store outcome i a (next_phase N claim p (mark s)),
       next_object N claim own store outcome i a p (mark s)))"
  using assms
  by (cases p)
    (simp_all add: access_defs first_wins_def fulfill_first_def cancel_others_def count_and_delete_def
      last_wins_def claim_last_def fulfill_last_def run_access_def counted_def map_prod_def split_beta Let_def
      next_phase_def next_object_def
      cong: option.case_cong)

section \<open>The object\<close>

text \<open>Accounts of the counter, the claim of \<open>done\<close>, the slot and the tasks scheduled.\<close>

definition obj_inv :: "nat \<Rightarrow> (nat \<Rightarrow> phase) \<Rightarrow> ('r, 'e, 'v) par \<Rightarrow> bool" where
  "obj_inv N ph s \<longleftrightarrow>
     unat (counter s) = num N passed ph \<and>
     num N closing ph + of_bool (delete_scheduled s) = of_bool (num N passed ph = N) \<and>
     (done_word s = 0 \<or> done_word s = 1) \<and>
     length (slot_calls s) + num N fulfilling ph = of_bool (done_word s \<noteq> 0) \<and>
     num N cancelling ph + of_bool (cancel_scheduled s) \<le> of_bool (done_word s \<noteq> 0) \<and>
     \<not> check_failed s \<and> \<not> dangling s"

definition claim_laws :: "(('r, 'e, 'v) par \<Rightarrow> bool \<times> ('r, 'e, 'v) par) \<Rightarrow> bool" where
  "claim_laws claim \<longleftrightarrow>
     (\<forall>s. done_word s = 0 \<longrightarrow> claim s = (True, s\<lparr>done_word := 1\<rparr>)) \<and>
     (\<forall>s. done_word s = 1 \<longrightarrow> claim s = (False, s))"

text \<open>The same accounts as a relation between numbers.\<close>

definition accounts :: "nat \<Rightarrow> nat \<Rightarrow> nat \<Rightarrow> nat \<Rightarrow> nat \<Rightarrow> ('r, 'e, 'v) par \<Rightarrow> bool" where
  "accounts N np nc nf nx s \<longleftrightarrow>
     unat (counter s) = np \<and> nc + of_bool (delete_scheduled s) = of_bool (np = N) \<and>
     (done_word s = 0 \<or> done_word s = 1) \<and> length (slot_calls s) + nf = of_bool (done_word s \<noteq> 0) \<and>
     nx + of_bool (cancel_scheduled s) \<le> of_bool (done_word s \<noteq> 0) \<and> \<not> check_failed s \<and> \<not> dangling s"

lemma obj_inv_accounts:
  "obj_inv N ph s = accounts N (num N passed ph) (num N closing ph) (num N fulfilling ph) (num N cancelling ph) s"
  by (simp add: obj_inv_def accounts_def)

lemma accounts_results [simp]:
  "accounts N np nc nf nx (s\<lparr>maybe_results := r\<rparr>) = accounts N np nc nf nx s"
  by (simp add: accounts_def)

lemma accounts_claim:
  assumes "accounts N np nc nf nx s" "claim_laws claim"
  shows "fst (claim s) \<Longrightarrow> accounts N np nc (Suc nf) (Suc nx) (snd (claim s))"
    and "\<not> fst (claim s) \<Longrightarrow> accounts N np nc nf nx (snd (claim s))"
  using assms by (auto simp: accounts_def claim_laws_def of_bool_def split: if_splits)

lemma accounts_fulfill:
  "accounts N np nc nf nx s \<Longrightarrow> 0 < nf \<Longrightarrow>
   accounts N np nc (nf - 1) nx (s\<lparr>slot_calls := slot_calls s @ [c]\<rparr>)"
  by (auto simp: accounts_def)

lemma accounts_outcome:
  "accounts N np nc nf nx s \<Longrightarrow> 0 < nf \<Longrightarrow> 0 < nx \<Longrightarrow> mark s = s \<Longrightarrow> f (maybe_results s) \<noteq> None \<Longrightarrow>
   accounts N np nc (nf - 1) (nx - 1) (run_access (fulfill_outcome f) s)"
  by (auto simp: accounts_def run_access_def access_defs of_bool_def split: if_splits)

lemma accounts_schedule_cancel:
  "accounts N np nc nf nx s \<Longrightarrow> 0 < nx \<Longrightarrow> mark s = s \<Longrightarrow>
   accounts N np nc nf (nx - 1) (run_access (schedule_try_cancel_beside i) s)"
  by (cases "cancel_scheduled s") (auto simp: accounts_def run_access_def access_defs of_bool_def split: if_splits)

lemma accounts_delete:
  "accounts N np nc nf nx s \<Longrightarrow> 0 < nc \<Longrightarrow> mark s = s \<Longrightarrow>
   accounts N np (nc - 1) nf nx (run_access schedule_delete_this s)"
  by (cases "delete_scheduled s") (auto simp: accounts_def run_access_def access_defs of_bool_def split: if_splits)

lemma accounts_count:
  assumes "accounts N np nc nf nx s" "np < N" "N < 2 ^ 32"
  shows "counted N s = (Suc np = N)"
    and "accounts N (Suc np) (nc + of_bool (Suc np = N)) nf nx (s\<lparr>counter := counter s + 1\<rparr>)"
proof -
  have "unat (1 + counter s) = Suc np" using assms by (simp add: accounts_def unat_word_ariths)
  then show "counted N s = (Suc np = N)" "accounts N (Suc np) (nc + of_bool (Suc np = N)) nf nx (s\<lparr>counter := counter s + 1\<rparr>)"
    using assms by (auto simp: counted_def accounts_def add.commute)
qed

lemma obj_inv_step:
  assumes inv: "obj_inv N ph s" and i: "i < N" and p: "ph i = p" and N: "N < 2 ^ 32"
    and claim: "claim_laws claim" and m: "mark s = s"
    and ok: "p = Last_fulfill \<Longrightarrow> outcome N a (maybe_results s) \<noteq> None"
  shows "obj_inv N (ph(i := next_phase N claim p s)) (next_object N claim own store outcome i a p s)"
proof -
  note inv' = inv [unfolded obj_inv_accounts] and ch = num_change(1) [where i = i and ph = ph and p = p, OF i p]
    and ge = num_change(2) [where i = i and ph = ph and p = p, OF i p]
  have lt: "\<not> passed p \<Longrightarrow> num N passed ph < N"
    using num_all [of N passed ph] num_le [of N passed ph] i p by (metis le_neq_implies_less)
  note ge' = ge [of passed] ge [of closing] ge [of fulfilling] ge [of cancelling]
  show ?thesis
    unfolding obj_inv_accounts ch
    using inv' ge' lt accounts_claim [OF inv' claim] accounts_fulfill [OF inv'] accounts_schedule_cancel [OF inv' _ m]
      accounts_outcome [OF inv' _ _ m, of "outcome N a"] accounts_delete [OF inv' _ m] accounts_count [OF inv' _ N] ok
    by (cases p; (simp add: phase_defs next_phase_def next_object_def; fail)?; cases "Suc (num N passed ph) = N"; simp add: phase_defs next_phase_def next_object_def)
qed

section \<open>The serialized tasks\<close>

text \<open>
  \<open>past\<close> are the tasks executed so far; with the queue they are the tasks in the order scheduled. What
  the serialized state is after them, and that a cancellation is never scheduled after the deletion.
\<close>

definition task_inv :: "nat \<Rightarrow> task list \<Rightarrow> ('r, 'e, 'v) par \<Rightarrow> bool" where
  "task_inv N past s \<longleftrightarrow> (let ts = past @ task_queue s in
     distinct ts \<and> (\<forall>hs. Emit_task hs \<in> set ts \<longrightarrow> hs = [0..<N]) \<and>
     (\<forall>w w'. Try_cancel_beside_task w \<in> set ts \<longrightarrow> Try_cancel_beside_task w' \<in> set ts \<longrightarrow> w = w') \<and>
     (\<forall>w. Try_cancel_beside_task w \<in> set ts \<longrightarrow> Delete_this_task \<in> set ts \<longrightarrow>
        Try_cancel_beside_task w \<in> set (takeWhile (\<lambda>t. t \<noteq> Delete_this_task) ts)) \<and>
     (emit_scheduled s \<longleftrightarrow> Emit_task [0..<N] \<in> set ts) \<and>
     (cancel_scheduled s \<longleftrightarrow> (\<exists>w. Try_cancel_beside_task w \<in> set ts)) \<and>
     (delete_scheduled s \<longleftrightarrow> Delete_this_task \<in> set ts))"

definition serial_state_inv :: "nat \<Rightarrow> task list \<Rightarrow> ('r, 'e, 'v) par \<Rightarrow> bool" where
  "serial_state_inv N past s \<longleftrightarrow>
     cancel_handles s = (if Emit_task [0..<N] \<in> set past then Some [0..<N] else None) \<and>
     (Emit_task [0..<N] \<notin> set past \<longrightarrow> (delete_requested s \<longleftrightarrow> Delete_this_task \<in> set past)) \<and>
     (\<forall>w. cancel_request s = Some w \<longleftrightarrow> Try_cancel_beside_task w \<in> set past \<and> Emit_task [0..<N] \<notin> set past) \<and>
     deletions s = of_bool (Emit_task [0..<N] \<in> set past \<and> Delete_this_task \<in> set past) \<and>
     (\<forall>w. Try_cancel_beside_task w \<in> set past \<longrightarrow> Emit_task [0..<N] \<in> set past \<longrightarrow>
        cancelled_handles s = filter (\<lambda>i. i \<noteq> w) [0..<N]) \<and>
     ((\<forall>w. Try_cancel_beside_task w \<notin> set past) \<or> Emit_task [0..<N] \<notin> set past \<longrightarrow> cancelled_handles s = [])"

lemma task_inv_flags:
  assumes "task_inv N past s"
  shows "emit_scheduled s = (Emit_task [0..<N] \<in> set (past @ task_queue s))"
    "cancel_scheduled s = (\<exists>w. Try_cancel_beside_task w \<in> set (past @ task_queue s))"
    "delete_scheduled s = (Delete_this_task \<in> set (past @ task_queue s))"
  by (insert assms, unfold task_inv_def Let_def) (elim conjE, assumption)+

lemma task_inv_past:
  assumes "task_inv N past s" "Emit_task [0..<N] \<in> set past" "Delete_this_task \<in> set past"
  shows "task_queue s = []" "emit_scheduled s" "delete_scheduled s"
proof -
  have tw: "takeWhile (\<lambda>t. t \<noteq> Delete_this_task) (past @ task_queue s) = takeWhile (\<lambda>t. t \<noteq> Delete_this_task) past"
    using assms(3) by (induction past) auto
  have D: "distinct (past @ task_queue s)"
    and E: "\<And>hs. Emit_task hs \<in> set (past @ task_queue s) \<Longrightarrow> hs = [0..<N]"
    and C: "\<And>w. Try_cancel_beside_task w \<in> set (past @ task_queue s) \<Longrightarrow> Try_cancel_beside_task w \<in> set past"
  proof -
    have i: "distinct (past @ task_queue s)"
      "\<forall>hs. Emit_task hs \<in> set (past @ task_queue s) \<longrightarrow> hs = [0..<N]"
      "\<forall>w. Try_cancel_beside_task w \<in> set (past @ task_queue s) \<longrightarrow> Delete_this_task \<in> set (past @ task_queue s) \<longrightarrow>
         Try_cancel_beside_task w \<in> set (takeWhile (\<lambda>t. t \<noteq> Delete_this_task) past)"
      using assms(1) unfolding task_inv_def Let_def tw by blast+
    show "distinct (past @ task_queue s)" by (rule i(1))
    show "\<And>hs. Emit_task hs \<in> set (past @ task_queue s) \<Longrightarrow> hs = [0..<N]" using i(2) by blast
    fix w
    assume "Try_cancel_beside_task w \<in> set (past @ task_queue s)"
    then have "Try_cancel_beside_task w \<in> set (takeWhile (\<lambda>t. t \<noteq> Delete_this_task) past)"
      using i(3) assms(3) by auto
    then show "Try_cancel_beside_task w \<in> set past" by (rule set_takeWhileD [THEN conjunct1])
  qed
  have "t \<notin> set (task_queue s)" for t
  proof
    assume t: "t \<in> set (task_queue s)"
    then have t': "t \<in> set (past @ task_queue s)" by simp
    have "t \<in> set past"
    proof (cases t)
      case (Emit_task hs)
      then show ?thesis using E [of hs] t' assms(2) by metis
    next
      case (Try_cancel_beside_task w)
      then show ?thesis using C [of w] t' by metis
    next
      case Delete_this_task
      then show ?thesis using assms(3) by simp
    qed
    then show False using D t by auto
  qed
  then show "task_queue s = []" by (cases "task_queue s") auto
  show "emit_scheduled s" "delete_scheduled s" using assms by (simp_all add: task_inv_def Let_def)
qed

lemma map_nth_upt_filter: "map (\<lambda>i. [0..<N] ! i) (filter P [0..<N]) = filter P [0..<N]"
  by (rule map_idI) auto

lemma run_task_inv:
  assumes t: "task_inv N past s" and st: "serial_state_inv N past s" and q: "task_queue s = x # q"
    and "mark s = s"
  shows "task_inv N (past @ [x]) (run_next_task s) \<and> serial_state_inv N (past @ [x]) (run_next_task s)"
proof -
  have hs: "x = Emit_task hs \<Longrightarrow> hs = [0..<N]" for hs using t q by (auto simp: task_inv_def Let_def)
  have fresh: "x \<notin> set past" using t q by (auto simp: task_inv_def Let_def)
  have uniq: "x = Try_cancel_beside_task w \<Longrightarrow> Try_cancel_beside_task w' \<notin> set past" for w w'
    using t q fresh by (auto simp: task_inv_def Let_def)
  have same: "Try_cancel_beside_task w \<in> set past \<Longrightarrow> Try_cancel_beside_task w' \<in> set past \<Longrightarrow> w' = w" for w w'
    using t by (auto simp: task_inv_def Let_def)
  have r: "run_next_task s = execute x (s\<lparr>task_queue := q\<rparr>)" using q assms(4) by (simp add: run_next_task_def)
  have frame: "task_queue (execute x s') = task_queue s'" "emit_scheduled (execute x s') = emit_scheduled s'"
    "cancel_scheduled (execute x s') = cancel_scheduled s'" "delete_scheduled (execute x s') = delete_scheduled s'" for s'
    by (cases x; simp add: serialized_emit_def serialized_try_cancel_beside_def serialized_delete_this_def
        delete_this_def try_cancel_beside_impl_def Let_def split: option.split)+
  have "task_inv N (past @ [x]) (run_next_task s)" using t q unfolding task_inv_def r frame by simp
  moreover have "serial_state_inv N (past @ [x]) (run_next_task s)"
  proof (cases x)
    case (Emit_task hs)
    then have E: "x = Emit_task [0..<N]" "Emit_task [0..<N] \<notin> set past" using hs fresh by auto
    show ?thesis
    proof (cases "cancel_request s")
      case None
      then show ?thesis using st E unfolding r
        by (auto simp: serial_state_inv_def serialized_emit_def delete_this_def Let_def)
    next
      case (Some w)
      then show ?thesis using st E same [of w] unfolding r
        by (auto simp: serial_state_inv_def serialized_emit_def delete_this_def try_cancel_beside_impl_def
            map_nth_upt_filter Let_def)
    qed
  next
    case (Try_cancel_beside_task w)
    then show ?thesis using st uniq [OF Try_cancel_beside_task] unfolding r
      by (auto simp: serial_state_inv_def serialized_try_cancel_beside_def try_cancel_beside_impl_def
          map_nth_upt_filter split: option.split)
  next
    case Delete_this_task
    then show ?thesis using st fresh unfolding r
      by (auto simp: serial_state_inv_def serialized_delete_this_def delete_this_def)
  qed
  ultimately show ?thesis ..
qed

section \<open>One access of a callback\<close>

lemma next_object_frame:
  assumes inv: "obj_inv N ph s" and i: "i < N" "ph i = p" and claim: "claim_laws claim" and m: "mark s = s"
    and ok: "p = Last_fulfill \<Longrightarrow> outcome N a (maybe_results s) \<noteq> None"
    and s'_def: "s' = next_object N claim own store outcome i a p s"
  shows "done_word s' = (if p = First_claim \<or> p = Last_claim then 1 else done_word s)"
    and "maybe_results s' = (if p = Last_store then (maybe_results s)(i := store a) else maybe_results s)"
    and "slot_calls s' = (if p = First_fulfill then [own i a]
       else if p = Last_fulfill then [the (outcome N a (maybe_results s))] else slot_calls s)"
    and "task_queue s' = task_queue s @ (if p = First_cancel then [Try_cancel_beside_task i]
       else if p = Delete_next then [Delete_this_task] else [])"
    and "emit_scheduled s' = emit_scheduled s"
    and "cancel_scheduled s' = (p = First_cancel \<or> cancel_scheduled s)"
    and "delete_scheduled s' = (p = Delete_next \<or> delete_scheduled s)"
    and "cancel_handles s' = cancel_handles s" "cancel_request s' = cancel_request s"
    and "delete_requested s' = delete_requested s" "emitted s' = emitted s"
    and "deletions s' = deletions s" "cancelled_handles s' = cancelled_handles s"
    and "fulfilling p \<Longrightarrow> slot_calls s = []"
    and "p = First_cancel \<Longrightarrow> \<not> cancel_scheduled s" "p = Delete_next \<Longrightarrow> \<not> delete_scheduled s"
proof -
  note pos = num_pos [where P = fulfilling and ph = ph, OF i(1)] num_pos [where P = cancelling and ph = ph, OF i(1)]
    num_pos [where P = closing and ph = ph, OF i(1)]
  have dw: "done_word s = 0 \<or> done_word s = 1"
    and le: "length (slot_calls s) + num N fulfilling ph \<le> 1"
      "num N cancelling ph + of_bool (cancel_scheduled s) \<le> 1" "num N closing ph + of_bool (delete_scheduled s) \<le> 1"
    using inv by (auto simp: obj_inv_def split: split_of_bool_asm)
  show e: "fulfilling p \<Longrightarrow> slot_calls s = []"
    using le(1) pos(1) i(2) by (cases "slot_calls s") auto
  show c: "p = First_cancel \<Longrightarrow> \<not> cancel_scheduled s"
    using le(2) pos(2) i(2) by (cases "cancel_scheduled s") (auto simp: cancelling_def)
  show d: "p = Delete_next \<Longrightarrow> \<not> delete_scheduled s"
    using le(3) pos(3) i(2) by (cases "delete_scheduled s") (auto simp: closing_def)
  have cl: "snd (claim s) = s\<lparr>done_word := 1\<rparr>" using dw claim by (auto simp: claim_laws_def)
  note defs = s'_def next_object_def run_access_def access_defs cl m
  show "done_word s' = (if p = First_claim \<or> p = Last_claim then 1 else done_word s)"
    "maybe_results s' = (if p = Last_store then (maybe_results s)(i := store a) else maybe_results s)"
    "emit_scheduled s' = emit_scheduled s" "cancel_handles s' = cancel_handles s"
    "cancel_request s' = cancel_request s" "delete_requested s' = delete_requested s"
    "emitted s' = emitted s" "deletions s' = deletions s" "cancelled_handles s' = cancelled_handles s"
    by (cases p; simp add: defs split: option.split)+
  show "slot_calls s' = (if p = First_fulfill then [own i a]
       else if p = Last_fulfill then [the (outcome N a (maybe_results s))] else slot_calls s)"
    using e ok by (cases p) (auto simp: defs phase_defs)
  show "task_queue s' = task_queue s @ (if p = First_cancel then [Try_cancel_beside_task i]
       else if p = Delete_next then [Delete_this_task] else [])"
    "cancel_scheduled s' = (p = First_cancel \<or> cancel_scheduled s)"
    "delete_scheduled s' = (p = Delete_next \<or> delete_scheduled s)"
    using c d by (cases p; simp add: defs split: option.split)+
qed

lemma task_inv_schedule:
  assumes t: "task_inv N past s" and q: "task_queue s' = task_queue s @ xs" and e: "emit_scheduled s' = emit_scheduled s"
    and xs: "xs = [Try_cancel_beside_task i] \<and> \<not> cancel_scheduled s \<and> \<not> delete_scheduled s \<and>
        cancel_scheduled s' \<and> delete_scheduled s' = delete_scheduled s \<or>
      xs = [Delete_this_task] \<and> \<not> delete_scheduled s \<and> delete_scheduled s' \<and> cancel_scheduled s' = cancel_scheduled s"
  shows "task_inv N past s'"
  using xs
proof
  assume x: "xs = [Try_cancel_beside_task i] \<and> \<not> cancel_scheduled s \<and> \<not> delete_scheduled s \<and>
        cancel_scheduled s' \<and> delete_scheduled s' = delete_scheduled s"
  then have "Try_cancel_beside_task w \<notin> set (past @ task_queue s)" "Delete_this_task \<notin> set (past @ task_queue s)" for w
    using t unfolding task_inv_def Let_def by blast+
  then show ?thesis using t x q e unfolding task_inv_def Let_def by auto
next
  assume x: "xs = [Delete_this_task] \<and> \<not> delete_scheduled s \<and> delete_scheduled s' \<and> cancel_scheduled s' = cancel_scheduled s"
  then have n: "Delete_this_task \<notin> set (past @ task_queue s)"
    using t unfolding task_inv_def Let_def by blast
  then have "takeWhile (\<lambda>t. t \<noteq> Delete_this_task) ((past @ task_queue s) @ [Delete_this_task]) = past @ task_queue s"
    by (subst takeWhile_append2) auto
  then show ?thesis using t x q e n unfolding task_inv_def Let_def by auto
qed

end
