(* ===== verification/Parallel_Answers.thy ===== *)
theory Parallel_Answers
  imports Parallel_Client
begin

text \<open>
  How the answers of the connections determine the call of the slot: the second half of the
  invariant of \<open>all\<close>, \<open>any\<close> and \<open>select\<close>, and the locale \<open>parallel_client\<close> with the theorems that
  all three share.
\<close>

section \<open>Answers, phases and results\<close>

definition of_first :: "phase \<Rightarrow> bool" where
  "of_first p \<longleftrightarrow> p \<in> {First_claim, First_fulfill, First_cancel, First_count}"

definition of_last :: "phase \<Rightarrow> bool" where
  "of_last p \<longleftrightarrow> p \<in> {Last_store, Last_count, Last_claim, Last_fulfill}"

definition phase_inv :: "nat \<Rightarrow> ('a \<Rightarrow> bool) \<Rightarrow> (nat \<Rightarrow> 'a option) \<Rightarrow> (nat \<Rightarrow> phase) \<Rightarrow> bool" where
  "phase_inv N wins ans ph \<longleftrightarrow> (\<forall>i. (ans i = None) = (ph i = Idle)) \<and> (\<forall>i\<ge>N. ph i = Idle) \<and>
     (\<forall>i a. ans i = Some a \<longrightarrow> (wins a \<longrightarrow> \<not> of_last (ph i)) \<and> (of_first (ph i) \<longrightarrow> wins a))"

lemma next_phase_kind:
  assumes "p \<noteq> Idle"
  shows "next_phase N claim p s \<noteq> Idle" "of_last (next_phase N claim p s) \<Longrightarrow> of_last p"
    "of_first (next_phase N claim p s) \<Longrightarrow> of_first p" "passed p \<Longrightarrow> passed (next_phase N claim p s)"
  using assms by (cases p; auto simp: next_phase_def of_last_def of_first_def passed_def split: if_splits)+

lemma phase_inv_step:
  assumes "phase_inv N wins ans ph" "i < N" "ph i = p" "p \<noteq> Idle"
  shows "phase_inv N wins ans (ph(i := next_phase N claim p s))"
proof -
  note kind = next_phase_kind [OF assms(4), of N claim s]
  define x where "x = next_phase N claim p s"
  show ?thesis using assms kind unfolding phase_inv_def x_def [symmetric] by auto
qed

definition lost :: "nat \<Rightarrow> ('a \<Rightarrow> bool) \<Rightarrow> (nat \<Rightarrow> 'a option) \<Rightarrow> bool" where
  "lost N wins ans \<longleftrightarrow> (\<forall>j<N. \<exists>b. ans j = Some b \<and> \<not> wins b)"

definition result_inv where
  "result_inv wins store ans ph s \<longleftrightarrow>
     (\<forall>i a. ans i = Some a \<longrightarrow> wins a \<longrightarrow> ph i \<noteq> First_claim \<longrightarrow> done_word s \<noteq> 0) \<and>
     (\<forall>i a v. ans i = Some a \<longrightarrow> \<not> wins a \<longrightarrow> ph i \<noteq> Last_store \<longrightarrow> store a = Some v \<longrightarrow> maybe_results s i = Some v)"

lemma result_inv_step:
  assumes r: "result_inv wins store ans ph s" and "phase_inv N wins ans ph" and "ph i = p" "p \<noteq> Idle" "ans i = Some a"
    and d: "done_word s' = (if p = First_claim \<or> p = Last_claim then 1 else done_word s)"
    and m: "maybe_results s' = (if p = Last_store then (maybe_results s)(i := store a) else maybe_results s)"
  shows "result_inv wins store ans (ph(i := x)) s'"
  using assms unfolding result_inv_def d m phase_inv_def by auto

section \<open>The calls of the slot\<close>

definition call_ok where
  "call_ok N wins own outcome ans ph s c \<longleftrightarrow>
     (\<exists>i<N. \<exists>a. ans i = Some a \<and> wins a \<and> c = own i a) \<or>
     lost N wins ans \<and> (\<forall>j<N. passed (ph j)) \<and> (\<exists>i<N. \<exists>a. ans i = Some a \<and> outcome N a (maybe_results s) = Some c)"

definition call_inv where
  "call_inv N wins own outcome ans ph ts s \<longleftrightarrow>
     (\<forall>i<N. ph i = Last_fulfill \<longrightarrow> lost N wins ans) \<and>
     (\<forall>i<N. \<forall>a. ph i = First_cancel \<longrightarrow> ans i = Some a \<longrightarrow> slot_calls s = [own i a]) \<and>
     (\<forall>w. Try_cancel_beside_task w \<in> set ts \<longrightarrow> (w < N \<and> (\<exists>a. ans w = Some a \<and> wins a \<and> slot_calls s = [own w a]))) \<and>
     (\<forall>c\<in>set (slot_calls s). call_ok N wins own outcome ans ph s c)"

lemma call_ok_step:
  assumes "call_ok N wins own outcome ans ph s c" and "ph i = p" and "passed p \<longrightarrow> passed x"
    and "maybe_results s' = (if p = Last_store then r else maybe_results s)" and "i < N"
  shows "call_ok N wins own outcome ans (ph(i := x)) s' c"
  using assms by (auto simp: call_ok_def passed_def)

lemma all_passed:
  assumes "obj_inv N ph s" "i < N" "closing (ph i)"
  shows "\<forall>j<N. passed (ph j)"
proof -
  have "0 < num N closing ph" by (rule num_pos [where P = closing and ph = ph, OF assms(2,3)])
  then have "num N passed ph = N" using assms(1) by (auto simp: obj_inv_def split: split_of_bool_asm)
  then show ?thesis by (simp add: num_all)
qed

lemma cancelling_unique:
  assumes "obj_inv N ph s" "i < N" "cancelling (ph i)"
  shows "\<not> cancel_scheduled s" "j < N \<Longrightarrow> cancelling (ph j) \<Longrightarrow> j = i"
proof -
  have pos: "0 < num N cancelling ph" by (rule num_pos [where P = cancelling and ph = ph, OF assms(2,3)])
  have le: "num N cancelling ph + of_bool (cancel_scheduled s) \<le> 1"
    using assms(1) by (auto simp: obj_inv_def split: split_of_bool_asm)
  show "\<not> cancel_scheduled s" using pos le by (cases "cancel_scheduled s") auto
  show "j < N \<Longrightarrow> cancelling (ph j) \<Longrightarrow> j = i"
    using num_one [of N cancelling ph j i] le assms by auto
qed

lemma call_inv_step:
  assumes c: "call_inv N wins own outcome ans ph (past @ task_queue s) s"
    and o: "obj_inv N ph s" and p0: "phase_inv N wins ans ph" and r0: "result_inv wins store ans ph s"
    and t: "task_inv N past s"
    and i: "i < N" and p: "ph i = p" "p \<noteq> Idle" and a: "ans i = Some a"
    and x: "x = next_phase N claim p s" and claim: "claim_laws claim"
    and m: "maybe_results s' = (if p = Last_store then (maybe_results s)(i := store a) else maybe_results s)"
    and sl: "slot_calls s' = (if p = First_fulfill then [own i a]
       else if p = Last_fulfill then [the (outcome N a (maybe_results s))] else slot_calls s)"
    and q: "task_queue s' = task_queue s @ (if p = First_cancel then [Try_cancel_beside_task i]
       else if p = Delete_next then [Delete_this_task] else [])"
    and ok: "p = Last_fulfill \<Longrightarrow> outcome N a (maybe_results s) \<noteq> None"
  shows "call_inv N wins own outcome ans (ph(i := x)) (past @ task_queue s') s'"
proof -
  have mono: "passed p \<longrightarrow> passed x" using next_phase_kind(4) [OF p(2)] unfolding x by blast
  have wins_a: "p \<in> {First_claim, First_fulfill, First_cancel, First_count} \<Longrightarrow> wins a"
    using p0 p(1) a unfolding phase_inv_def of_first_def by blast
  have no_cancel: "Try_cancel_beside_task w \<notin> set (past @ task_queue s)" if "cancelling p" for w
    using cancelling_unique(1) [OF o i] that t p by (auto simp: task_inv_def Let_def)
  have last_lost: "lost N wins ans" if "p = Last_claim" "done_word s = 0"
    unfolding lost_def
  proof (intro allI impI)
    fix j
    assume j: "j < N"
    have "passed (ph j)" using all_passed [OF o i] that(1) p(1) j by (simp add: closing_def)
    then have "ph j \<noteq> Idle" "ph j \<noteq> First_claim" by (auto simp: passed_def)
    then obtain b where b: "ans j = Some b" using p0 unfolding phase_inv_def by (cases "ans j") auto
    then have "\<not> wins b" using r0 that(2) \<open>ph j \<noteq> First_claim\<close> unfolding result_inv_def by blast
    with b show "\<exists>b. ans j = Some b \<and> \<not> wins b" by blast
  qed
  have A: "\<forall>j<N. (ph(i := x)) j = Last_fulfill \<longrightarrow> lost N wins ans"
  proof (intro allI impI)
    fix j
    assume j: "j < N" "(ph(i := x)) j = Last_fulfill"
    show "lost N wins ans"
    proof (cases "j = i")
      case True
      then have "x = Last_fulfill" using j by simp
      then have "p = Last_claim \<and> fst (claim s)"
        unfolding x next_phase_def by (cases p) (auto split: if_splits)
      moreover have "done_word s = 0 \<or> done_word s = 1" using o by (simp add: obj_inv_def)
      ultimately show ?thesis using last_lost claim by (auto simp: claim_laws_def)
    next
      case False
      then show ?thesis using j c unfolding call_inv_def by auto
    qed
  qed
  have B: "\<forall>j<N. \<forall>b. (ph(i := x)) j = First_cancel \<longrightarrow> ans j = Some b \<longrightarrow> slot_calls s' = [own j b]"
  proof (intro allI impI)
    fix j b
    assume j: "j < N" "(ph(i := x)) j = First_cancel" "ans j = Some b"
    show "slot_calls s' = [own j b]"
    proof (cases "j = i")
      case True
      then have "p = First_fulfill" using j x unfolding next_phase_def by (cases p) (auto split: if_splits)
      then show ?thesis using True j a sl by simp
    next
      case False
      then have "\<not> cancelling p" using cancelling_unique(2) [OF o i _ j(1)] j p by (auto simp: cancelling_def)
      then show ?thesis using False j c sl unfolding call_inv_def by (auto simp: cancelling_def)
    qed
  qed
  have C: "\<forall>w. Try_cancel_beside_task w \<in> set (past @ task_queue s') \<longrightarrow>
      w < N \<and> (\<exists>a. ans w = Some a \<and> wins a \<and> slot_calls s' = [own w a])"
  proof (intro allI impI)
    fix w
    assume w: "Try_cancel_beside_task w \<in> set (past @ task_queue s')"
    show "w < N \<and> (\<exists>a. ans w = Some a \<and> wins a \<and> slot_calls s' = [own w a])"
    proof (cases "cancelling p")
      case True
      then have "p = First_cancel" "w = i" using w q no_cancel by (auto split: if_splits simp: cancelling_def)
      then show ?thesis using i a c p wins_a sl unfolding call_inv_def by simp
    next
      case False
      then have "Try_cancel_beside_task w \<in> set (past @ task_queue s)" "slot_calls s' = slot_calls s"
        using w q sl by (auto simp: cancelling_def split: if_splits)
      then show ?thesis using c unfolding call_inv_def by auto
    qed
  qed
  have D: "\<forall>d\<in>set (slot_calls s'). call_ok N wins own outcome ans (ph(i := x)) s' d"
  proof
    fix d
    assume d: "d \<in> set (slot_calls s')"
    show "call_ok N wins own outcome ans (ph(i := x)) s' d"
    proof (cases "d \<in> set (slot_calls s)")
      case True
      then have "call_ok N wins own outcome ans ph s d" using c unfolding call_inv_def by blast
      then show ?thesis by (rule call_ok_step [where ph = ph and i = i, OF _ p(1) mono m i])
    next
      case False
      then consider "p = First_fulfill" "d = own i a" | "p = Last_fulfill" "d = the (outcome N a (maybe_results s))"
        using d sl by (auto split: if_splits)
      then show ?thesis
      proof cases
        case 1
        then show ?thesis using i a wins_a unfolding call_ok_def by auto
      next
        case 2
        then have l: "lost N wins ans" "\<forall>j<N. passed (ph j)"
          using c i p all_passed [OF o i] unfolding call_inv_def by (auto simp: closing_def)
        have "outcome N a (maybe_results s') = Some d" using 2 ok m by auto
        then show ?thesis using l i a mono 2 unfolding call_ok_def by (auto simp: passed_def)
      qed
    qed
  qed
  show ?thesis unfolding call_inv_def using A B C D by blast
qed

section \<open>The operation is settled\<close>

definition settle_inv where
  "settle_inv N wins ans ph s \<longleftrightarrow>
     (done_word s \<noteq> 0 \<longrightarrow> cancel_scheduled s \<or> (\<exists>i<N. cancelling (ph i)) \<or> lost N wins ans) \<and>
     ((\<forall>i<N. passed (ph i)) \<longrightarrow> (\<exists>i<N. ph i = Last_claim) \<or> done_word s \<noteq> 0)"

lemma settle_inv_step:
  assumes s: "settle_inv N wins ans ph s" and o: "obj_inv N ph s" and r: "result_inv wins store ans ph s"
    and p0: "phase_inv N wins ans ph"
    and N: "N < 2 ^ 32" and i: "i < N" and p: "ph i = p" "p \<noteq> Idle" and a: "ans i = Some a"
    and x: "x = next_phase N claim p s" and claim: "claim_laws claim"
    and l: "call_inv N wins own outcome ans ph ts s" and c: "call_inv N wins own outcome ans (ph(i := x)) ts' s'"
    and d: "done_word s' = (if p = First_claim \<or> p = Last_claim then 1 else done_word s)"
    and cs: "cancel_scheduled s' = (p = First_cancel \<or> cancel_scheduled s)"
  shows "settle_inv N wins ans (ph(i := x)) s'"
proof -
  have dw: "done_word s = 0 \<or> done_word s = 1" using o by (simp add: obj_inv_def)
  have last: "\<forall>j<N. (ph(i := x)) j = Last_fulfill \<longrightarrow> lost N wins ans" "\<forall>j<N. ph j = Last_fulfill \<longrightarrow> lost N wins ans"
    using c l unfolding call_inv_def by (blast, blast)
  have A: "cancel_scheduled s' \<or> (\<exists>j<N. cancelling ((ph(i := x)) j)) \<or> lost N wins ans" if "done_word s' \<noteq> 0"
  proof (cases "cancelling x \<or> p = First_cancel \<or> lost N wins ans")
    case True
    then show ?thesis using i cs by (metis fun_upd_same)
  next
    case False
    then have nx: "\<not> cancelling x" "p \<noteq> First_cancel" "\<not> lost N wins ans" by simp_all
    have "\<not> cancelling p"
    proof
      assume "cancelling p"
      then have "p = Last_fulfill" using nx unfolding x next_phase_def cancelling_def by auto
      then show False using last(2) i p nx(3) by blast
    qed
    moreover have "done_word s \<noteq> 0"
    proof
      assume z: "done_word s = 0"
      then have "p = First_claim \<or> p = Last_claim" using that d by (auto split: if_splits)
      then show False using nx(1) z claim unfolding x next_phase_def cancelling_def claim_laws_def by auto
    qed
    ultimately show ?thesis using s nx(3) cs p unfolding settle_inv_def by (metis fun_upd_other)
  qed
  have B: "(\<exists>j<N. (ph(i := x)) j = Last_claim) \<or> done_word s' \<noteq> 0" if all: "\<forall>j<N. passed ((ph(i := x)) j)"
  proof (cases "done_word s' \<noteq> 0 \<or> x = Last_claim")
    case True
    then show ?thesis using i by (metis fun_upd_same)
  next
    case False
    then have z: "done_word s = 0" "p \<noteq> First_claim" "p \<noteq> Last_claim" "x \<noteq> Last_claim" using d by (auto split: if_splits)
    have px: "passed x" using all i by (metis fun_upd_same)
    show ?thesis
    proof (cases "passed p")
      case True
      then have "\<forall>j<N. passed (ph j)" using all p by (metis fun_upd_apply)
      then obtain j where "j < N" "ph j = Last_claim" using s z(1) unfolding settle_inv_def by blast
      then show ?thesis using z(3) p by (metis fun_upd_other)
    next
      case False
      have "p = First_count \<or> p = Last_count"
        using False px z(2,3) p(2) unfolding x next_phase_def passed_def by (cases p) (auto split: if_splits)
      then show ?thesis
      proof
        assume "p = First_count"
        then have "wins a" using p0 a p(1) unfolding phase_inv_def of_first_def by blast
        moreover have "\<forall>i a. ans i = Some a \<longrightarrow> wins a \<longrightarrow> ph i \<noteq> First_claim \<longrightarrow> done_word s \<noteq> 0"
          using r unfolding result_inv_def by (rule conjunct1)
        ultimately have "done_word s \<noteq> 0" using a p(1) \<open>p = First_count\<close> by (metis phase.distinct)
        then show ?thesis using z(1) by simp
      next
        assume pl: "p = Last_count"
        have "x = Finished" using pl z(4) unfolding x next_phase_def by (auto split: if_splits)
        moreover have "counted N s"
        proof -
          have "num N passed (ph(i := x)) = N" using all by (simp add: num_all)
          moreover have "num N passed (ph(i := x)) = num N passed ph + 1"
            using num_upd [of i N passed ph x] i p False px by simp
          ultimately show ?thesis using accounts_count(1) [OF o [unfolded obj_inv_accounts] _ N] by simp
        qed
        ultimately show ?thesis using pl unfolding x next_phase_def by simp
      qed
    qed
  qed
  show ?thesis unfolding settle_inv_def using A B by blast
qed

end
