(* ===== verification/Parallel_Runs.thy ===== *)
theory Parallel_Runs
  imports Parallel_Answers
begin

text \<open>
  The invariant of an operation in progress (\<open>run_inv\<close>), its preservation by every step of
  \<open>par_step\<close>, and the locale \<open>parallel_client\<close>: the contract between \<open>parallel_connection\<close> and the
  callbacks of \<open>all\<close>, \<open>any\<close> and \<open>select\<close>, with the theorems the three share.
\<close>

section \<open>Emission\<close>

inductive emission :: "nat \<Rightarrow> nat list \<Rightarrow> (('r, 'e, 'v) par, unit) prog \<Rightarrow> bool" for N where
  emission_last: "emission N [] (emit_impl [0..<N])"
| emission_next: "emission N is (k i) \<Longrightarrow> emission N (i # is) (pbind (emit_connection i) k)"

lemma emission_each: "hs @ is = [0..<N] \<Longrightarrow> emission N is (emit_each is hs)"
proof (induction "is" arbitrary: hs)
  case (Cons i "is")
  then show ?case using Cons.IH [of "hs @ [i]"] by (simp add: emission_next)
qed (simp add: emission_last)

lemma emission_in_order:
  assumes "length mr = N" "\<forall>j<N. j \<in> set is \<or> mr ! j = Some j"
  shows "emission N is (emit_in_order is mr)"
  using assms
proof (induction "is" arbitrary: mr)
  case Nil
  then have "map the mr = [0..<N]" by (intro nth_equalityI) auto
  then show ?case by (simp add: emission_last)
next
  case (Cons i "is")
  have "length (mr[i := Some i]) = N" "\<forall>j<N. j \<in> set is \<or> mr[i := Some i] ! j = Some j"
    using Cons.prems by (cases "i < length mr"; auto simp: nth_list_update)+
  from Cons.IH [OF this] show ?case by (simp add: emission_next)
qed

definition emit_inv :: "nat \<Rightarrow> nat list \<Rightarrow> (('r, 'e, 'v) par, unit) prog \<Rightarrow> ('r, 'e, 'v) par \<Rightarrow> bool" where
  "emit_inv N order em s \<longleftrightarrow>
     (\<exists>is. emission N is em \<and> \<not> emit_scheduled s \<and> emitted s @ is = order) \<or>
     em = Ret () \<and> emit_scheduled s \<and> emitted s = order"

section \<open>The invariant\<close>

definition run_inv where
  "run_inv N claim wins own store outcome order past ph c \<longleftrightarrow>
     obj_inv N ph (object c) \<and> task_inv N past (object c) \<and> serial_state_inv N past (object c) \<and>
     phase_inv N wins (answers c) ph \<and> result_inv wins store (answers c) ph (object c) \<and>
     call_inv N wins own outcome (answers c) ph (past @ task_queue (object c)) (object c) \<and>
     emit_inv N order (emitter c) (object c) \<and> settle_inv N wins (answers c) ph (object c) \<and>
     (\<forall>i. callbacks c i = map_option (\<lambda>a. prog_of N claim own store outcome i a (ph i)) (answers c i))"

lemma run_invD:
  assumes "run_inv N claim wins own store outcome order past ph c"
  shows "obj_inv N ph (object c)" "task_inv N past (object c)" "serial_state_inv N past (object c)"
    "phase_inv N wins (answers c) ph" "result_inv wins store (answers c) ph (object c)"
    "call_inv N wins own outcome (answers c) ph (past @ task_queue (object c)) (object c)"
    "emit_inv N order (emitter c) (object c)"
    "callbacks c i = map_option (\<lambda>a. prog_of N claim own store outcome i a (ph i)) (answers c i)"
    "settle_inv N wins (answers c) ph (object c)"
  using assms by (simp_all add: run_inv_def)

text \<open>While anything is left to do the object exists.\<close>

lemma deleted_all_over:
  assumes "obj_inv N ph s" "task_inv N past s" "serial_state_inv N past s" "0 < deletions s"
  shows "\<forall>i<N. ph i = Finished" "task_queue s = []" "emit_scheduled s"
proof -
  have "Emit_task [0..<N] \<in> set past" "Delete_this_task \<in> set past"
    using assms(3,4) by (auto simp: serial_state_inv_def split: split_of_bool_asm)
  note over = task_inv_past [OF assms(2) this]
  then show "task_queue s = []" "emit_scheduled s" by simp_all
  have "num N closing ph = 0" "num N passed ph = N"
    using assms(1) over(3) by (auto simp: obj_inv_def split: split_of_bool_asm)
  then show "\<forall>i<N. ph i = Finished" by (auto simp: num_all num_none closing_def passed_def)
qed

lemma mark_alive:
  assumes "obj_inv N ph s" "task_inv N past s" "serial_state_inv N past s"
    and "(\<exists>i<N. ph i \<noteq> Finished) \<or> task_queue s \<noteq> [] \<or> \<not> emit_scheduled s"
  shows "mark s = s"
  using deleted_all_over [OF assms(1-3)] assms(4) by (cases "0 < deletions s") (auto simp: mark_def)

text \<open>The steps of the callbacks.\<close>

definition outcome_total where
  "outcome_total N wins store outcome \<longleftrightarrow> (\<forall>ans res i a.
     (\<forall>j<N. \<exists>b. ans j = Some b \<and> \<not> wins b \<and> (\<forall>v. store b = Some v \<longrightarrow> res j = Some v)) \<longrightarrow>
     i < N \<longrightarrow> ans i = Some a \<longrightarrow> outcome N a res \<noteq> None)"

lemma serial_state_frame:
  assumes "serial_state_inv N past s" "cancel_handles s' = cancel_handles s" "cancel_request s' = cancel_request s"
    "delete_requested s' = delete_requested s" "deletions s' = deletions s" "cancelled_handles s' = cancelled_handles s"
  shows "serial_state_inv N past s'"
  using assms unfolding serial_state_inv_def by simp

lemma phase_inv_answered:
  assumes "phase_inv N wins ans ph" "ans i = Some a"
  shows "ph i \<noteq> Idle \<and> i < N"
proof -
  have "(ans i = None) = (ph i = Idle)" "\<forall>i\<ge>N. ph i = Idle" using assms(1) unfolding phase_inv_def by blast+
  then show ?thesis using assms(2) by (metis not_le_imp_less option.distinct(1))
qed

lemma callback_preserves:
  assumes inv: "run_inv N claim wins own store outcome order past ph c"
    and N: "N < 2 ^ 32" and claim: "claim_laws claim" and total: "outcome_total N wins store outcome"
    and g: "callbacks c i = Some (Step g)"
  shows "\<exists>ph'. run_inv N claim wins own store outcome order past ph'
    (c\<lparr>object := snd (g (object c)), callbacks := (callbacks c)(i := Some (fst (g (object c))))\<rparr>)"
proof -
  note d = run_invD [OF inv]
  obtain a where a: "answers c i = Some a" and pr: "prog_of N claim own store outcome i a (ph i) = Step g"
    using d(8) [of i] g by (cases "answers c i") auto
  define p where "p = ph i"
  define s where "s = object c"
  have p: "p \<noteq> Idle" "i < N" using phase_inv_answered [OF d(4) a] by (simp_all add: p_def)
  have "p \<noteq> Finished" using pr unfolding p_def by auto
  then have m: "mark s = s" unfolding s_def
    by (intro mark_alive [OF d(1-3)]) (use p p_def in auto)
  have ok: "outcome N a (maybe_results s) \<noteq> None" if "p = Last_fulfill"
  proof -
    have "\<forall>j<N. passed (ph j)" using all_passed [OF d(1) p(2)] that p_def by (simp add: closing_def)
    then have "ph j \<noteq> Last_store" if "j < N" for j using that by (auto simp: passed_def)
    moreover have l: "lost N wins (answers c)"
    proof -
      have "\<forall>i<N. ph i = Last_fulfill \<longrightarrow> lost N wins (answers c)"
        using d(6) unfolding call_inv_def by (rule conjunct1)
      then show ?thesis using that p(2) unfolding p_def by simp
    qed
    moreover have r: "\<And>j b v. answers c j = Some b \<Longrightarrow> \<not> wins b \<Longrightarrow> ph j \<noteq> Last_store \<Longrightarrow> store b = Some v \<Longrightarrow>
        maybe_results s j = Some v"
      using d(5) unfolding result_inv_def s_def by simp
    ultimately have "\<forall>j<N. \<exists>b. answers c j = Some b \<and> \<not> wins b \<and> (\<forall>v. store b = Some v \<longrightarrow> maybe_results s j = Some v)"
      unfolding lost_def by metis
    then show ?thesis using total p(2) a unfolding outcome_total_def by blast
  qed
  define x where "x = next_phase N claim p s"
  define s' where "s' = next_object N claim own store outcome i a p s"
  have gs: "g s = (prog_of N claim own store outcome i a x, s')"
    using prog_of_step [OF p(1) \<open>p \<noteq> Finished\<close>, of N claim own store outcome i a] pr m
    unfolding x_def s'_def p_def by (metis prog.inject(3))
  note fr = next_object_frame [where outcome = outcome and a = a and own = own and store = store,
      OF d(1) p(2) p_def [symmetric] claim m [unfolded s_def] ok [unfolded s_def] s'_def [unfolded s_def]]
  have o': "obj_inv N (ph(i := x)) s'" unfolding x_def s'_def s_def
    by (rule obj_inv_step [where ph = ph and i = i and outcome = outcome and a = a, OF d(1) p(2) p_def [symmetric] N claim m [unfolded s_def] ok [unfolded s_def]])
  have t': "task_inv N past s'"
  proof -
    consider "p = First_cancel" | "p = Delete_next" | "p \<noteq> First_cancel" "p \<noteq> Delete_next" by blast
    then show ?thesis
    proof cases
      case 1
      have "num N passed ph \<noteq> N" using 1 p p_def by (auto simp: num_all passed_def)
      then have "\<not> delete_scheduled s" using d(1) unfolding s_def by (simp add: obj_inv_def)
      then show ?thesis using 1 fr unfolding s_def by (intro task_inv_schedule [OF d(2) fr(4)]) auto
    next
      case 2
      then show ?thesis using fr by (intro task_inv_schedule [OF d(2) fr(4)]) auto
    next
      case 3
      then show ?thesis using d(2) fr unfolding task_inv_def by simp
    qed
  qed
  have st': "serial_state_inv N past s'" by (rule serial_state_frame [OF d(3) fr(8-10) fr(12,13)])
  have p': "phase_inv N wins (answers c) (ph(i := x))"
    unfolding x_def by (rule phase_inv_step [where ph = ph and i = i, OF d(4) p(2) p_def [symmetric] p(1)])
  have r': "result_inv wins store (answers c) (ph(i := x)) s'"
    by (rule result_inv_step [where ph = ph and i = i, OF d(5,4) p_def [symmetric] p(1) a fr(1,2)])
  have c': "call_inv N wins own outcome (answers c) (ph(i := x)) (past @ task_queue s') s'"
    by (rule call_inv_step [where ph = ph and i = i and outcome = outcome and store = store, OF d(6,1,4,5,2) p(2) p_def [symmetric] p(1) a x_def [unfolded s_def] claim fr(2-4) ok [unfolded s_def]])
  have s': "settle_inv N wins (answers c) (ph(i := x)) s'"
    by (rule settle_inv_step [where ph = ph and i = i and outcome = outcome and store = store,
          OF d(9,1,5,4) N p(2) p_def [symmetric] p(1) a x_def [unfolded s_def] claim d(6) c' fr(1,6)])
  have e': "emit_inv N order (emitter c) s'" using d(7) fr by (simp add: emit_inv_def)
  have cb: "((callbacks c)(i := Some (prog_of N claim own store outcome i a x))) j =
      map_option (\<lambda>a. prog_of N claim own store outcome j a ((ph(i := x)) j)) (answers c j)" for j
    using d(8) a by simp
  have "run_inv N claim wins own store outcome order past (ph(i := x))
    (c\<lparr>object := snd (g (object c)), callbacks := (callbacks c)(i := Some (fst (g (object c))))\<rparr>)"
    using o' t' st' p' r' c' e' s' cb gs unfolding run_inv_def s_def by simp
  then show ?thesis by blast
qed


text \<open>The other steps.\<close>

lemma num_same: "i < N \<Longrightarrow> \<not> P (ph i) \<Longrightarrow> \<not> P x \<Longrightarrow> num N P (ph(i := x)) = num N P ph"
  using num_upd [of i N P ph x] by simp

definition start_phase where
  "start_phase wins store a = (if wins a then First_claim else if store a = None then Last_count else Last_store)"

lemma prog_of_start:
  "prog_of N claim own store outcome i a (start_phase wins store a) = client_body N claim wins own store outcome i a"
  by (simp add: start_phase_def client_body_def)

lemma answer_preserves:
  assumes inv: "run_inv N claim wins own store outcome order past ph c"
    and i: "i < N" "callbacks c i = None"
  shows "\<exists>ph'. run_inv N claim wins own store outcome order past ph'
    (c\<lparr>callbacks := (callbacks c)(i := Some (client_body N claim wins own store outcome i a)),
       answers := (answers c)(i := Some a)\<rparr>)"
proof -
  note d = run_invD [OF inv]
  define x where "x = start_phase wins store a"
  have a: "answers c i = None" using d(8) [of i] i(2) by simp
  then have idle: "ph i = Idle" using d(4) unfolding phase_inv_def by blast
  have x: "\<not> passed x" "\<not> closing x" "\<not> fulfilling x" "\<not> cancelling x" "x \<noteq> Idle"
    "x \<noteq> Last_fulfill" "x \<noteq> First_cancel" "wins a \<Longrightarrow> x = First_claim" "\<not> wins a \<Longrightarrow> \<not> of_first x"
    "store a \<noteq> None \<Longrightarrow> \<not> wins a \<Longrightarrow> x = Last_store"
    by (auto simp: x_def start_phase_def phase_defs of_first_def)
  have idle': "\<not> passed (ph i)" "\<not> closing (ph i)" "\<not> fulfilling (ph i)" "\<not> cancelling (ph i)"
    using idle by (auto simp: phase_defs)
  note nums = num_same [where ph = ph and P = passed, OF i(1) idle'(1) x(1)]
    num_same [where ph = ph and P = closing, OF i(1) idle'(2) x(2)]
    num_same [where ph = ph and P = fulfilling, OF i(1) idle'(3) x(3)]
    num_same [where ph = ph and P = cancelling, OF i(1) idle'(4) x(4)]
  have o': "obj_inv N (ph(i := x)) (object c)" using d(1) unfolding obj_inv_def nums .
  have p': "phase_inv N wins ((answers c)(i := Some a)) (ph(i := x))"
    using d(4) i x unfolding phase_inv_def by (auto simp: of_last_def)
  have r': "result_inv wins store ((answers c)(i := Some a)) (ph(i := x)) (object c)"
    using d(5) x unfolding result_inv_def by auto
  have ok: "call_ok N wins own outcome ((answers c)(i := Some a)) (ph(i := x)) (object c) k"
    if "call_ok N wins own outcome (answers c) ph (object c) k" for k
    using that idle'(1) i(1) a unfolding call_ok_def by (metis fun_upd_other option.distinct(1))
  have c': "call_inv N wins own outcome ((answers c)(i := Some a)) (ph(i := x)) (past @ task_queue (object c)) (object c)"
  proof -
    have "\<forall>j<N. (ph(i := x)) j = Last_fulfill \<longrightarrow> lost N wins ((answers c)(i := Some a))"
      using d(6) x a i(1) unfolding call_inv_def lost_def by (metis fun_upd_apply option.distinct(1))
    moreover have "\<forall>j<N. \<forall>b. (ph(i := x)) j = First_cancel \<longrightarrow> ((answers c)(i := Some a)) j = Some b \<longrightarrow>
        slot_calls (object c) = [own j b]"
      using d(6) x unfolding call_inv_def by simp
    moreover have "\<forall>w. Try_cancel_beside_task w \<in> set (past @ task_queue (object c)) \<longrightarrow>
        w < N \<and> (\<exists>b. ((answers c)(i := Some a)) w = Some b \<and> wins b \<and> slot_calls (object c) = [own w b])"
      using d(6) a unfolding call_inv_def by (metis fun_upd_other option.distinct(1))
    ultimately show ?thesis using d(6) ok unfolding call_inv_def by blast
  qed
  have l': "lost N wins ((answers c)(i := Some a))" if "lost N wins (answers c)"
    using that a i(1) unfolding lost_def by (metis option.distinct(1))
  have s': "settle_inv N wins ((answers c)(i := Some a)) (ph(i := x)) (object c)"
  proof -
    have "cancelling ((ph(i := x)) j)" if "cancelling (ph j)" for j using that idle'(4) by (cases "j = i") auto
    moreover have "\<not> (\<forall>j<N. passed ((ph(i := x)) j))" using i(1) x(1) by (metis fun_upd_same)
    ultimately show ?thesis using d(9) l' unfolding settle_inv_def by blast
  qed
  have cb: "((callbacks c)(i := Some (client_body N claim wins own store outcome i a))) j =
      map_option (\<lambda>a. prog_of N claim own store outcome j a ((ph(i := x)) j)) (((answers c)(i := Some a)) j)" for j
    using d(8) [of j] prog_of_start [of N claim own store outcome i a wins] by (simp add: x_def)
  have "run_inv N claim wins own store outcome order past (ph(i := x))
    (c\<lparr>callbacks := (callbacks c)(i := Some (client_body N claim wins own store outcome i a)),
       answers := (answers c)(i := Some a)\<rparr>)"
    using o' p' r' c' s' cb d(2,3,7) unfolding run_inv_def by simp
  then show ?thesis by blast
qed

lemma call_inv_frame:
  assumes "call_inv N wins own outcome ans ph ts s" "slot_calls s' = slot_calls s" "maybe_results s' = maybe_results s"
    and "\<And>w. Try_cancel_beside_task w \<in> set ts' \<Longrightarrow> Try_cancel_beside_task w \<in> set ts"
  shows "call_inv N wins own outcome ans ph ts' s'"
  using assms unfolding call_inv_def call_ok_def by simp

lemma obj_inv_frame:
  assumes "obj_inv N ph s" "counter s' = counter s" "done_word s' = done_word s" "slot_calls s' = slot_calls s"
    "cancel_scheduled s' = cancel_scheduled s" "delete_scheduled s' = delete_scheduled s"
    "check_failed s' = check_failed s" "dangling s' = dangling s"
  shows "obj_inv N ph s'"
  using assms unfolding obj_inv_def by simp

lemma result_inv_frame:
  assumes "result_inv wins store ans ph s" "done_word s' = done_word s" "maybe_results s' = maybe_results s"
  shows "result_inv wins store ans ph s'"
  using assms unfolding result_inv_def by simp

lemma settle_inv_frame:
  assumes "settle_inv N wins ans ph s" "done_word s' = done_word s" "cancel_scheduled s' = cancel_scheduled s"
  shows "settle_inv N wins ans ph s'"
  using assms unfolding settle_inv_def by simp

lemma emit_preserves:
  assumes inv: "run_inv N claim wins own store outcome order past ph c" and g: "emitter c = Step g"
  shows "run_inv N claim wins own store outcome order past ph
    (c\<lparr>object := snd (g (object c)), emitter := fst (g (object c))\<rparr>)"
proof -
  note d = run_invD [OF inv]
  define s where "s = object c"
  obtain "is" where em: "emission N is (Step g)" and es: "\<not> emit_scheduled s" "emitted s @ is = order"
    using d(7) g unfolding emit_inv_def s_def by auto
  have m: "mark s = s" unfolding s_def by (rule mark_alive [OF d(1-3)]) (use es s_def in simp)
  from em show ?thesis
  proof cases
    case emission_last
    define s' where "s' = s\<lparr>emit_scheduled := True, task_queue := task_queue s @ [Emit_task [0..<N]]\<rparr>"
    have gs: "g s = (Ret (), s')"
      using emission_last(2) es(1) m by (simp add: emit_impl_def touch_def access_def s'_def)
    have n: "Emit_task hs \<notin> set (past @ task_queue s)" for hs
      using d(2) es(1) unfolding s_def task_inv_def Let_def by blast
    have "takeWhile (\<lambda>t. t \<noteq> Delete_this_task) ((past @ task_queue s) @ [Emit_task [0..<N]]) =
        takeWhile (\<lambda>t. t \<noteq> Delete_this_task) (past @ task_queue s)"
      if "Delete_this_task \<in> set (past @ task_queue s)"
      using takeWhile_append1 [OF that, of "\<lambda>t. t \<noteq> Delete_this_task"] by simp
    then have t': "task_inv N past s'"
      using d(2) n unfolding s_def [symmetric] task_inv_def Let_def s'_def by auto
    have "emit_inv N order (Ret ()) s'" using es emission_last(1) by (simp add: emit_inv_def s'_def)
    moreover have "call_inv N wins own outcome (answers c) ph (past @ task_queue s') s'"
      by (rule call_inv_frame [OF d(6)]) (auto simp: s'_def s_def)
    moreover have "obj_inv N ph s'" by (rule obj_inv_frame [OF d(1)]) (simp_all add: s'_def s_def)
    moreover have "serial_state_inv N past s'" by (rule serial_state_frame [OF d(3)]) (simp_all add: s'_def s_def)
    moreover have "result_inv wins store (answers c) ph s'" by (rule result_inv_frame [OF d(5)]) (simp_all add: s'_def s_def)
    moreover have "settle_inv N wins (answers c) ph s'" by (rule settle_inv_frame [OF d(9)]) (simp_all add: s'_def s_def)
    ultimately show ?thesis using inv t' gs unfolding run_inv_def s_def by simp
  next
    case (emission_next is' k i)
    define s' where "s' = s\<lparr>emitted := emitted s @ [i]\<rparr>"
    have gs: "g s = (k i, s')"
      using emission_next(2) m by (simp add: emit_connection_def touch_def access_def s'_def)
    have "emit_inv N order (k i) s'" using es emission_next by (auto simp: emit_inv_def s'_def)
    moreover have "call_inv N wins own outcome (answers c) ph (past @ task_queue s') s'"
      by (rule call_inv_frame [OF d(6)]) (auto simp: s'_def s_def)
    moreover have "obj_inv N ph s'" by (rule obj_inv_frame [OF d(1)]) (simp_all add: s'_def s_def)
    moreover have "serial_state_inv N past s'" by (rule serial_state_frame [OF d(3)]) (simp_all add: s'_def s_def)
    moreover have "result_inv wins store (answers c) ph s'" by (rule result_inv_frame [OF d(5)]) (simp_all add: s'_def s_def)
    moreover have "settle_inv N wins (answers c) ph s'" by (rule settle_inv_frame [OF d(9)]) (simp_all add: s'_def s_def)
    moreover have "task_inv N past s'" using d(2) unfolding task_inv_def Let_def s'_def s_def by simp
    ultimately show ?thesis using inv gs unfolding run_inv_def s_def by simp
  qed
qed

lemma task_preserves:
  assumes inv: "run_inv N claim wins own store outcome order past ph c" and q: "task_queue (object c) \<noteq> []"
  shows "\<exists>past'. run_inv N claim wins own store outcome order past' ph (c\<lparr>object := run_next_task (object c)\<rparr>)"
proof -
  note d = run_invD [OF inv]
  define s where "s = object c"
  obtain x ts where x: "task_queue s = x # ts" using q unfolding s_def by (cases "task_queue (object c)") auto
  have m: "mark s = s" unfolding s_def by (rule mark_alive [OF d(1-3)]) (use q in simp)
  define s' where "s' = run_next_task s"
  note run = run_task_inv [OF d(2,3) x [unfolded s_def] m [unfolded s_def], folded s_def, folded s'_def]
  have r: "s' = execute x (s\<lparr>task_queue := ts\<rparr>)" using x m by (simp add: s'_def run_next_task_def)
  have f: "counter s' = counter s" "done_word s' = done_word s" "slot_calls s' = slot_calls s"
    "maybe_results s' = maybe_results s" "cancel_scheduled s' = cancel_scheduled s"
    "delete_scheduled s' = delete_scheduled s" "emit_scheduled s' = emit_scheduled s" "emitted s' = emitted s"
    "check_failed s' = check_failed s" "dangling s' = dangling s" "task_queue s' = ts"
    unfolding r by (cases x; simp add: serialized_emit_def serialized_try_cancel_beside_def serialized_delete_this_def
        delete_this_def try_cancel_beside_impl_def Let_def split: option.split)+
  have "call_inv N wins own outcome (answers c) ph ((past @ [x]) @ task_queue s') s'"
    by (rule call_inv_frame [OF d(6)]) (use f x in \<open>auto simp: s_def\<close>)
  moreover have "obj_inv N ph s'" by (rule obj_inv_frame [OF d(1)]) (simp_all add: f s_def)
  moreover have "result_inv wins store (answers c) ph s'" by (rule result_inv_frame [OF d(5)]) (simp_all add: f s_def)
  moreover have "settle_inv N wins (answers c) ph s'" by (rule settle_inv_frame [OF d(9)]) (simp_all add: f s_def)
  moreover have "emit_inv N order (emitter c) s'" using d(7) f by (simp add: emit_inv_def s_def)
  ultimately have "run_inv N claim wins own store outcome order (past @ [x]) ph (c\<lparr>object := s'\<rparr>)"
    using inv run unfolding run_inv_def s_def by simp
  then show ?thesis unfolding s'_def s_def by blast
qed

lemma claimed_preserves:
  assumes inv: "run_inv N claim wins own store outcome order past ph c"
    and i: "i < N" "callbacks c i = None" and free: "done_word (object c) = 0" and w: "wins (Set_value v)"
  shows "run_inv N claim wins own store outcome order past (ph(i := First_fulfill))
    (c\<lparr>object := mark (object c)\<lparr>done_word := 1\<rparr>,
       callbacks := (callbacks c)(i := Some (fulfill_first N i (own i (Set_value v)))),
       answers := (answers c)(i := Some (Set_value v))\<rparr>)"
proof -
  note d = run_invD [OF inv]
  define ph' where "ph' = ph(i := First_fulfill)"
  define s' where "s' = object c\<lparr>done_word := 1\<rparr>"
  define ans' where "ans' = (answers c)(i := Some (Set_value v))"
  have a: "answers c i = None" using d(8) [of i] i(2) by simp
  then have idle: "ph i = Idle" using d(4) unfolding phase_inv_def by blast
  have m: "mark (object c) = object c"
    by (rule mark_alive [OF d(1-3)]) (use i(1) idle in \<open>auto intro!: exI [of _ i]\<close>)
  have o: "num N fulfilling ph = 0" "num N cancelling ph = 0" "slot_calls (object c) = []" "\<not> cancel_scheduled (object c)"
    using d(1) free unfolding obj_inv_def by (auto split: split_of_bool_asm)
  have n: "num N passed ph' = num N passed ph" "num N closing ph' = num N closing ph"
    "num N fulfilling ph' = 1" "num N cancelling ph' = 1"
    using num_upd [of i N passed ph First_fulfill] num_upd [of i N closing ph First_fulfill]
      num_upd [of i N fulfilling ph First_fulfill] num_upd [of i N cancelling ph First_fulfill] i(1) idle o
    by (simp_all add: ph'_def phase_defs)
  have "obj_inv N ph' s'" using d(1) o free unfolding obj_inv_def n s'_def by simp
  moreover have "phase_inv N wins ans' ph'"
    using d(4) i(1) w unfolding phase_inv_def ph'_def ans'_def by (auto simp: of_last_def)
  moreover have "result_inv wins store ans' ph' s'"
    using d(5) w unfolding result_inv_def ph'_def ans'_def s'_def by auto
  moreover have "call_inv N wins own outcome ans' ph' (past @ task_queue s') s'"
  proof -
    have "\<forall>j<N. ph' j \<noteq> Last_fulfill"
      using o(1) unfolding num_none ph'_def by (auto simp: fulfilling_def)
    moreover have "\<forall>j<N. ph' j \<noteq> First_cancel"
      using o(2) unfolding num_none ph'_def by (auto simp: cancelling_def)
    moreover have "\<forall>w. Try_cancel_beside_task w \<notin> set (past @ task_queue s')"
      using d(2) o(4) unfolding task_inv_def Let_def s'_def by auto
    ultimately show ?thesis using o(3) unfolding call_inv_def by (simp add: s'_def)
  qed
  moreover have "settle_inv N wins ans' ph' s'"
    using i(1) unfolding settle_inv_def ph'_def s'_def by (auto simp: cancelling_def)
  moreover have "serial_state_inv N past s'" by (rule serial_state_frame [OF d(3)]) (simp_all add: s'_def)
  moreover have "task_inv N past s'" using d(2) unfolding task_inv_def Let_def s'_def by simp
  moreover have "emit_inv N order (emitter c) s'" using d(7) by (simp add: emit_inv_def s'_def)
  moreover have "((callbacks c)(i := Some (fulfill_first N i (own i (Set_value v))))) j =
      map_option (\<lambda>a. prog_of N claim own store outcome j a (ph' j)) (ans' j)" for j
    using d(8) [of j] by (simp add: ph'_def ans'_def)
  ultimately show ?thesis using m unfolding run_inv_def ph'_def ans'_def s'_def by simp
qed

lemma run_inv_init:
  assumes "emission N order emit" "0 < N"
  shows "run_inv N claim wins own store outcome order [] (\<lambda>_. Idle) (run_init emit)"
proof -
  have n: "num N passed (\<lambda>_. Idle) = 0" "num N closing (\<lambda>_. Idle) = 0" "num N fulfilling (\<lambda>_. Idle) = 0"
    "num N cancelling (\<lambda>_. Idle) = 0"
    by (auto simp: num_none phase_defs)
  show ?thesis using assms
    by (auto simp: run_inv_def run_init_def par_init_def obj_inv_def n task_inv_def serial_state_inv_def phase_inv_def
        result_inv_def call_inv_def emit_inv_def settle_inv_def passed_def of_last_def of_first_def)
qed

text \<open>What the invariant says of a state in which everything is over.\<close>

lemma prog_of_Ret:
  assumes "prog_of N claim own store outcome i a p = Ret ()" "p \<noteq> Idle"
  shows "p = Finished"
  using prog_of_step [of p N claim own store outcome i a] assms by auto

lemma emission_not_Ret: "\<not> emission N is (Ret ())"
proof
  assume "emission N is (Ret ())"
  then show False by cases (simp_all add: emit_impl_def emit_connection_def touch_def access_def)
qed

lemma ended_over:
  assumes inv: "run_inv N claim wins own store outcome order past ph c" and e: "par_ended N c"
  shows "\<forall>i<N. ph i = Finished" "Emit_task [0..<N] \<in> set past" "Delete_this_task \<in> set past"
    "done_word (object c) \<noteq> 0" "(\<exists>w. Try_cancel_beside_task w \<in> set past) \<or> lost N wins (answers c)"
proof -
  note d = run_invD [OF inv]
  have q: "task_queue (object c) = []" "emitter c = Ret ()" using e by (simp_all add: par_ended_def)
  show fin: "\<forall>i<N. ph i = Finished"
  proof (intro allI impI)
    fix i
    assume "i < N"
    then have "callbacks c i = Some (Ret ())" using e by (simp add: par_ended_def)
    then obtain a where a: "answers c i = Some a" and p: "prog_of N claim own store outcome i a (ph i) = Ret ()"
      using d(8) [of i] by (cases "answers c i") auto
    show "ph i = Finished" by (rule prog_of_Ret [OF p]) (use phase_inv_answered [OF d(4) a] in simp)
  qed
  have "emit_scheduled (object c)" using d(7) unfolding emit_inv_def q(2) by (auto simp: emission_not_Ret)
  then show "Emit_task [0..<N] \<in> set past" using task_inv_flags(1) [OF d(2)] q(1) by simp
  have n: "num N passed ph = N" "num N closing ph = 0"
    using fin by (auto simp: num_all num_none passed_def closing_def)
  then have "delete_scheduled (object c)" using d(1) unfolding obj_inv_def by (auto split: split_of_bool_asm)
  then show "Delete_this_task \<in> set past" using task_inv_flags(3) [OF d(2)] q(1) by simp
  show dn: "done_word (object c) \<noteq> 0" using d(9) fin unfolding settle_inv_def by (auto simp: passed_def)
  have "cancel_scheduled (object c) \<or> lost N wins (answers c)"
    using d(9) dn fin unfolding settle_inv_def by (auto simp: cancelling_def)
  then show "(\<exists>w. Try_cancel_beside_task w \<in> set past) \<or> lost N wins (answers c)"
    using task_inv_flags(2) [OF d(2)] q(1) by simp
qed

section \<open>The contract\<close>

locale parallel_client =
  fixes body :: "nat \<Rightarrow> nat \<Rightarrow> ('v, 'd) slot_call \<Rightarrow> (('r, 'e, 'v) par, unit) prog"
    and claimed :: "(nat \<Rightarrow> nat \<Rightarrow> 'v \<Rightarrow> (('r, 'e, 'v) par, unit) prog) option"
    and claim :: "('r, 'e, 'v) par \<Rightarrow> bool \<times> ('r, 'e, 'v) par"
    and wins :: "('v, 'd) slot_call \<Rightarrow> bool"
    and own :: "nat \<Rightarrow> ('v, 'd) slot_call \<Rightarrow> ('r, 'e) slot_call"
    and store :: "('v, 'd) slot_call \<Rightarrow> 'v option"
    and outcome :: "nat \<Rightarrow> ('v, 'd) slot_call \<Rightarrow> (nat \<Rightarrow> 'v option) \<Rightarrow> ('r, 'e) slot_call option"
  assumes claim: "claim_laws claim"
    and total: "outcome_total N wins store outcome"
    and body: "body N i a = client_body N claim wins own store outcome i a"
    and claimed: "claimed = Some f \<Longrightarrow> wins (Set_value v) \<and> f N i v = fulfill_first N i (own i (Set_value v))"
begin

lemma step_inv:
  assumes "par_step N (body N) (map_option (\<lambda>f. f N) claimed) c c'" "N < 2 ^ 32"
    and "run_inv N claim wins own store outcome order past ph c"
  shows "\<exists>past' ph'. run_inv N claim wins own store outcome order past' ph' c'"
  using assms(1)
proof cases
  case (answer i a)
  then show ?thesis using answer_preserves [OF assms(3), of i a] by (auto simp: body)
next
  case (answer_claimed f i v)
  then obtain h where h: "claimed = Some h" "f = h N" by auto
  then show ?thesis using answer_claimed claimed_preserves [OF assms(3), of i v] claimed [OF h(1), of v N i] by auto
next
  case (callback i g)
  then show ?thesis using callback_preserves [OF assms(3,2) claim total, of i g] by auto
next
  case (emit g)
  then show ?thesis using emit_preserves [OF assms(3), of g] by auto
next
  case task
  then show ?thesis using task_preserves [OF assms(3)] by auto
qed

lemma reachable_inv:
  assumes "par_reachable N (body N) (map_option (\<lambda>f. f N) claimed) emit c" "emission N order emit" "0 < N" "N < 2 ^ 32"
  shows "\<exists>past ph. run_inv N claim wins own store outcome order past ph c"
  using assms(1) unfolding par_reachable_def
proof (induction rule: rtranclp_induct)
  case base
  then show ?case using run_inv_init [OF assms(2,3)] by blast
next
  case (step c c')
  then show ?case using step_inv [OF step.hyps(2) assms(4)] by blast
qed

text \<open>The slot, the object's lifetime, the cancelled connections.\<close>

lemma safe:
  assumes "par_reachable N (body N) (map_option (\<lambda>f. f N) claimed) emit c" "emission N order emit" "0 < N" "N < 2 ^ 32"
  shows "length (slot_calls (object c)) \<le> 1 \<and> deletions (object c) \<le> 1 \<and>
    \<not> dangling (object c) \<and> \<not> check_failed (object c)"
proof -
  obtain past ph where "run_inv N claim wins own store outcome order past ph c"
    using reachable_inv [OF assms] by blast
  note d = run_invD [OF this]
  show ?thesis using d(1,3) unfolding obj_inv_def serial_state_inv_def by (auto split: split_of_bool_asm)
qed

lemma emitted_prefix:
  assumes "par_reachable N (body N) (map_option (\<lambda>f. f N) claimed) emit c" "emission N order emit" "0 < N" "N < 2 ^ 32"
  shows "\<exists>rest. emitted (object c) @ rest = order"
proof -
  obtain past ph where "run_inv N claim wins own store outcome order past ph c"
    using reachable_inv [OF assms] by blast
  from run_invD(7) [OF this] show ?thesis unfolding emit_inv_def by auto
qed

lemma ended:
  assumes "par_reachable N (body N) (map_option (\<lambda>f. f N) claimed) emit c" "emission N order emit" "0 < N" "N < 2 ^ 32"
    and e: "par_ended N c"
  shows "length (slot_calls (object c)) = 1 \<and> deletions (object c) = 1"
proof -
  obtain past ph where inv: "run_inv N claim wins own store outcome order past ph c"
    using reachable_inv [OF assms(1-4)] by blast
  note d = run_invD [OF inv] and o = ended_over [OF inv e]
  have "num N fulfilling ph = 0" using o(1) by (auto simp: num_none fulfilling_def)
  then show ?thesis using d(1,3) o(2-4) unfolding obj_inv_def serial_state_inv_def by simp
qed

lemma deleted_last:
  assumes "par_reachable N (body N) (map_option (\<lambda>f. f N) claimed) emit c" "emission N order emit" "0 < N" "N < 2 ^ 32"
    and "0 < deletions (object c)"
  shows "par_ended N c"
proof -
  obtain past ph where inv: "run_inv N claim wins own store outcome order past ph c"
    using reachable_inv [OF assms(1-4)] by blast
  note d = run_invD [OF inv] and o = deleted_all_over [OF run_invD(1-3) [OF inv] assms(5)]
  have "callbacks c i = Some (Ret ())" if "i < N" for i
  proof -
    have "ph i = Finished" using o(1) that by simp
    moreover have "(answers c i = None) = (ph i = Idle)" using d(4) unfolding phase_inv_def by blast
    ultimately show ?thesis using d(8) [of i] by (cases "answers c i") auto
  qed
  moreover have "emitter c = Ret ()" using d(7) o(3) unfolding emit_inv_def by auto
  ultimately show ?thesis using o(2) by (simp add: par_ended_def)
qed

lemma slot_call:
  assumes "par_reachable N (body N) (map_option (\<lambda>f. f N) claimed) emit c" "emission N order emit" "0 < N" "N < 2 ^ 32"
    and k: "k \<in> set (slot_calls (object c))"
  shows "(\<exists>i<N. \<exists>a. answers c i = Some a \<and> wins a \<and> k = own i a) \<or>
    lost N wins (answers c) \<and> (\<exists>i<N. \<exists>a. answers c i = Some a \<and> outcome N a (maybe_results (object c)) = Some k) \<and>
    (\<forall>j<N. \<forall>b v. answers c j = Some b \<longrightarrow> store b = Some v \<longrightarrow> maybe_results (object c) j = Some v)"
proof -
  obtain past ph where inv: "run_inv N claim wins own store outcome order past ph c"
    using reachable_inv [OF assms(1-4)] by blast
  note d = run_invD [OF inv]
  have "\<forall>k\<in>set (slot_calls (object c)). call_ok N wins own outcome (answers c) ph (object c) k"
    using d(6) unfolding call_inv_def by (elim conjE)
  then have ok: "call_ok N wins own outcome (answers c) ph (object c) k" using k by blast
  have st: "maybe_results (object c) j = Some v"
    if "lost N wins (answers c)" "passed (ph j)" "j < N" "answers c j = Some b" "store b = Some v" for j b v
  proof -
    have "\<not> wins b" "ph j \<noteq> Last_store" using that by (auto simp: lost_def passed_def)
    moreover have "\<forall>i a v. answers c i = Some a \<longrightarrow> \<not> wins a \<longrightarrow> ph i \<noteq> Last_store \<longrightarrow> store a = Some v \<longrightarrow>
        maybe_results (object c) i = Some v"
      using d(5) unfolding result_inv_def by (elim conjE)
    ultimately show ?thesis using that by metis
  qed
  show ?thesis using ok st unfolding call_ok_def by metis
qed

lemma cancels:
  assumes "par_reachable N (body N) (map_option (\<lambda>f. f N) claimed) emit c" "emission N order emit" "0 < N" "N < 2 ^ 32"
  shows "cancelled_handles (object c) = [] \<or>
      (\<exists>w<N. \<exists>a. answers c w = Some a \<and> wins a \<and> slot_calls (object c) = [own w a] \<and>
        cancelled_handles (object c) = filter (\<lambda>i. i \<noteq> w) [0..<N] \<and> emitted (object c) = order)"
    and "par_ended N c \<Longrightarrow> \<not> lost N wins (answers c) \<Longrightarrow>
      \<exists>w<N. \<exists>a. answers c w = Some a \<and> wins a \<and> slot_calls (object c) = [own w a] \<and>
        cancelled_handles (object c) = filter (\<lambda>i. i \<noteq> w) [0..<N]"
proof -
  obtain past ph where inv: "run_inv N claim wins own store outcome order past ph c"
    using reachable_inv [OF assms(1-4)] by blast
  note d = run_invD [OF inv]
  have w: "w < N \<and> (\<exists>a. answers c w = Some a \<and> wins a \<and> slot_calls (object c) = [own w a])"
    if "Try_cancel_beside_task w \<in> set past" for w
    using d(6) that unfolding call_inv_def by simp
  have cs: "cancelled_handles (object c) = filter (\<lambda>i. i \<noteq> w) [0..<N]"
    if "Try_cancel_beside_task w \<in> set past" "Emit_task [0..<N] \<in> set past" for w
    using d(3) that unfolding serial_state_inv_def by blast
  have em: "emitted (object c) = order" if "Emit_task [0..<N] \<in> set past"
    using d(7) task_inv_flags(1) [OF d(2)] that unfolding emit_inv_def by auto
  show "cancelled_handles (object c) = [] \<or>
      (\<exists>w<N. \<exists>a. answers c w = Some a \<and> wins a \<and> slot_calls (object c) = [own w a] \<and>
        cancelled_handles (object c) = filter (\<lambda>i. i \<noteq> w) [0..<N] \<and> emitted (object c) = order)"
  proof (cases "(\<exists>w. Try_cancel_beside_task w \<in> set past) \<and> Emit_task [0..<N] \<in> set past")
    case True
    then show ?thesis using w cs em by metis
  next
    case False
    then show ?thesis using d(3) unfolding serial_state_inv_def by metis
  qed
  show "par_ended N c \<Longrightarrow> \<not> lost N wins (answers c) \<Longrightarrow>
      \<exists>w<N. \<exists>a. answers c w = Some a \<and> wins a \<and> slot_calls (object c) = [own w a] \<and>
        cancelled_handles (object c) = filter (\<lambda>i. i \<noteq> w) [0..<N]"
    using ended_over [OF inv] w cs by metis
qed

end

end
