(* ===== verification/Select.thy ===== *)
theory Select
  imports Parallel_Runs
begin

text \<open>
  \<^verbatim>\<open>algo/sync/select.hpp\<close>: the first case to answer with a value wins; its functor makes the value of
  the slot. The \<open>done\<close> word is claimed with a \<open>kcas\<close> of one word, here the atomic step \<open>kcas\<close> is shown
  to be in \<open>Mw_Kcas\<close>, or by the \<open>kcas\<close> of a channel on the select's behalf, which then calls
  \<open>set_value_skip_done\<close>. The values of all cases are of one type \<open>'v\<close>, and \<open>case_functor i\<close> is the functor of
  case \<open>i\<close>.
\<close>

section \<open>Operations\<close>

definition kcas_done :: "('r, 'e, 'v) par \<Rightarrow> bool \<times> ('r, 'e, 'v) par" where
  "kcas_done s = (if done_word s = 0 then (True, s\<lparr>done_word := 1\<rparr>) else (False, s))"

definition check_done :: "(('r, 'e, 'v) par, bool) prog" where
  "check_done = touch kcas_done"

definition select_set_value_impl ::
  "nat \<Rightarrow> (nat \<Rightarrow> 'v \<Rightarrow> 'r) \<Rightarrow> bool \<Rightarrow> 'v \<Rightarrow> nat \<Rightarrow> (('r, unit, 'v) par, unit) prog" where
  "select_set_value_impl N case_functor must_check case_value index =
     pbind (if \<not> must_check then Ret True else check_done) (\<lambda>won.
       pbind (if won
              then pbind (fulfill (Set_value (case_functor index case_value)))
                     (\<lambda>_. schedule_try_cancel_beside index)
              else Ret ())
         (\<lambda>_. pbind (increment_and_check N) (\<lambda>is_last. if is_last then schedule_delete_this else Ret ())))"

definition select_set_error_impl :: "nat \<Rightarrow> (('r, unit, 'v) par, unit) prog" where
  "select_set_error_impl N = pbind (increment_and_check N) (\<lambda>is_last.
     if \<not> is_last then Ret ()
     else pbind check_done (\<lambda>won.
       pbind (if won then fulfill (Set_error ()) else Ret ()) (\<lambda>_. schedule_delete_this)))"

definition select_set_null_impl :: "nat \<Rightarrow> (('r, unit, 'v) par, unit) prog" where
  "select_set_null_impl N = pbind (increment_and_check N) (\<lambda>is_last.
     if \<not> is_last then Ret ()
     else pbind check_done (\<lambda>won.
       pbind (if won then fulfill Set_null else Ret ()) (\<lambda>_. schedule_delete_this)))"

definition case_slot ::
  "nat \<Rightarrow> (nat \<Rightarrow> 'v \<Rightarrow> 'r) \<Rightarrow> nat \<Rightarrow> ('v, unit) slot_call \<Rightarrow> (('r, unit, 'v) par, unit) prog" where
  "case_slot N case_functor index a = (case a of
     Set_value case_value \<Rightarrow> select_set_value_impl N case_functor True case_value index
   | Set_error _ \<Rightarrow> select_set_error_impl N
   | Set_null \<Rightarrow> select_set_null_impl N)"

definition set_value_skip_done ::
  "nat \<Rightarrow> (nat \<Rightarrow> 'v \<Rightarrow> 'r) \<Rightarrow> nat \<Rightarrow> 'v \<Rightarrow> (('r, unit, 'v) par, unit) prog" where
  "set_value_skip_done N case_functor index case_value = select_set_value_impl N case_functor False case_value index"

text \<open>\<open>cs\<close> are the orderings of the connections, \<open>None\<close> for one that is not \<open>Ordered\<close>.\<close>

definition select_emit :: "u64 option list \<Rightarrow> (('r, unit, 'v) par, unit) prog" where
  "select_emit cs =
     (if \<forall>c\<in>set cs. c \<noteq> None then parallel_emit (length cs) else parallel_emit_ordered cs)"

section \<open>A client of the parallel connection\<close>

fun is_value :: "('v, 'd) slot_call \<Rightarrow> bool" where
  "is_value (Set_value _) = True"
| "is_value _ = False"

lemma is_value_iff: "is_value a \<longleftrightarrow> (\<exists>v. a = Set_value v)"
  by (cases a) auto

lemma not_value: "\<not> is_value (a :: ('v, unit) slot_call) \<Longrightarrow> a = Set_error () \<or> a = Set_null"
  by (cases a) auto

fun select_call :: "(nat \<Rightarrow> 'v \<Rightarrow> 'r) \<Rightarrow> nat \<Rightarrow> ('v, unit) slot_call \<Rightarrow> ('r, unit) slot_call" where
  "select_call case_functor i (Set_value v) = Set_value (case_functor i v)"
| "select_call case_functor i (Set_error e) = Set_error e"
| "select_call case_functor i Set_null = Set_null"

lemma pbind_if: "pbind (if b then p else q) k = (if b then pbind p k else pbind q k)"
  by simp

lemma fulfill_outcome_const: "fulfill_outcome (\<lambda>_. Some c) = fulfill c"
  by (simp add: fulfill_outcome_def fulfill_def)

lemma kcas_done_laws: "claim_laws kcas_done"
  by (simp add: claim_laws_def kcas_done_def)

lemma if_not: "(if \<not> b then x else y) = (if b then y else x)"
  by simp

lemma case_slot_shape:
  "case_slot N case_functor i a = client_body N kcas_done is_value (select_call case_functor) (\<lambda>_. None)
     (\<lambda>N a _. Some (select_call case_functor 0 a)) i a"
proof (cases a)
  case (Set_value v)
  then show ?thesis
    by (simp add: case_slot_def select_set_value_impl_def client_body_def first_wins_def fulfill_first_def
        cancel_others_def count_and_delete_def check_done_def pbind_if pbind_assoc cong: if_cong)
next
  case (Set_error e)
  then show ?thesis
    by (simp add: case_slot_def select_set_error_impl_def client_body_def last_wins_def claim_last_def
        fulfill_last_def check_done_def pbind_if fulfill_outcome_const if_not cong: if_cong)
next
  case Set_null
  then show ?thesis
    by (simp add: case_slot_def select_set_null_impl_def client_body_def last_wins_def claim_last_def
        fulfill_last_def check_done_def pbind_if fulfill_outcome_const if_not cong: if_cong)
qed

interpretation sel: parallel_client "\<lambda>N. case_slot N case_functor" "Some (\<lambda>N. set_value_skip_done N case_functor)"
  kcas_done is_value "select_call case_functor" "\<lambda>_. None" "\<lambda>N a _. Some (select_call case_functor 0 a)"
  for case_functor :: "nat \<Rightarrow> 'v \<Rightarrow> 'r"
proof unfold_locales
  fix N i and a :: "('v, unit) slot_call"
  show "case_slot N case_functor i a = client_body N kcas_done is_value (select_call case_functor) (\<lambda>_. None)
     (\<lambda>N a _. Some (select_call case_functor 0 a)) i a" by (rule case_slot_shape)
  fix f v
  assume "Some (\<lambda>N. set_value_skip_done N case_functor) = Some f"
  then show "is_value (Set_value v :: ('v, unit) slot_call) \<and>
      f N i v = fulfill_first N i (select_call case_functor i (Set_value v))"
    by (auto simp: set_value_skip_done_def select_set_value_impl_def fulfill_first_def cancel_others_def
        count_and_delete_def pbind_assoc)
qed (simp_all add: kcas_done_laws outcome_total_def)

section \<open>Emission\<close>

definition select_order :: "u64 option list \<Rightarrow> nat list" where
  "select_order cs = (if \<forall>c\<in>set cs. c \<noteq> None then [0..<length cs] else emit_order cs)"

lemma emit_order_perm: "distinct (emit_order cs)" "set (emit_order cs) = {0..<length cs}"
proof -
  define xs where "xs = zip (map get_connection_ordering cs) [0..<length cs]"
  have m: "map snd xs = [0..<length cs]" by (simp add: xs_def)
  then have "distinct (map snd xs)" by simp
  then show "distinct (emit_order cs)" by (simp add: emit_order_def distinct_map flip: xs_def)
  have "set (emit_order cs) = set (map snd xs)" by (simp add: emit_order_def flip: xs_def)
  then show "set (emit_order cs) = {0..<length cs}" by (simp add: m)
qed

lemma emit_order_sorted: "sorted (map (\<lambda>i. get_connection_ordering (cs ! i)) (emit_order cs))"
proof -
  define xs where "xs = zip (map get_connection_ordering cs) [0..<length cs]"
  have "get_connection_ordering (cs ! snd x) = fst x" if "x \<in> set (sort_key fst xs)" for x
    using that by (auto simp: xs_def set_zip)
  then have "map (\<lambda>i. get_connection_ordering (cs ! i)) (emit_order cs) = map fst (sort_key fst xs)"
    by (simp add: emit_order_def flip: xs_def)
  then show ?thesis by simp
qed

lemma select_emission: "emission (length cs) (select_order cs) (select_emit cs)"
proof (cases "\<forall>c\<in>set cs. c \<noteq> None")
  case True
  then show ?thesis using emission_each [of "[]" "[0..<length cs]" "length cs"] by (simp add: select_order_def select_emit_def parallel_emit_def)
next
  case False
  have "emission (length cs) (emit_order cs) (emit_in_order (emit_order cs) (replicate (length cs) None))"
    by (intro emission_in_order) (auto simp: emit_order_perm)
  then show ?thesis using False by (auto simp: select_order_def select_emit_def parallel_emit_ordered_def)
qed

definition select_reachable ::
  "u64 option list \<Rightarrow> (nat \<Rightarrow> 'v \<Rightarrow> 'r) \<Rightarrow> ('r, unit, 'v, unit) par_run \<Rightarrow> bool" where
  "select_reachable cs case_functor c \<longleftrightarrow> par_reachable (length cs) (case_slot (length cs) case_functor)
     (Some (set_value_skip_done (length cs) case_functor)) (select_emit cs) c"

lemma select_reachableD:
  assumes "select_reachable cs case_functor c"
  shows "par_reachable (length cs) (case_slot (length cs) case_functor)
    (map_option (\<lambda>f. f (length cs)) (Some (\<lambda>N. set_value_skip_done N case_functor))) (select_emit cs) c"
  using assms by (simp add: select_reachable_def)

section \<open>Examples\<close>

text \<open>
  Two cases, the second with an ordering. The second one answers through a channel that has claimed
  \<open>done\<close>, before the emission is over; the first one is then cancelled and answers null.
\<close>

definition ex_functor :: "nat \<Rightarrow> nat \<Rightarrow> nat" where
  "ex_functor i v = 10 * i + v"

definition ex_select_moves :: "(nat, unit) move list" where
  "ex_select_moves = [Emit, Answer_claimed 1 7, Callback 1, Callback 1, Callback 1, Task, Emit, Emit, Task,
     Answer 0 Set_null, Callback 0, Callback 0, Callback 0, Task]"

definition ex_select :: "nat \<Rightarrow> (nat, unit, nat, unit) par_run option" where
  "ex_select k = par_moves 2 (case_slot 2 ex_functor) (Some (set_value_skip_done 2 ex_functor))
     (take k ex_select_moves) (run_init (select_emit [None, Some 5]))"

lemma ex_select_reachable: "ex_select k = Some c \<Longrightarrow> select_reachable [None, Some 5] ex_functor c"
  using par_moves_reachable unfolding ex_select_def select_reachable_def by (metis length_Cons list.size(3) numeral_2_eq_2)

lemma ex_select_test: "map_option (\<lambda>c. slot_calls (object c)) (ex_select 14) = Some [Set_value 17]"
  by code_simp

definition ex_select_end :: "(nat, unit, nat, unit) par_run" where
  "ex_select_end = the (ex_select 14)"

lemma ex_select_some: "ex_select 14 \<noteq> None"
  by code_simp

lemma ex_select_end_reachable: "select_reachable [None, Some 5] ex_functor ex_select_end"
  using ex_select_some ex_select_reachable [of 14] by (auto simp: ex_select_end_def)

lemma two_cases: "length [None, Some (5::u64)] = 2"
  by simp

section \<open>Properties\<close>

text \<open>
  C8: Whatever the interleaving of a select's cases, its emission and its serialized tasks, its slot is
  called at most once, and exactly once when everything is over; the object is deleted once, after
  everything else, and never accessed afterwards; no assertion fails. This holds as well for cases
  whose value comes through a channel that has claimed the \<open>done\<close> word itself.
\<close>

theorem select_settles_once:
  assumes "select_reachable cs case_functor c" and "cs \<noteq> []" "length cs < 2 ^ 32"
  shows "length (slot_calls (object c)) \<le> 1 \<and> deletions (object c) \<le> 1 \<and>
    \<not> dangling (object c) \<and> \<not> check_failed (object c) \<and>
    (0 < deletions (object c)) = par_ended (length cs) c \<and>
    (par_ended (length cs) c \<longrightarrow> length (slot_calls (object c)) = 1)"
proof -
  note r = select_reachableD [OF assms(1)] select_emission
  have n: "0 < length cs" using assms(2) by simp
  show ?thesis
    using sel.safe [OF r n assms(3)] sel.ended [OF r n assms(3)] sel.deleted_last [OF r n assms(3)] by auto
qed

theorem select_settles_once_witness:
  "length (slot_calls (object ex_select_end)) = 1 \<and> deletions (object ex_select_end) = 1 \<and>
   par_ended 2 ex_select_end"
proof -
  have "0 < deletions (object ex_select_end)" by code_simp
  then show ?thesis using select_settles_once [OF ex_select_end_reachable, unfolded two_cases] by auto
qed

text \<open>
  C14: What a select answers. A value is the result of the functor of some case on the value that case
  answered; an error or null is answered only after every case has answered and none with a value.
\<close>

theorem select_answer:
  assumes "select_reachable cs case_functor c" and "cs \<noteq> []" "length cs < 2 ^ 32"
    and "k \<in> set (slot_calls (object c))"
  shows "(\<exists>i v. i < length cs \<and> answers c i = Some (Set_value v) \<and> k = Set_value (case_functor i v)) \<or>
    (\<forall>i<length cs. answers c i \<in> {Some (Set_error ()), Some Set_null}) \<and> k \<in> {Set_error (), Set_null}"
proof -
  note r = select_reachableD [OF assms(1)] select_emission
  have n: "0 < length cs" using assms(2) by simp
  from sel.slot_call [OF r n assms(3,4)] show ?thesis
  proof
    assume "\<exists>i<length cs. \<exists>a. answers c i = Some a \<and> is_value a \<and> k = select_call case_functor i a"
    then show ?thesis by (auto simp: is_value_iff)
  next
    assume l: "lost (length cs) is_value (answers c) \<and>
      (\<exists>i<length cs. \<exists>a. answers c i = Some a \<and> Some (select_call case_functor 0 a) = Some k) \<and>
      (\<forall>j<length cs. \<forall>b v. answers c j = Some b \<longrightarrow> None = Some v \<longrightarrow> maybe_results (object c) j = Some v)"
    then have l1: "lost (length cs) is_value (answers c)" by (elim conjE)
    have all: "answers c i \<in> {Some (Set_error ()), Some Set_null}" if "i < length cs" for i
      using l1 that not_value unfolding lost_def by blast
    moreover obtain i where "i < length cs" "\<exists>a. answers c i = Some a \<and> k = select_call case_functor 0 a"
      using l by (elim conjE exE) auto
    then have "k \<in> {Set_error (), Set_null}" using all [of i] by auto
    ultimately show ?thesis by blast
  qed
qed

theorem select_answer_witness:
  "answers ex_select_end 1 = Some (Set_value 7) \<and> slot_calls (object ex_select_end) = [Set_value 17] \<and>
   ((\<exists>i v. i < 2 \<and> answers ex_select_end i = Some (Set_value v) \<and> Set_value 17 = (Set_value (ex_functor i v) :: (nat, unit) slot_call)) \<or>
    answers ex_select_end 0 = answers ex_select_end 1)"
proof -
  have s: "slot_calls (object ex_select_end) = [Set_value 17]" by code_simp
  have a: "answers ex_select_end 1 = Some (Set_value 7)" by code_simp
  show ?thesis using select_answer [OF ex_select_end_reachable, unfolded two_cases, of "Set_value 17"] s a by auto
qed

text \<open>
  C25: Losers are cancelled, the winner is not: the cancel handles called are none, or those of every
  case but one, once each, and that one is the case whose value the slot received. They are called
  only when all cases have been emitted; and when everything is over and some case answered with a
  value, they have been called.
\<close>

theorem select_cancels_losers:
  assumes "select_reachable cs case_functor c" and "cs \<noteq> []" "length cs < 2 ^ 32"
  shows "(cancelled_handles (object c) = [] \<or>
      (\<exists>w v. w < length cs \<and> answers c w = Some (Set_value v) \<and> slot_calls (object c) = [Set_value (case_functor w v)] \<and>
        cancelled_handles (object c) = filter (\<lambda>i. i \<noteq> w) [0..<length cs] \<and> emitted (object c) = select_order cs)) \<and>
    (par_ended (length cs) c \<longrightarrow> (\<exists>i v. i < length cs \<and> answers c i = Some (Set_value v)) \<longrightarrow>
      length (cancelled_handles (object c)) = length cs - 1)"
proof -
  note r = select_reachableD [OF assms(1)] select_emission
  have n: "0 < length cs" using assms(2) by simp
  note cn = sel.cancels [OF r n assms(3)]
  have "length (cancelled_handles (object c)) = length cs - 1"
    if e: "par_ended (length cs) c" and "\<exists>i v. i < length cs \<and> answers c i = Some (Set_value v)"
  proof -
    have "\<not> lost (length cs) is_value (answers c)" using that(2) unfolding lost_def by force
    then obtain w where "w < length cs" "cancelled_handles (object c) = filter (\<lambda>i. i \<noteq> w) [0..<length cs]"
      using cn(2) [OF e] by blast
    moreover have "filter (\<lambda>i. i \<noteq> w) [0..<length cs] = remove1 w [0..<length cs]"
      by (simp add: distinct_remove1_removeAll removeAll_filter_not_eq) (metis (lifting))
    ultimately show ?thesis by (simp add: length_remove1)
  qed
  then show ?thesis using cn(1) by (auto simp: is_value_iff)
qed

theorem select_cancels_losers_witness:
  "cancelled_handles (object ex_select_end) = [0] \<and> length (cancelled_handles (object ex_select_end)) = 2 - 1"
proof -
  have c: "cancelled_handles (object ex_select_end) = [0]" by code_simp
  show ?thesis using select_cancels_losers [OF ex_select_end_reachable, unfolded two_cases] c by simp
qed

text \<open>
  The cases are emitted once each, in an order fixed beforehand. If some case has no ordering, that
  order is sorted by the ordering of the channels, cases without one last; if all have one it is the
  order of declaration, whatever the orderings are.
\<close>

theorem select_emits_in_order:
  assumes "select_reachable cs case_functor c" and "cs \<noteq> []" "length cs < 2 ^ 32"
  shows "(\<exists>rest. emitted (object c) @ rest = select_order cs) \<and> distinct (select_order cs) \<and>
    set (select_order cs) = {0..<length cs} \<and>
    (if None \<in> set cs then sorted (map (\<lambda>i. get_connection_ordering (cs ! i)) (select_order cs))
     else select_order cs = [0..<length cs])"
proof -
  note r = select_reachableD [OF assms(1)] select_emission
  have n: "0 < length cs" using assms(2) by simp
  show ?thesis using sel.emitted_prefix [OF r n assms(3)] emit_order_sorted [of cs]
    by (auto simp: select_order_def emit_order_perm)
qed

theorem select_emits_in_order_witness:
  "emitted (object ex_select_end) = [1, 0] \<and> select_order [None, Some 5] = [1, 0] \<and>
   sorted (map (\<lambda>i. get_connection_ordering ([None, Some 5] ! i)) (select_order [None, Some 5])) \<and>
   select_order [Some 9, Some 5] = [0, 1]"
proof -
  have "emitted (object ex_select_end) = [1, 0]" "select_order [None, Some 5] = [1, 0]"
    "select_order [Some 9, Some 5] = [0, 1]" by code_simp+
  then show ?thesis using select_emits_in_order [OF ex_select_end_reachable, unfolded two_cases] by simp
qed

end
