(* ===== verification/All_Any.thy ===== *)
theory All_Any
  imports Select
begin

text \<open>
  \<^verbatim>\<open>algo/tf/par/all.hpp\<close> and \<^verbatim>\<open>algo/tf/par/any.hpp\<close>. \<open>all\<close> answers with the values of all connections, in
  their order, or with the first error or null; \<open>any\<close> with the first value, or with the last error or
  null when there is no value. Both claim the flag \<open>done\<close> with an atomic exchange. The values of all
  connections are of one type \<open>'v\<close>; the tuple \<open>all\<close> makes of them is a list.
\<close>

section \<open>Operations\<close>

definition exchange_done :: "(('r, 'e, 'v) par, bool) prog" where
  "exchange_done = touch (\<lambda>s. (done_word s \<noteq> 0, s\<lparr>done_word := 1\<rparr>))"

definition all_results :: "nat \<Rightarrow> (nat \<Rightarrow> 'v option) \<Rightarrow> ('v list, 'e) slot_call option" where
  "all_results N results =
     (if list_all (\<lambda>i. results i \<noteq> None) [0..<N]
      then Some (Set_value (map (\<lambda>i. the (results i)) [0..<N])) else None)"

definition all_set_value_impl :: "nat \<Rightarrow> nat \<Rightarrow> 'v \<Rightarrow> (('v list, 'e, 'v) par, unit) prog" where
  "all_set_value_impl N index value =
     pbind (emplace_result index (Some value)) (\<lambda>_.
     pbind (increment_and_check N) (\<lambda>is_last.
       if \<not> is_last then Ret ()
       else pbind exchange_done (\<lambda>was_done.
         pbind (if \<not> was_done then fulfill_outcome (all_results N) else Ret ()) (\<lambda>_. schedule_delete_this))))"

definition all_set_error_impl :: "nat \<Rightarrow> nat \<Rightarrow> 'e \<Rightarrow> (('v list, 'e, 'v) par, unit) prog" where
  "all_set_error_impl N index error =
     pbind exchange_done (\<lambda>was_done.
       pbind (if \<not> was_done
              then pbind (fulfill (Set_error error)) (\<lambda>_. schedule_try_cancel_beside index) else Ret ())
         (\<lambda>_. pbind (increment_and_check N) (\<lambda>is_last. if is_last then schedule_delete_this else Ret ())))"

definition all_set_null_impl :: "nat \<Rightarrow> nat \<Rightarrow> (('v list, 'e, 'v) par, unit) prog" where
  "all_set_null_impl N index =
     pbind exchange_done (\<lambda>was_done.
       pbind (if \<not> was_done
              then pbind (fulfill Set_null) (\<lambda>_. schedule_try_cancel_beside index) else Ret ())
         (\<lambda>_. pbind (increment_and_check N) (\<lambda>is_last. if is_last then schedule_delete_this else Ret ())))"

definition all_slot :: "nat \<Rightarrow> nat \<Rightarrow> ('v, 'e) slot_call \<Rightarrow> (('v list, 'e, 'v) par, unit) prog" where
  "all_slot N index a = (case a of
     Set_value value \<Rightarrow> all_set_value_impl N index value
   | Set_error error \<Rightarrow> all_set_error_impl N index error
   | Set_null \<Rightarrow> all_set_null_impl N index)"

definition any_set_value_impl :: "nat \<Rightarrow> nat \<Rightarrow> 'v \<Rightarrow> (('v, 'e, 'v) par, unit) prog" where
  "any_set_value_impl N index value =
     pbind exchange_done (\<lambda>was_done.
       pbind (if \<not> was_done
              then pbind (fulfill (Set_value value)) (\<lambda>_. schedule_try_cancel_beside index) else Ret ())
         (\<lambda>_. pbind (increment_and_check N) (\<lambda>is_last. if is_last then schedule_delete_this else Ret ())))"

definition any_set_error_impl :: "nat \<Rightarrow> 'e \<Rightarrow> (('v, 'e, 'v) par, unit) prog" where
  "any_set_error_impl N error =
     pbind (increment_and_check N) (\<lambda>is_last.
       if \<not> is_last then Ret ()
       else pbind exchange_done (\<lambda>was_done.
         pbind (if \<not> was_done then fulfill (Set_error error) else Ret ()) (\<lambda>_. schedule_delete_this)))"

definition any_set_null_impl :: "nat \<Rightarrow> (('v, 'e, 'v) par, unit) prog" where
  "any_set_null_impl N =
     pbind (increment_and_check N) (\<lambda>is_last.
       if \<not> is_last then Ret ()
       else pbind exchange_done (\<lambda>was_done.
         pbind (if \<not> was_done then fulfill Set_null else Ret ()) (\<lambda>_. schedule_delete_this)))"

definition any_slot :: "nat \<Rightarrow> nat \<Rightarrow> ('v, 'e) slot_call \<Rightarrow> (('v, 'e, 'v) par, unit) prog" where
  "any_slot N index a = (case a of
     Set_value value \<Rightarrow> any_set_value_impl N index value
   | Set_error error \<Rightarrow> any_set_error_impl N error
   | Set_null \<Rightarrow> any_set_null_impl N)"

section \<open>Clients of the parallel connection\<close>

definition claim_exchange :: "('r, 'e, 'v) par \<Rightarrow> bool \<times> ('r, 'e, 'v) par" where
  "claim_exchange s = (done_word s = 0, s\<lparr>done_word := 1\<rparr>)"

lemma claim_exchange_laws: "claim_laws claim_exchange"
  by (simp add: claim_laws_def claim_exchange_def)

lemma exchange_done_claim: "pbind exchange_done k = pbind (touch claim_exchange) (\<lambda>won. k (\<not> won))"
  by (simp add: exchange_done_def claim_exchange_def touch_def access_def map_prod_def)

fun all_call :: "nat \<Rightarrow> ('v, 'e) slot_call \<Rightarrow> ('v list, 'e) slot_call" where
  "all_call i (Set_error e) = Set_error e"
| "all_call i _ = Set_null"

fun the_value :: "('v, 'd) slot_call \<Rightarrow> 'v option" where
  "the_value (Set_value v) = Some v"
| "the_value _ = None"

lemma not_value_None: "\<not> is_value a \<Longrightarrow> the_value a = None"
  by (cases a) auto

lemmas client_shape = client_body_def first_wins_def fulfill_first_def cancel_others_def count_and_delete_def
  last_wins_def claim_last_def fulfill_last_def exchange_done_claim pbind_if pbind_assoc
  fulfill_outcome_const if_not

lemma all_slot_shape:
  "all_slot N i a = client_body N claim_exchange (\<lambda>a. \<not> is_value a) all_call the_value (\<lambda>N a. all_results N) i a"
  by (cases a) (simp_all add: all_slot_def all_set_value_impl_def all_set_error_impl_def all_set_null_impl_def
      client_shape cong: if_cong)

lemma any_slot_shape:
  "any_slot N i a = client_body N claim_exchange is_value (\<lambda>i a. a) (\<lambda>_. None) (\<lambda>N a _. Some a) i a"
  by (cases a) (simp_all add: any_slot_def any_set_value_impl_def any_set_error_impl_def any_set_null_impl_def
      client_shape cong: if_cong)

lemma the_value_iff: "is_value a \<Longrightarrow> \<exists>v. the_value a = Some v"
  by (cases a) auto

lemma all_results_total: "outcome_total N (\<lambda>a. \<not> is_value a) the_value (\<lambda>N a. all_results N)"
  unfolding outcome_total_def all_results_def list_all_iff not_not
proof (intro allI impI)
  fix ans res i a
  assume all: "\<forall>j<N. \<exists>b. ans j = Some b \<and> is_value b \<and> (\<forall>v. the_value b = Some v \<longrightarrow> res j = Some v)"
  have "res j \<noteq> None" if "j < N" for j
    using all that the_value_iff by (metis option.distinct(1))
  then have "\<forall>i\<in>set [0..<N]. res i \<noteq> None" by simp
  then show "(if \<forall>i\<in>set [0..<N]. res i \<noteq> None then Some (Set_value (map (\<lambda>i. the (res i)) [0..<N])) else None) \<noteq> None"
    by simp
qed

interpretation al: parallel_client all_slot None claim_exchange "\<lambda>a. \<not> is_value a" all_call the_value
  "\<lambda>N a. all_results N"
  by unfold_locales (simp_all add: claim_exchange_laws all_slot_shape all_results_total)

interpretation an: parallel_client any_slot None claim_exchange is_value "\<lambda>i a. a" "\<lambda>_. None" "\<lambda>N a _. Some a"
  by unfold_locales (simp_all add: claim_exchange_laws any_slot_shape outcome_total_def)

definition all_reachable :: "nat \<Rightarrow> ('v list, 'e, 'v, 'e) par_run \<Rightarrow> bool" where
  "all_reachable N c \<longleftrightarrow> par_reachable N (all_slot N) None (parallel_emit N) c"

definition any_reachable :: "nat \<Rightarrow> ('v, 'e, 'v, 'e) par_run \<Rightarrow> bool" where
  "any_reachable N c \<longleftrightarrow> par_reachable N (any_slot N) None (parallel_emit N) c"

lemma all_reachableD:
  "all_reachable N c \<Longrightarrow> par_reachable N (all_slot N) (map_option (\<lambda>f. f N) None) (parallel_emit N) c"
  by (simp add: all_reachable_def)

lemma any_reachableD:
  "any_reachable N c \<Longrightarrow> par_reachable N (any_slot N) (map_option (\<lambda>f. f N) None) (parallel_emit N) c"
  by (simp add: any_reachable_def)

lemma parallel_emission: "emission N [0..<N] (parallel_emit N)"
  using emission_each [of "[]" "[0..<N]" N] by (simp add: parallel_emit_def)

section \<open>Examples\<close>

text \<open>Two values, the second first, for \<open>all\<close>; an error and then a value for \<open>any\<close>.\<close>

definition ex_all :: "(nat list, nat, nat, nat) par_run option" where
  "ex_all = par_moves 2 (all_slot 2) None
     [Emit, Emit, Emit, Answer 1 (Set_value 6), Callback 1, Callback 1, Answer 0 (Set_value 5), Task,
      Callback 0, Callback 0, Callback 0, Callback 0, Callback 0, Task] (run_init (parallel_emit 2))"

definition ex_any :: "(nat, nat, nat, nat) par_run option" where
  "ex_any = par_moves 2 (any_slot 2) None
     [Emit, Answer 0 (Set_error 3), Callback 0, Emit, Answer 1 (Set_value 5), Callback 1, Callback 1, Emit,
      Callback 1, Callback 1, Task, Callback 1, Task, Task] (run_init (parallel_emit 2))"

definition ex_all_end :: "(nat list, nat, nat, nat) par_run" where
  "ex_all_end = the ex_all"

definition ex_any_end :: "(nat, nat, nat, nat) par_run" where
  "ex_any_end = the ex_any"

lemma ex_all_reachable: "ex_all = Some c \<Longrightarrow> all_reachable 2 c"
  unfolding ex_all_def all_reachable_def by (rule par_moves_reachable)

lemma ex_any_reachable: "ex_any = Some c \<Longrightarrow> any_reachable 2 c"
  unfolding ex_any_def any_reachable_def by (rule par_moves_reachable)

lemma ex_some: "ex_all \<noteq> None" "ex_any \<noteq> None"
  by code_simp+

lemma ex_all_end_reachable: "all_reachable 2 ex_all_end"
  using ex_some(1) ex_all_reachable unfolding ex_all_end_def by (metis option.collapse)

lemma ex_any_end_reachable: "any_reachable 2 ex_any_end"
  using ex_some(2) ex_any_reachable unfolding ex_any_end_def by (metis option.collapse)

lemma two: "0 < (2::nat)" "(2::nat) < 2 ^ 32"
  by simp_all

section \<open>Properties\<close>

lemma ended_length:
  assumes "cs = filter (\<lambda>i. i \<noteq> w) [0..<N]" "w < N"
  shows "length cs = N - 1"
proof -
  have "cs = remove1 w [0..<N]" using assms by (simp add: distinct_remove1_removeAll removeAll_filter_not_eq) (metis (lifting))
  then show ?thesis using assms(2) by (simp add: length_remove1)
qed

text \<open>
  \<open>all\<close> calls its slot at most once, and exactly once when everything is over; it deletes itself
  once, after everything else, and is not accessed afterwards; no assertion fails. It cancels nothing,
  or every connection but the one whose error or null it passed on.
\<close>

theorem all_settles_once:
  assumes "all_reachable N c" and "0 < N" "N < 2 ^ 32"
  shows "length (slot_calls (object c)) \<le> 1 \<and> \<not> dangling (object c) \<and> \<not> check_failed (object c) \<and>
    deletions (object c) = (if par_ended N c then 1 else 0) \<and>
    (par_ended N c \<longrightarrow> length (slot_calls (object c)) = 1) \<and>
    (cancelled_handles (object c) = [] \<or>
      (\<exists>w a. w < N \<and> answers c w = Some a \<and> \<not> is_value a \<and> slot_calls (object c) = [all_call w a] \<and>
        cancelled_handles (object c) = filter (\<lambda>i. i \<noteq> w) [0..<N]))"
proof -
  note r = all_reachableD [OF assms(1)] parallel_emission assms(2,3)
  have "deletions (object c) = (if par_ended N c then 1 else 0)"
    using al.safe [OF r] al.ended [OF r] al.deleted_last [OF r] by (cases "deletions (object c)") auto
  then show ?thesis using al.safe [OF r] al.ended [OF r] al.cancels(1) [OF r] by auto
qed

theorem all_settles_once_witness:
  "deletions (object ex_all_end) = 1 \<and> length (slot_calls (object ex_all_end)) = 1"
proof -
  note p = all_settles_once [OF ex_all_end_reachable two]
  have d: "deletions (object ex_all_end) = 1" by code_simp
  then have "par_ended 2 ex_all_end" using p by (metis zero_neq_one)
  then show ?thesis using p d by blast
qed

text \<open>
  What \<open>all\<close> answers. A value is the list of the values of all connections in their order, whatever
  the order of their arrival; an error or null is the one some connection answered. When everything
  is over and all answers were values, the slot has received them.
\<close>

theorem all_answer:
  assumes "all_reachable N c" and "0 < N" "N < 2 ^ 32" and "k \<in> set (slot_calls (object c))"
  shows "case k of
      Set_value vs \<Rightarrow> length vs = N \<and> (\<forall>i<N. answers c i = Some (Set_value (vs ! i)))
    | Set_error e \<Rightarrow> (\<exists>i<N. answers c i = Some (Set_error e))
    | Set_null \<Rightarrow> (\<exists>i<N. answers c i = Some Set_null)"
proof -
  note r = all_reachableD [OF assms(1)] parallel_emission assms(2,3)
  from al.slot_call [OF r assms(4)] show ?thesis
  proof
    assume "\<exists>i<N. \<exists>a. answers c i = Some a \<and> \<not> is_value a \<and> k = all_call i a"
    then obtain i a where "i < N" "answers c i = Some a" "\<not> is_value a" "k = all_call i a" by blast
    then show ?thesis by (cases a) auto
  next
    assume l: "lost N (\<lambda>a. \<not> is_value a) (answers c) \<and>
      (\<exists>i<N. \<exists>a. answers c i = Some a \<and> all_results N (maybe_results (object c)) = Some k) \<and>
      (\<forall>j<N. \<forall>b v. answers c j = Some b \<longrightarrow> the_value b = Some v \<longrightarrow> maybe_results (object c) j = Some v)"
    then have k: "k = Set_value (map (\<lambda>i. the (maybe_results (object c) i)) [0..<N])"
      by (auto simp: all_results_def split: if_splits)
    have "answers c i = Some (Set_value (the (maybe_results (object c) i)))" if "i < N" for i
    proof -
      have "\<exists>b. answers c i = Some b \<and> \<not> \<not> is_value b"
        using l that unfolding lost_def by (elim conjE allE [of _ i]) simp
      then obtain v where v: "answers c i = Some (Set_value v)" by (auto simp: is_value_iff)
      have "\<forall>b v. answers c i = Some b \<longrightarrow> the_value b = Some v \<longrightarrow> maybe_results (object c) i = Some v"
        using l that by (elim conjE) simp
      then have "maybe_results (object c) i = Some v" using v by simp
      then show ?thesis using v by simp
    qed
    then show ?thesis by (simp add: k)
  qed
qed

theorem all_answer_witness:
  "slot_calls (object ex_all_end) = [Set_value [5, 6]] \<and> answers ex_all_end 1 = Some (Set_value ([5, 6] ! 1))"
proof -
  have "slot_calls (object ex_all_end) = [Set_value [5, 6]]" by code_simp
  then show ?thesis using all_answer [OF ex_all_end_reachable, of "Set_value [5, 6]"] by simp
qed

text \<open>
  \<open>any\<close> calls its slot at most once, and exactly once when everything is over; it deletes itself
  once, after everything else, and is not accessed afterwards; no assertion fails. It cancels nothing,
  or every connection but the one whose value it passed on; and when everything is over and there was
  a value, it has cancelled them.
\<close>

theorem any_settles_once:
  assumes "any_reachable N c" and "0 < N" "N < 2 ^ 32"
  shows "length (slot_calls (object c)) \<le> 1 \<and> \<not> dangling (object c) \<and> \<not> check_failed (object c) \<and>
    deletions (object c) = (if par_ended N c then 1 else 0) \<and>
    (par_ended N c \<longrightarrow> length (slot_calls (object c)) = 1) \<and>
    (cancelled_handles (object c) = [] \<or>
      (\<exists>w v. w < N \<and> answers c w = Some (Set_value v) \<and> slot_calls (object c) = [Set_value v] \<and>
        cancelled_handles (object c) = filter (\<lambda>i. i \<noteq> w) [0..<N])) \<and>
    (par_ended N c \<longrightarrow> (\<exists>i v. i < N \<and> answers c i = Some (Set_value v)) \<longrightarrow>
      length (cancelled_handles (object c)) = N - 1)"
proof -
  note r = any_reachableD [OF assms(1)] parallel_emission assms(2,3)
  have "deletions (object c) = (if par_ended N c then 1 else 0)"
    using an.safe [OF r] an.ended [OF r] an.deleted_last [OF r] by (cases "deletions (object c)") auto
  moreover have "length (cancelled_handles (object c)) = N - 1"
    if e: "par_ended N c" and v: "\<exists>i v. i < N \<and> answers c i = Some (Set_value v)"
  proof -
    have "\<not> lost N is_value (answers c)" using v unfolding lost_def by force
    then show ?thesis using an.cancels(2) [OF r e] ended_length by blast
  qed
  ultimately show ?thesis using an.safe [OF r] an.ended [OF r] an.cancels(1) [OF r] by (auto simp: is_value_iff)
qed

theorem any_settles_once_witness:
  "deletions (object ex_any_end) = 1 \<and> length (slot_calls (object ex_any_end)) = 1 \<and>
   length (cancelled_handles (object ex_any_end)) = 1"
proof -
  have d: "deletions (object ex_any_end) = 1" and a: "answers ex_any_end 1 = Some (Set_value 5)" by code_simp+
  have "\<exists>i v. i < 2 \<and> answers ex_any_end i = Some (Set_value v)" using a by (intro exI [of _ 1] exI [of _ 5]) simp
  moreover note p = any_settles_once [OF ex_any_end_reachable two]
  moreover have "par_ended 2 ex_any_end" using p d by (metis zero_neq_one)
  ultimately have "length (slot_calls (object ex_any_end)) = 1" "length (cancelled_handles (object ex_any_end)) = 2 - 1"
    by blast+
  then show ?thesis using d by simp
qed

text \<open>
  What \<open>any\<close> answers. A value is one that some connection answered; an error or null is answered
  only when every connection has answered and none with a value, and it is the answer of one of them.
\<close>

theorem any_answer:
  assumes "any_reachable N c" and "0 < N" "N < 2 ^ 32" and "k \<in> set (slot_calls (object c))"
  shows "(\<exists>i<N. answers c i = Some k) \<and>
    (is_value k \<or> (\<forall>i<N. \<exists>a. answers c i = Some a \<and> \<not> is_value a))"
proof -
  note r = any_reachableD [OF assms(1)] parallel_emission assms(2,3)
  show ?thesis using an.slot_call [OF r assms(4)] unfolding lost_def by auto
qed

theorem any_answer_witness:
  "slot_calls (object ex_any_end) = [Set_value 5] \<and>
   (answers ex_any_end 0 = Some (Set_value 5) \<or> answers ex_any_end 1 = Some (Set_value 5))"
proof -
  have "slot_calls (object ex_any_end) = [Set_value 5]" by code_simp
  then have "\<exists>i<2. answers ex_any_end i = Some (Set_value 5)"
    using any_answer [OF ex_any_end_reachable, of "Set_value 5"] by simp
  then have "answers ex_any_end 0 = Some (Set_value 5) \<or> answers ex_any_end 1 = Some (Set_value 5)"
    by (metis One_nat_def less_2_cases)
  then show ?thesis using \<open>slot_calls (object ex_any_end) = [Set_value 5]\<close> by simp
qed

text \<open>
  C9: What \<open>all\<close> and \<open>any\<close> answer. A value of \<open>all\<close> is the list of the values of all connections in their order,
  whatever the order of their arrival; its error or null is the one some connection answered. A value of \<open>any\<close>
  is one that some connection answered; an error or null is answered only when every connection has
  answered and none with a value, and it is the answer of one of them.
\<close>

theorem all_any_answers:
  assumes "0 < N" "N < 2 ^ 32"
    and "all_reachable N c" "k \<in> set (slot_calls (object c))"
    and "any_reachable N d" "l \<in> set (slot_calls (object d))"
  shows "(case k of
      Set_value vs \<Rightarrow> length vs = N \<and> (\<forall>i<N. answers c i = Some (Set_value (vs ! i)))
    | Set_error e \<Rightarrow> (\<exists>i<N. answers c i = Some (Set_error e))
    | Set_null \<Rightarrow> (\<exists>i<N. answers c i = Some Set_null)) \<and>
    ((\<exists>i<N. answers d i = Some l) \<and>
    (is_value l \<or> (\<forall>i<N. \<exists>a. answers d i = Some a \<and> \<not> is_value a)))"
  using all_answer [OF assms(3,1,2,4)] any_answer [OF assms(5,1,2,6)] by blast

theorem all_any_answers_witness:
  "slot_calls (object ex_all_end) = [Set_value [5, 6]] \<and> answers ex_all_end 1 = Some (Set_value ([5, 6] ! 1)) \<and>
   (\<exists>i<2. answers ex_any_end i = Some (Set_value 5))"
proof -
  have "slot_calls (object ex_all_end) = [Set_value [5, 6]]" "slot_calls (object ex_any_end) = [Set_value 5]" by code_simp+
  then show ?thesis
    using all_any_answers [OF two ex_all_end_reachable _ ex_any_end_reachable, of "Set_value [5, 6]" "Set_value 5"] by simp
qed



end
