(* ===== verification/Par_Builders.thy ===== *)
theory Par_Builders
  imports All_Any Channel_Steps
begin

text \<open>
  How \<open>select\<close>, \<open>all\<close> and \<open>any\<close> are put together: the fluent builder of \<^verbatim>\<open>algo/sync/select.hpp\<close>, the signals of
  \<^verbatim>\<open>algo/tf/par/{all,any}.hpp\<close>, their boxed connections, and the signals of \<^verbatim>\<open>algo/sync/channel.hpp\<close> as
  cases. What C++ decides when it compiles, by \<open>requires\<close> clauses and template deduction, is the value of a
  function here, \<open>None\<close> where it does not compile. Types are opaque but for \<open>meta::unit\<close>.
\<close>

section \<open>Signals and their connections\<close>

datatype 't ty = Unit_type | Type 't

datatype ('t, 'v) case_signal =
  Channel_send_signal nat 'v
| Channel_receive_signal nat "'t ty"
| Channel_close_signal nat
| Other_signal "'t ty" "'t ty" "u64 option"

text \<open>The last one is any other signal, with its value and error types and the ordering of its connection, if it has one.\<close>

record 't channel_ref =
  channel_address :: nat
  channel_type :: "'t ty"

definition channel_send :: "'t channel_ref \<Rightarrow> 'v \<Rightarrow> ('t, 'v) case_signal" where
  "channel_send ch v = Channel_send_signal (channel_address ch) v"

definition channel_receive :: "'t channel_ref \<Rightarrow> ('t, 'v) case_signal" where
  "channel_receive ch = Channel_receive_signal (channel_address ch) (channel_type ch)"

definition channel_close :: "'t channel_ref \<Rightarrow> ('t, 'v) case_signal" where
  "channel_close ch = Channel_close_signal (channel_address ch)"

primrec signal_value_type :: "('t, 'v) case_signal \<Rightarrow> 't ty" where
  "signal_value_type (Channel_send_signal ch v) = Unit_type"
| "signal_value_type (Channel_receive_signal ch t) = t"
| "signal_value_type (Channel_close_signal ch) = Unit_type"
| "signal_value_type (Other_signal t e key) = t"

primrec signal_error_type :: "('t, 'v) case_signal \<Rightarrow> 't ty" where
  "signal_error_type (Channel_send_signal ch v) = Unit_type"
| "signal_error_type (Channel_receive_signal ch t) = Unit_type"
| "signal_error_type (Channel_close_signal ch) = Unit_type"
| "signal_error_type (Other_signal t e key) = e"

text \<open>
  \<open>subscribe\<close>: the connection, with its node, which points to the \<open>done\<close> word of the slot if the slot has
  \<open>get_done\<close>. \<open>emit\<close> and \<open>try_cancel\<close> of a connection are operations of the channel on its node \<open>n\<close>.
\<close>

datatype 'v case_connection =
  Send_connection nat "'v send_node"
| Receive_connection nat recv_node
| Close_connection nat
| Other_connection "u64 option"

definition send_connection :: "u64 option \<Rightarrow> 'v \<Rightarrow> nat \<Rightarrow> 'v case_connection" where
  "send_connection get_done v ch = Send_connection ch (new_send_node v get_done)"

definition receive_connection :: "u64 option \<Rightarrow> nat \<Rightarrow> 'v case_connection" where
  "receive_connection get_done ch = Receive_connection ch (new_recv_node get_done)"

definition close_connection :: "nat \<Rightarrow> 'v case_connection" where
  "close_connection ch = Close_connection ch"

primrec subscribe_case :: "u64 option \<Rightarrow> ('t, 'v) case_signal \<Rightarrow> 'v case_connection" where
  "subscribe_case get_done (Channel_send_signal ch v) = send_connection get_done v ch"
| "subscribe_case get_done (Channel_receive_signal ch t) = receive_connection get_done ch"
| "subscribe_case get_done (Channel_close_signal ch) = close_connection ch"
| "subscribe_case get_done (Other_signal t e key) = Other_connection key"

primrec get_ordering :: "'v case_connection \<Rightarrow> u64 option" where
  "get_ordering (Send_connection ch node) = Some (of_nat ch)"
| "get_ordering (Receive_connection ch node) = Some (of_nat ch)"
| "get_ordering (Close_connection ch) = None"
| "get_ordering (Other_connection key) = key"

primrec connection_emit :: "nat \<Rightarrow> 'v case_connection \<Rightarrow> (nat \<times> channel_op) option" where
  "connection_emit n (Send_connection ch node) = Some (ch, Emit_send n)"
| "connection_emit n (Receive_connection ch node) = Some (ch, Emit_receive n)"
| "connection_emit n (Close_connection ch) = Some (ch, Emit_close)"
| "connection_emit n (Other_connection key) = None"

primrec connection_try_cancel :: "nat \<Rightarrow> 'v case_connection \<Rightarrow> (nat \<times> channel_op) option" where
  "connection_try_cancel n (Send_connection ch node) = Some (ch, Try_cancel_send n)"
| "connection_try_cancel n (Receive_connection ch node) = Some (ch, Try_cancel_receive n)"
| "connection_try_cancel n (Close_connection ch) = None"
| "connection_try_cancel n (Other_connection key) = None"

section \<open>Building a select\<close>

text \<open>A functor with the type it can be invoked with and that of its result.\<close>

record ('t, 'v, 'r) typed_fun =
  functor_fun :: "'v \<Rightarrow> 'r"
  functor_arg :: "'t ty"
  functor_result :: "'t ty"

record ('t, 'v, 'r) select_case =
  sc_signal :: "('t, 'v) case_signal"
  sc_functor :: "('t, 'v, 'r) typed_fun"

definition make_select_case ::
  "('t, 'v) case_signal \<Rightarrow> ('t, 'v, 'r) typed_fun \<Rightarrow> ('t, 'v, 'r) select_case option" where
  "make_select_case signal f =
     (if functor_arg f = signal_value_type signal \<and> signal_error_type signal = Unit_type
      then Some \<lparr>sc_signal = signal, sc_functor = f\<rparr> else None)"

record ('t, 'v, 'r) select =
  select_value_type :: "'t ty"
  select_cases :: "('t, 'v, 'r) select_case list"

definition select_start_case ::
  "('t, 'v) case_signal \<Rightarrow> ('t, 'v, 'r) typed_fun \<Rightarrow> ('t, 'v, 'r) select option" where
  "select_start_case signal f =
     map_option (\<lambda>a_case. \<lparr>select_value_type = functor_result f, select_cases = [a_case]\<rparr>) (make_select_case signal f)"

definition select_add_case ::
  "('t, 'v) case_signal \<Rightarrow> ('t, 'v, 'r) typed_fun \<Rightarrow> ('t, 'v, 'r) select \<Rightarrow> ('t, 'v, 'r) select option" where
  "select_add_case signal f s = (case make_select_case signal f of
     None \<Rightarrow> None
   | Some a_case \<Rightarrow>
       if functor_result f = select_value_type s then Some (s\<lparr>select_cases := select_cases s @ [a_case]\<rparr>) else None)"

definition select_default ::
  "('t, 'v, 'r) typed_fun \<Rightarrow> ('t, 'v, 'r) select \<Rightarrow> ('t, 'v, 'r) select option" where
  "select_default f s = select_add_case (Other_signal Unit_type Unit_type None) f s"

text \<open>A chain of calls on what \<open>select()\<close> returns, \<open>None\<close> if it does not compile.\<close>

datatype ('t, 'v, 'r) select_call = Case_call "('t, 'v) case_signal" "('t, 'v, 'r) typed_fun" | Default_call "('t, 'v, 'r) typed_fun"

primrec select_do :: "('t, 'v, 'r) select_call \<Rightarrow> ('t, 'v, 'r) select \<Rightarrow> ('t, 'v, 'r) select option" where
  "select_do (Case_call signal f) s = select_add_case signal f s"
| "select_do (Default_call f) s = select_default f s"

fun select_build :: "('t, 'v, 'r) select_call list \<Rightarrow> ('t, 'v, 'r) select option" where
  "select_build (Case_call signal f # calls) =
     fold (\<lambda>call s. Option.bind s (select_do call)) calls (select_start_case signal f)"
| "select_build calls = None"

section \<open>The connection of a select\<close>

text \<open>
  \<open>case_slot_ctor\<close> makes the slot of one case: its functor, its index, \<open>get_done\<close> the select's own word. The
  calls it takes are those of a channel's callback, of which an ordinary signal makes the first three.
\<close>

definition case_slot_ctor ::
  "nat \<Rightarrow> ('t, 'v, 'r) typed_fun \<Rightarrow> nat \<Rightarrow> 'v callback_call \<Rightarrow> (('r, unit, 'v) par, unit) prog" where
  "case_slot_ctor N f index call = (case call of
     Call_value v \<Rightarrow> case_slot N (\<lambda>_. functor_fun f) index (Set_value v)
   | Call_error \<Rightarrow> case_slot N (\<lambda>_. functor_fun f) index (Set_error ())
   | Call_null \<Rightarrow> case_slot N (\<lambda>_. functor_fun f) index Set_null
   | Call_value_skip_done v \<Rightarrow> set_value_skip_done N (\<lambda>_. functor_fun f) index v)"

type_synonym ('v, 'r) built_connection = "'v case_connection \<times> ('v callback_call \<Rightarrow> (('r, unit, 'v) par, unit) prog)"

definition select_make_connections :: "u64 \<Rightarrow> ('t, 'v, 'r) select_case list \<Rightarrow> ('v, 'r) built_connection list" where
  "select_make_connections done_address cases =
     map (\<lambda>(index, a_case). (subscribe_case (Some done_address) (sc_signal a_case),
       case_slot_ctor (length cases) (sc_functor a_case) index)) (enumerate 0 cases)"




section \<open>all and any\<close>















section \<open>Built selects\<close>

text \<open>A select as the builder leaves it.\<close>

definition case_ok :: "'t ty \<Rightarrow> ('t, 'v, 'r) select_case \<Rightarrow> bool" where
  "case_ok t c \<longleftrightarrow> functor_arg (sc_functor c) = signal_value_type (sc_signal c) \<and>
     signal_error_type (sc_signal c) = Unit_type \<and> functor_result (sc_functor c) = t"

definition call_case :: "('t, 'v, 'r) select_call \<Rightarrow> ('t, 'v, 'r) select_case" where
  "call_case call = (case call of
     Case_call signal f \<Rightarrow> \<lparr>sc_signal = signal, sc_functor = f\<rparr>
   | Default_call f \<Rightarrow> \<lparr>sc_signal = Other_signal Unit_type Unit_type None, sc_functor = f\<rparr>)"

lemmas builder_defs = select_add_case_def select_default_def make_select_case_def case_ok_def call_case_def

lemma select_do_some:
  "select_do call s = Some s' \<longleftrightarrow>
     case_ok (select_value_type s) (call_case call) \<and> s' = s\<lparr>select_cases := select_cases s @ [call_case call]\<rparr>"
  by (cases call) (auto simp: builder_defs split: if_splits)

lemma fold_none: "fold (\<lambda>call s. Option.bind s (select_do call)) calls None = None"
  by (induction calls) simp_all

lemma select_fold_some:
  "fold (\<lambda>call s. Option.bind s (select_do call)) calls (Some s) = Some s' \<longleftrightarrow>
     list_all (\<lambda>call. case_ok (select_value_type s) (call_case call)) calls \<and>
     s' = s\<lparr>select_cases := select_cases s @ map call_case calls\<rparr>"
proof (induction calls arbitrary: s)
  case (Cons call calls)
  show ?case
  proof (cases "select_do call s")
    case None
    then have "\<not> case_ok (select_value_type s) (call_case call)" by (metis option.distinct(1) select_do_some)
    then show ?thesis using None by (simp add: fold_none)
  next
    case (Some t)
    then have "case_ok (select_value_type s) (call_case call)" "t = s\<lparr>select_cases := select_cases s @ [call_case call]\<rparr>"
      by (simp_all add: select_do_some)
    then show ?thesis using Cons.IH [of t] Some by simp
  qed
qed auto

lemma select_build_some:
  "select_build calls = Some s \<longleftrightarrow>
     (\<exists>signal f rest. calls = Case_call signal f # rest \<and>
        list_all (\<lambda>call. case_ok (functor_result f) (call_case call)) calls \<and>
        s = \<lparr>select_value_type = functor_result f, select_cases = map call_case calls\<rparr>)"
proof (cases calls rule: select_build.cases)
  case (1 signal f rest)
  show ?thesis
  proof (cases "make_select_case signal f")
    case None
    then have "\<not> case_ok (functor_result f) (call_case (Case_call signal f))"
      by (auto simp: builder_defs split: if_splits)
    then show ?thesis using 1 None by (simp add: select_start_case_def fold_none)
  next
    case (Some c)
    then have "case_ok (functor_result f) (call_case (Case_call signal f))" "c = call_case (Case_call signal f)"
      by (auto simp: builder_defs split: if_splits)
    then show ?thesis using 1 Some by (auto simp: select_start_case_def select_fold_some)
  qed
qed auto

lemma select_buildD:
  assumes "select_build calls = Some s"
  shows "calls \<noteq> []" "select_cases s = map call_case calls" "list_all (case_ok (select_value_type s)) (select_cases s)"
  using assms unfolding select_build_some by (auto simp: list.pred_map comp_def)

text \<open>The functors and the orderings a built select passes on.\<close>

definition functor_of :: "('t, 'v, 'r) select \<Rightarrow> nat \<Rightarrow> 'v \<Rightarrow> 'r" where
  "functor_of s i = functor_fun (sc_functor (select_cases s ! i))"

definition orderings_of :: "('t, 'v, 'r) select \<Rightarrow> u64 option list" where
  "orderings_of s = map (\<lambda>c. get_ordering (subscribe_case None (sc_signal c))) (select_cases s)"


lemma case_slot_functor:
  "case_slot N (\<lambda>_. case_functor i) i = case_slot N case_functor i"
  "set_value_skip_done N (\<lambda>_. case_functor i) i = set_value_skip_done N case_functor i"
  by (simp_all add: fun_eq_iff case_slot_def set_value_skip_done_def select_set_value_impl_def split: slot_call.splits)

text \<open>The connections of a built select are those the runs of \<open>Select\<close> are about.\<close>

lemma select_connections:
  assumes "i < length (select_cases s)"
  shows "select_make_connections d (select_cases s) ! i =
    (subscribe_case (Some d) (sc_signal (select_cases s ! i)),
     \<lambda>call. case call of
        Call_value v \<Rightarrow> case_slot (length (select_cases s)) (functor_of s) i (Set_value v)
      | Call_error \<Rightarrow> case_slot (length (select_cases s)) (functor_of s) i (Set_error ())
      | Call_null \<Rightarrow> case_slot (length (select_cases s)) (functor_of s) i Set_null
      | Call_value_skip_done v \<Rightarrow> set_value_skip_done (length (select_cases s)) (functor_of s) i v)"
  using assms case_slot_functor [of "length (select_cases s)" "functor_of s" i]
  by (simp add: select_make_connections_def nth_enumerate_eq case_slot_ctor_def functor_of_def fun_eq_iff
      split: callback_call.splits)


section \<open>Properties\<close>












section \<open>A select over channels\<close>

text \<open>A delivery by a channel to a node of a select claims the select's word and says so to the slot.\<close>

lemma fulfill_claims:
  assumes "run_rely done_grows (try_fulfill_impl dbg c p r) w (Inr (Some evs)) w'"
    and "d \<in> selects_of (sends c p) (recvs c r)"
  shows "evs = fulfill_events c p r \<and> w d = 0 \<and> w' d \<noteq> 0"
proof -
  have "run_rely done_grows (pbind (try_fulfill_impl dbg c p r) Ret) w (Inr (Some evs)) w'" using assms(1) by simp
  then show ?thesis
    by (rule rely_try_fulfill) (use assms(2) in \<open>auto simp: done_grows_def\<close>)
qed

text \<open>With a default case behind channel cases, whose addresses are below the greatest word, the default comes last.\<close>

definition on_channel :: "('t, 'v, 'r) select_call \<Rightarrow> bool" where
  "on_channel call = (case call of
     Case_call (Channel_send_signal ch v) f \<Rightarrow> ch < 2 ^ 64 - 1
   | Case_call (Channel_receive_signal ch t) f \<Rightarrow> ch < 2 ^ 64 - 1
   | _ \<Rightarrow> False)"

lemma of_nat_not_max: "ch < 2 ^ 64 - 1 \<Longrightarrow> (of_nat ch :: u64) < - 1"
  by (simp add: word_less_nat_alt unat_of_nat unsigned_minus_1_eq_mask mask_eq_exp_minus_1)

lemma on_channel_key: "on_channel call \<Longrightarrow>
    get_connection_ordering (get_ordering (subscribe_case None (sc_signal (call_case call)))) < - 1"
  by (auto simp: on_channel_def call_case_def send_connection_def receive_connection_def get_connection_ordering_def
      of_nat_not_max split: select_call.splits case_signal.splits)

lemma default_last:
  assumes "select_build (calls @ [Default_call f]) = Some s" "list_all on_channel calls"
  shows "\<exists>front. select_order (orderings_of s) = front @ [length calls] \<and> set front = {0..<length calls}"
proof -
  let ?cs = "orderings_of s"
  note b = select_buildD [OF assms(1)]
  have cs: "?cs = map (\<lambda>call. get_ordering (subscribe_case None (sc_signal (call_case call)))) calls @ [None]"
    by (simp add: orderings_of_def b(2) comp_def call_case_def)
  have n: "length ?cs = Suc (length calls)" by (simp add: cs)
  have less: "get_connection_ordering (?cs ! i) < - 1" if "i < length calls" for i
    using on_channel_key [of "calls ! i"] assms(2) that by (simp add: cs nth_append list_all_length)
  have max: "get_connection_ordering (?cs ! length calls) = - 1"
    by (simp add: cs nth_append get_connection_ordering_def)
  have order: "select_order ?cs = emit_order ?cs" by (auto simp: select_order_def cs)
  have ne: "emit_order ?cs \<noteq> []" using emit_order_perm(2) [of ?cs] n by auto
  have "last (emit_order ?cs) = length calls"
  proof (rule ccontr)
    assume l: "last (emit_order ?cs) \<noteq> length calls"
    have "last (emit_order ?cs) \<in> {0..<Suc (length calls)}" using ne emit_order_perm(2) [of ?cs] n by (metis last_in_set)
    then have "get_connection_ordering (?cs ! last (emit_order ?cs)) < - 1" using less l by simp
    moreover have "length calls \<in> set (emit_order ?cs)" using emit_order_perm(2) [of ?cs] n by simp
    then obtain p where p: "p < length (emit_order ?cs)" "emit_order ?cs ! p = length calls" by (auto simp: in_set_conv_nth)
    have "get_connection_ordering (?cs ! (emit_order ?cs ! p)) \<le>
        get_connection_ordering (?cs ! (emit_order ?cs ! (length (emit_order ?cs) - 1)))"
      using sorted_nth_mono [OF emit_order_sorted [of ?cs], of p "length (emit_order ?cs) - 1"] p(1) by simp
    ultimately show False using p max ne by (simp add: last_conv_nth)
  qed
  then have e: "emit_order ?cs = butlast (emit_order ?cs) @ [length calls]" using ne by (metis append_butlast_last_id)
  have "distinct (butlast (emit_order ?cs) @ [length calls])" "set (butlast (emit_order ?cs) @ [length calls]) = {0..<Suc (length calls)}"
    using emit_order_perm [of ?cs] n by (simp_all flip: e)
  then have "set (butlast (emit_order ?cs)) = {0..<length calls}"
    by (simp add: atLeastLessThanSuc insert_ident)
  then show ?thesis using e order by metis
qed

section \<open>Examples\<close>


definition ex_fun :: "(nat \<Rightarrow> nat) \<Rightarrow> nat ty \<Rightarrow> (nat, nat, nat) typed_fun" where
  "ex_fun f t = \<lparr>functor_fun = f, functor_arg = t, functor_result = Type 30\<rparr>"

definition ex_calls :: "(nat, nat, nat) select_call list" where
  "ex_calls = [Case_call (channel_receive \<lparr>channel_address = 5, channel_type = Type 10\<rparr>) (ex_fun (\<lambda>v. 10 + v) (Type 10)),
     Default_call (ex_fun (\<lambda>_. 0) Unit_type)]"

definition ex_built :: "(nat, nat, nat) select" where
  "ex_built = the (select_build ex_calls)"

definition ex_built_run :: "(nat, unit, nat, unit) par_run option" where
  "ex_built_run = par_moves 2 (case_slot 2 (functor_of ex_built)) (Some (set_value_skip_done 2 (functor_of ex_built)))
     [Emit, Answer_claimed 0 7, Callback 0, Callback 0, Callback 0, Emit, Answer 1 (Set_value 0), Callback 1, Callback 1]
     (run_init (select_emit (orderings_of ex_built)))"

lemma ex_built_build: "select_build ex_calls = Some ex_built"
  and ex_built_length: "length (select_cases ex_built) = 2"
  and ex_built_fun_0: "sc_functor (select_cases ex_built ! 0) = ex_fun (\<lambda>v. 10 + v) (Type 10)"
  and ex_built_fun_1: "sc_functor (select_cases ex_built ! Suc 0) = ex_fun (\<lambda>_. 0) Unit_type"
  and ex_built_sig_0: "sc_signal (select_cases ex_built ! 0) = Channel_receive_signal 5 (Type 10)"
  and ex_built_sig_1: "sc_signal (select_cases ex_built ! Suc 0) = Other_signal Unit_type Unit_type None"
  and ex_built_type: "select_value_type ex_built = Type 30"
  and ex_built_orderings: "orderings_of ex_built = [Some 5, None]"
  by (simp_all add: ex_built_def ex_calls_def builder_defs select_start_case_def channel_receive_def ex_fun_def orderings_of_def
      receive_connection_def)

definition ex_built_end :: "(nat, unit, nat, unit) par_run" where
  "ex_built_end = the ex_built_run"

lemma ex_built_some: "ex_built_run \<noteq> None"
  by code_simp


lemma ex_built_moves: "ex_built_run = Some c \<Longrightarrow> select_reachable (orderings_of ex_built) (functor_of ex_built) c"
proof -
  have two: "length (orderings_of ex_built) = 2" by (simp add: ex_built_orderings)
  assume "ex_built_run = Some c"
  then show ?thesis unfolding ex_built_run_def select_reachable_def two by (rule par_moves_reachable)
qed

lemma ex_built_reachable: "select_reachable (orderings_of ex_built) (functor_of ex_built) ex_built_end"
  using ex_built_some ex_built_moves unfolding ex_built_end_def by (metis option.collapse)



section \<open>Properties\<close>



text \<open>
  C23: A select over channels. The node of a case points to the select's own word, and a value that a channel
  delivers to it or takes from it, under any interference, comes by the call that skips the check, after
  the channel has taken that word from 0; the case then answers without claiming it again. A default case after channel cases is emitted last, when all of those have been.
\<close>

theorem select_over_channels:
  assumes "select_build (calls @ [Default_call f]) = Some s" "list_all on_channel calls"
    and "i < length calls" "select_make_connections d (select_cases s) ! i = (con, slot)"
    and "run_rely done_grows (try_fulfill_impl dbg c p r) w (Inr (Some evs)) w'"
    and "select_reachable (orderings_of s) (functor_of s) sr" "length (select_cases s) < 2 ^ 32"
  shows "(case con of
       Receive_connection ch node \<Rightarrow> select_done (recvs c r) = select_done node \<longrightarrow>
         w d = 0 \<and> w' d \<noteq> 0 \<and> evs = [Recv_event r (Call_value_skip_done (sn_value (sends c p))), evs ! 1] \<and>
         slot (Call_value_skip_done v) = set_value_skip_done (length (select_cases s)) (functor_of s) i v
     | Send_connection ch node \<Rightarrow> select_done (sends c p) = select_done node \<longrightarrow>
         w d = 0 \<and> w' d \<noteq> 0 \<and> evs = [evs ! 0, Send_event p (Call_value_skip_done ())] \<and>
         slot (Call_value_skip_done v) = set_value_skip_done (length (select_cases s)) (functor_of s) i v
     | _ \<Rightarrow> False) \<and>
    (length calls \<in> set (emitted (object sr)) \<longrightarrow> {0..<length calls} \<subseteq> set (emitted (object sr)))"
proof -
  note b = select_buildD [OF assms(1)]
  have i: "i < length (select_cases s)" "on_channel (calls ! i)" "select_cases s ! i = call_case (calls ! i)"
    using assms(2,3) b(2) by (simp_all add: list_all_length nth_append)
  have con: "con = subscribe_case (Some d) (sc_signal (call_case (calls ! i)))"
    and slot: "slot (Call_value_skip_done v) = set_value_skip_done (length (select_cases s)) (functor_of s) i v"
    using select_connections [OF i(1), of d] assms(4) i(3) by auto
  note fc = fulfill_claims [OF assms(5), of d]
  have claims: "case con of
       Receive_connection ch node \<Rightarrow> select_done (recvs c r) = select_done node \<longrightarrow>
         w d = 0 \<and> w' d \<noteq> 0 \<and> evs = [Recv_event r (Call_value_skip_done (sn_value (sends c p))), evs ! 1]
     | Send_connection ch node \<Rightarrow> select_done (sends c p) = select_done node \<longrightarrow>
         w d = 0 \<and> w' d \<noteq> 0 \<and> evs = [evs ! 0, Send_event p (Call_value_skip_done ())]
     | _ \<Rightarrow> False"
    using i(2) fc unfolding con
    by (auto simp: on_channel_def call_case_def send_connection_def receive_connection_def new_send_node_def new_recv_node_def
        selects_of_def fulfill_events_def value_call_def split: select_call.splits case_signal.splits)
  obtain front where front: "select_order (orderings_of s) = front @ [length calls]" "set front = {0..<length calls}"
    using default_last [OF assms(1,2)] by blast
  have n: "0 < length (orderings_of s)" "length (orderings_of s) < 2 ^ 32"
    using assms(7) b(1,2) by (simp_all add: orderings_of_def)
  obtain rest where rest: "emitted (object sr) @ rest = front @ [length calls]"
    using sel.emitted_prefix [OF select_reachableD [OF assms(6)] select_emission n] front(1) by auto
  have last: "{0..<length calls} \<subseteq> set (emitted (object sr))" if e: "length calls \<in> set (emitted (object sr))"
  proof (cases rest rule: rev_cases)
    case Nil
    then show ?thesis using rest front(2) by auto
  next
    case (snoc ys y)
    then have "emitted (object sr) @ ys = front" using rest by simp
    then show ?thesis using e front(2) by auto
  qed
  show ?thesis using claims slot last by (cases con) simp_all
qed

text \<open>The case of \<open>ex_built\<close>, node 0, meets a sender, node 1, that belongs to no select.\<close>

definition ex_meeting :: "(nat list, nat) channel" where
  "ex_meeting = \<lparr>this_channel = 5, sendq = [], recvq = [], is_closed = False,
     sends = (\<lambda>_. new_send_node 7 None), recvs = (\<lambda>_. new_recv_node (Some 64))\<rparr>"

theorem select_over_channels_witness:
  "snd (select_make_connections 64 (select_cases ex_built) ! 0) (Call_value_skip_done 7) =
     set_value_skip_done 2 (functor_of ex_built) 0 7 \<and> {0..<1} \<subseteq> set (emitted (object ex_built_end))"
proof -
  let ?con = "fst (select_make_connections 64 (select_cases ex_built) ! 0)"
    and ?slot = "snd (select_make_connections 64 (select_cases ex_built) ! 0)"
  have b: "select_build ([ex_calls ! 0] @ [Default_call (ex_fun (\<lambda>_. 0) Unit_type)]) = Some ex_built"
    using ex_built_build by (simp add: ex_calls_def)
  have "run (try_fulfill_impl True ex_meeting 1 0) (\<lambda>_. 0) = (Inr (Some (fulfill_events ex_meeting 1 0)), (\<lambda>_. 0)(64 := 1))"
    by (simp add: try_fulfill_impl_def ex_meeting_def new_send_node_def new_recv_node_def run_pbind claim_done_def kcas_spec_def
        fulfill_events_def value_call_def)
  then have r: "run_rely done_grows (try_fulfill_impl True ex_meeting 1 0) (\<lambda>_. 0) (Inr (Some (fulfill_events ex_meeting 1 0))) ((\<lambda>_. 0)(64 := 1))"
    by (rule run_rely_of_run) simp
  have c: "?con = Receive_connection 5 (new_recv_node (Some 64))"
    using select_connections [of 0 ex_built 64] by (simp add: ex_built_length ex_built_sig_0 receive_connection_def)
  have e: "length [ex_calls ! 0] \<in> set (emitted (object ex_built_end))" by code_simp
  have oc: "list_all on_channel [ex_calls ! 0]" by (simp add: ex_calls_def on_channel_def channel_receive_def)
  show ?thesis
    using select_over_channels [OF b oc _ prod.collapse [symmetric] r ex_built_reachable, of 0 64 7] e c
    by (simp add: ex_built_length ex_meeting_def new_recv_node_def)
qed

end
