(* ===== verification/Cancel_Handles.thy ===== *)
theory Cancel_Handles
  imports Par_Builders
begin

text \<open>
  What reaches a channel through the connections in between: the cancel handle that \<open>emit\<close> returns
  (\<^verbatim>\<open>model/connection.hpp\<close>), the ordering, and the \<open>done\<close> word of a select. \<open>continue_on\<close> hands the slot on as it is; the
  other transformations have a slot and a connection of their own, which return the inner handle, \<open>box\<close> in an
  object of its own; \<open>force\<close>, \<open>share\<close> and the parallel ones return a handle that does nothing.
\<close>

section \<open>Signals and what their connections return\<close>

datatype csig =
  Channel_op_signal nat u64
| Own_handle
| Transformed csig
| Continued csig
| Boxed csig
| Forced csig
| Shared csig
| Parallel_of "csig list"

text \<open>
  A send or receive with node \<open>n\<close> on the channel at an address; a signal that answers by itself (a result, a scheduled
  function, a promise, the close of a channel, a coroutine); \<open>map\<close>, \<open>map_error\<close>, \<open>and_then\<close>, \<open>or_else\<close>, \<open>flatten\<close>, \<open>query_executor\<close>;
  \<open>continue_on\<close>; \<open>box\<close>; \<open>force\<close>; \<open>share\<close>; \<open>all\<close>, \<open>any\<close> or \<open>select\<close>.
\<close>

datatype cancel_handle = Dummy_cancel_handle | Proxy_cancel_handle nat | Box_cancel_handle cancel_handle

text \<open>The channel nodes that \<open>try_cancel\<close> takes back.\<close>

primrec try_cancel :: "cancel_handle \<Rightarrow> nat list" where
  "try_cancel Dummy_cancel_handle = []"
| "try_cancel (Proxy_cancel_handle n) = [n]"
| "try_cancel (Box_cancel_handle inner) = try_cancel inner"

record connection_attrs =
  emit_handle :: cancel_handle
  attr_ordering :: "u64 option"
  attr_done :: "u64 option"

text \<open>
  \<open>subscribe\<close> with a slot whose \<open>get_done\<close>, if it has one, is given. \<open>attr_done\<close> is what the node of a channel gets.
\<close>

definition dummy_attrs :: connection_attrs where
  "dummy_attrs = \<lparr>emit_handle = Dummy_cancel_handle, attr_ordering = None, attr_done = None\<rparr>"

definition channel_attrs :: "u64 option \<Rightarrow> nat \<Rightarrow> u64 \<Rightarrow> connection_attrs" where
  "channel_attrs get_done n address = \<lparr>emit_handle = Proxy_cancel_handle n, attr_ordering = Some address, attr_done = get_done\<rparr>"

definition transformed_attrs :: "(u64 option \<Rightarrow> connection_attrs) \<Rightarrow> u64 option \<Rightarrow> connection_attrs" where
  "transformed_attrs inner get_done = (inner None)\<lparr>attr_ordering := None\<rparr>"

definition continue_on_attrs :: "(u64 option \<Rightarrow> connection_attrs) \<Rightarrow> u64 option \<Rightarrow> connection_attrs" where
  "continue_on_attrs inner get_done = inner get_done"

definition box_attrs :: "(u64 option \<Rightarrow> connection_attrs) \<Rightarrow> u64 option \<Rightarrow> connection_attrs" where
  "box_attrs inner get_done =
     (inner None)\<lparr>emit_handle := Box_cancel_handle (emit_handle (inner None)), attr_ordering := None\<rparr>"

primrec connect_attrs :: "csig \<Rightarrow> u64 option \<Rightarrow> connection_attrs" where
  "connect_attrs (Channel_op_signal n address) = (\<lambda>get_done. channel_attrs get_done n address)"
| "connect_attrs Own_handle = (\<lambda>get_done. dummy_attrs)"
| "connect_attrs (Transformed s) = transformed_attrs (connect_attrs s)"
| "connect_attrs (Continued s) = continue_on_attrs (connect_attrs s)"
| "connect_attrs (Boxed s) = box_attrs (connect_attrs s)"
| "connect_attrs (Forced s) = (\<lambda>get_done. dummy_attrs)"
| "connect_attrs (Shared s) = (\<lambda>get_done. dummy_attrs)"
| "connect_attrs (Parallel_of ss) = (\<lambda>get_done. dummy_attrs)"

lemmas attrs_defs = dummy_attrs_def channel_attrs_def transformed_attrs_def continue_on_attrs_def box_attrs_def

section \<open>The channel behind a signal\<close>

text \<open>The node a signal is made of, if nothing in between keeps its own handle, and whether only \<open>continue_on\<close> is in between.\<close>

inductive made_of :: "csig \<Rightarrow> nat \<Rightarrow> u64 \<Rightarrow> bool \<Rightarrow> bool" where
  mo_channel: "made_of (Channel_op_signal n address) n address True"
| mo_transformed: "made_of s n address direct \<Longrightarrow> made_of (Transformed s) n address False"
| mo_continued: "made_of s n address direct \<Longrightarrow> made_of (Continued s) n address direct"
| mo_boxed: "made_of s n address direct \<Longrightarrow> made_of (Boxed s) n address False"

code_pred made_of .

inductive_simps made_of_simps [simp]:
  "made_of (Channel_op_signal m a) n address direct" "made_of Own_handle n address direct"
  "made_of (Transformed s) n address direct" "made_of (Continued s) n address direct" "made_of (Boxed s) n address direct"
  "made_of (Forced s) n address direct" "made_of (Shared s) n address direct" "made_of (Parallel_of ss) n address direct"

lemma made_of_attrs:
  "made_of s n address direct \<Longrightarrow> try_cancel (emit_handle (connect_attrs s d)) = [n] \<and>
     attr_ordering (connect_attrs s d) = (if direct then Some address else None) \<and>
     attr_done (connect_attrs s d) = (if direct then d else None)"
  by (induction arbitrary: d rule: made_of.induct) (simp_all add: attrs_defs)

lemma not_made_of_attrs:
  "\<nexists>n address direct. made_of s n address direct \<Longrightarrow> try_cancel (emit_handle (connect_attrs s d)) = [] \<and>
     attr_ordering (connect_attrs s d) = None \<and> attr_done (connect_attrs s d) = None"
  by (induction s arbitrary: d) (auto simp: attrs_defs)

section \<open>Withdrawing the losers of a select\<close>

text \<open>The nodes taken back by the cancel handles that a run has called.\<close>

definition withdrawn :: "csig list \<Rightarrow> ('r, 'e, 'v, 'd) par_run \<Rightarrow> nat list" where
  "withdrawn sigs c = concat (map (\<lambda>i. try_cancel (emit_handle (connect_attrs (sigs ! i) None))) (cancelled_handles (object c)))"

definition case_orderings :: "csig list \<Rightarrow> u64 option list" where
  "case_orderings sigs = map (\<lambda>s. attr_ordering (connect_attrs s None)) sigs"

text \<open>Two cases of the same kind, the second of which loses but answers with a value.\<close>

definition ex_late :: "(nat, unit, nat, unit) par_run option" where
  "ex_late = par_moves 2 (case_slot 2 ex_functor) (Some (set_value_skip_done 2 ex_functor))
     [Emit, Emit, Emit, Task, Answer 0 (Set_value 3), Answer 1 (Set_value 7), Callback 0, Callback 0, Callback 0, Callback 0,
      Callback 1, Callback 1, Callback 1, Task, Task] (run_init (select_emit [None, None]))"

lemma ex_late_end:
  "map_option (\<lambda>c. (slot_calls (object c), answers c 0, answers c 1, cancelled_handles (object c))) ex_late =
     Some ([Set_value 3], Some (Set_value 3), Some (Set_value 7), [1])"
  by code_simp

definition ex_late_end_run :: "(nat, unit, nat, unit) par_run" where
  "ex_late_end_run = the ex_late"

definition ex_sigs :: "csig list" where
  "ex_sigs = [Transformed (Channel_op_signal 3 64), Boxed (Channel_op_signal 4 128)]"

lemma ex_sigs_length: "length ex_sigs = 2" "ex_sigs \<noteq> []"
  by (simp_all add: ex_sigs_def)

lemma ex_late_reachable: "select_reachable (case_orderings ex_sigs) ex_functor ex_late_end_run"
proof -
  have o: "case_orderings ex_sigs = [None, None]" by (simp add: case_orderings_def ex_sigs_def attrs_defs)
  have "ex_late \<noteq> None" by code_simp
  then have "ex_late = Some ex_late_end_run" unfolding ex_late_end_run_def by (metis option.collapse)
  then have "par_reachable 2 (case_slot 2 ex_functor) (Some (set_value_skip_done 2 ex_functor)) (select_emit [None, None]) ex_late_end_run"
    unfolding ex_late_def by (rule par_moves_reachable)
  then show ?thesis unfolding select_reachable_def o by (simp only: list.size numeral_2_eq_2 add_0_right add_Suc_right)
qed

lemma ex_late_facts:
  "slot_calls (object ex_late_end_run) = [Set_value 3]" "answers ex_late_end_run 0 = Some (Set_value 3)"
  "answers ex_late_end_run 1 = Some (Set_value 7)" "cancelled_handles (object ex_late_end_run) = [1]"
  by code_simp+

lemma ex_late_ended: "par_ended 2 ex_late_end_run"
proof -
  have "deletions (object ex_late_end_run) = 1" by code_simp
  moreover have "length (case_orderings ex_sigs) = 2" by (simp add: case_orderings_def ex_sigs_def)
  ultimately show ?thesis
    using sel.deleted_last [OF select_reachableD [OF ex_late_reachable] select_emission] by simp
qed

section \<open>Properties\<close>

text \<open>
  C37: The losers of a select are withdrawn from their channels. When a select in which some case answered a value is
  over, the nodes on which \<open>try_cancel\<close> was called are exactly those behind the losing cases, through any number of
  transformations and boxes; cases behind \<open>force\<close>, \<open>share\<close>, \<open>all\<close>, \<open>any\<close> or another \<open>select\<close> are not. Yet only a channel's own signal,
  at most continued on an executor, is ordered and tied to the select's word. Two transformed ones are neither: both can
  take a value from their channels, and the select passes on one of them and drops the other.
\<close>

theorem select_withdraws_losers:
  assumes "select_reachable (case_orderings sigs) case_functor c" "sigs \<noteq> []" "length sigs < 2 ^ 32"
    and "par_ended (length sigs) c" "i < length sigs" "answers c i = Some (Set_value v)"
  shows "(\<exists>w v. w < length sigs \<and> answers c w = Some (Set_value v) \<and> slot_calls (object c) = [Set_value (case_functor w v)] \<and>
      set (withdrawn sigs c) = {n. \<exists>j address direct. j < length sigs \<and> j \<noteq> w \<and> made_of (sigs ! j) n address direct}) \<and>
    (\<forall>n address direct d. made_of (sigs ! i) n address direct \<longrightarrow>
      case_orderings sigs ! i = (if direct then Some address else None) \<and>
      attr_done (connect_attrs (sigs ! i) d) = (if direct then d else None)) \<and>
    (\<exists>c. select_reachable (case_orderings [Transformed (Channel_op_signal 3 64), Boxed (Channel_op_signal 4 128)]) ex_functor c \<and>
      answers c 0 = Some (Set_value 3) \<and> answers c 1 = Some (Set_value 7) \<and> slot_calls (object c) = [Set_value 3] \<and> par_ended 2 c)"
proof -
  have l: "length (case_orderings sigs) = length sigs" by (simp add: case_orderings_def)
  note r = select_reachableD [OF assms(1), unfolded l] select_emission [of "case_orderings sigs", unfolded l]
  have n: "0 < length sigs" using assms(2) by simp
  have "\<not> lost (length sigs) is_value (answers c)" using assms(5,6) unfolding lost_def by force
  then obtain w a where w: "w < length sigs" "answers c w = Some a" "is_value a" "slot_calls (object c) = [select_call case_functor w a]"
    "cancelled_handles (object c) = filter (\<lambda>i. i \<noteq> w) [0..<length sigs]"
    using sel.cancels(2) [OF r n assms(3,4)] by blast
  have t: "n \<in> set (try_cancel (emit_handle (connect_attrs s None))) \<longleftrightarrow> (\<exists>address direct. made_of s n address direct)" for n s
  proof (cases "\<exists>m address direct. made_of s m address direct")
    case True
    then obtain m address direct where m: "made_of s m address direct" by blast
    have "n = m" if "made_of s n a d" for a d
      using made_of_attrs [OF that, of None] made_of_attrs [OF m, of None] by simp
    then show ?thesis using made_of_attrs [OF m, of None] m by auto
  next
    case False
    then show ?thesis using not_made_of_attrs [of s None] by simp
  qed
  have "set (withdrawn sigs c) = {n. \<exists>j address direct. j < length sigs \<and> j \<noteq> w \<and> made_of (sigs ! j) n address direct}"
    unfolding withdrawn_def w(5) by (simp add: t set_eq_iff)
  moreover obtain x where x: "a = Set_value x" using w(3) by (auto simp: is_value_iff)
  moreover have "slot_calls (object c) = [Set_value (case_functor w x)]" using w(4) x by simp
  ultimately have 1: "\<exists>w v. w < length sigs \<and> answers c w = Some (Set_value v) \<and> slot_calls (object c) = [Set_value (case_functor w v)] \<and>
      set (withdrawn sigs c) = {n. \<exists>j address direct. j < length sigs \<and> j \<noteq> w \<and> made_of (sigs ! j) n address direct}"
    using w(1,2) by blast
  have 2: "\<forall>n address direct d. made_of (sigs ! i) n address direct \<longrightarrow>
      case_orderings sigs ! i = (if direct then Some address else None) \<and>
      attr_done (connect_attrs (sigs ! i) d) = (if direct then d else None)"
    using made_of_attrs assms(5) by (simp add: case_orderings_def)
  show ?thesis
    using 1 2 ex_late_reachable [unfolded ex_sigs_def] ex_late_facts(1-3) ex_late_ended by blast
qed

theorem select_withdraws_losers_witness:
  "set (withdrawn ex_sigs ex_late_end_run) = {4} \<and> slot_calls (object ex_late_end_run) = [Set_value 3]"
proof -
  have "\<exists>w v. w < 2 \<and> answers ex_late_end_run w = Some (Set_value v) \<and> slot_calls (object ex_late_end_run) = [Set_value (ex_functor w v)]"
    using select_withdraws_losers [OF ex_late_reachable _ _ _ _ ex_late_facts(2)] ex_late_ended ex_sigs_length by auto
  moreover have "withdrawn ex_sigs ex_late_end_run = [4]" by (simp add: withdrawn_def ex_late_facts ex_sigs_def attrs_defs)
  ultimately show ?thesis using ex_late_facts by simp
qed

end
