(* ===== verification/Signals.thy ===== *)
theory Signals
  imports Slot_Model
begin

text \<open>
  Signals and their transformations: \<^verbatim>\<open>algo/make/{result,schedule}.hpp\<close>, \<^verbatim>\<open>algo/sched/on.hpp\<close>,
  \<^verbatim>\<open>algo/tf/seq/*.hpp\<close>, \<^verbatim>\<open>algo/tf/type/{box,query_executor}.hpp\<close> and \<^verbatim>\<open>algo/emit/{get,detach,subscribe}.hpp\<close>.

  A signal is an executor and what emitting its connection does once a slot is subscribed. A slot is
  the continuation of its three calls. What a computation then does is a tree, \<open>outcome\<close>: it ends in
  an observation (\<open>Observed\<close>), or puts a task on an executor, which later either executes or cancels
  it (\<open>Scheduled\<close>), or ends without calling anybody (\<open>Dropped\<close>, where the source gives up after a
  failed \<open>ASSERT\<close>). Executors are the inline one, which executes at once, and others by number.
\<close>

section \<open>Slots, signals, executors\<close>

datatype exec_id = Inline_executor | Executor nat

datatype 'o outcome = Observed 'o | Dropped | Scheduled nat "'o outcome" "'o outcome"

type_synonym ('v, 'e, 'o) slot = "('v, 'e) slot_call \<Rightarrow> 'o outcome"

record ('v, 'e, 'o) signal =
  get_executor :: exec_id
  connect :: "('v, 'e, 'o) slot \<Rightarrow> 'o outcome"

text \<open>\<open>executor::schedule\<close>, given what the task's \<open>execute\<close> and \<open>cancel\<close> do.\<close>

definition exec_schedule :: "exec_id \<Rightarrow> 'o outcome \<Rightarrow> 'o outcome \<Rightarrow> 'o outcome" where
  "exec_schedule ex execute cancel = (case ex of
     Inline_executor \<Rightarrow> execute
   | Executor n \<Rightarrow> Scheduled n execute cancel)"

section \<open>Making signals\<close>

definition result_signal :: "('v, 'e) maybe_result \<Rightarrow> ('v, 'e, 'o) signal" where
  "result_signal maybe_result =
     \<lparr>get_executor = Inline_executor, connect = (\<lambda>slot. slot (fulfill_slot maybe_result))\<rparr>"

definition value_as_signal :: "'v \<Rightarrow> ('v, 'e, 'o) signal" where
  "value_as_signal value = result_signal (Some (Inr value))"

definition error_as_signal :: "'e \<Rightarrow> (unit, 'e, 'o) signal" where
  "error_as_signal error = result_signal (Some (Inl error))"

definition null_as_signal :: "('v, 'e, 'o) signal" where
  "null_as_signal = result_signal None"

definition call_of :: "('v, 'e) result \<Rightarrow> ('v, 'e) slot_call" where
  "call_of result = (case result of Inr v \<Rightarrow> Set_value v | Inl e \<Rightarrow> Set_error e)"

definition schedule_execute :: "(unit \<Rightarrow> ('v, 'e) result) \<Rightarrow> ('v, 'e, 'o) slot \<Rightarrow> 'o outcome" where
  "schedule_execute f slot = (let result = f () in slot (call_of result))"

definition schedule_signal :: "exec_id \<Rightarrow> (unit \<Rightarrow> ('v, 'e) result) \<Rightarrow> ('v, 'e, 'o) signal" where
  "schedule_signal ex f =
     \<lparr>get_executor = Inline_executor,
      connect = (\<lambda>slot. exec_schedule ex (schedule_execute f slot) (slot Set_null))\<rparr>"

definition continue_on :: "exec_id \<Rightarrow> ('v, 'e, 'o) signal \<Rightarrow> ('v, 'e, 'o) signal" where
  "continue_on ex s = \<lparr>get_executor = ex, connect = connect s\<rparr>"

definition start_on :: "exec_id \<Rightarrow> (unit, 'e, 'o) signal" where
  "start_on ex = continue_on ex (value_as_signal ())"

section \<open>Transformations\<close>

definition map_execute :: "('v \<Rightarrow> 'w) \<Rightarrow> ('w, 'e, 'o) slot \<Rightarrow> 'v option \<Rightarrow> 'o outcome" where
  "map_execute f slot maybe_value = (case maybe_value of
     None \<Rightarrow> Dropped
   | Some v \<Rightarrow> let value = f v in slot (Set_value value))"

definition map_slot :: "('v \<Rightarrow> 'w) \<Rightarrow> exec_id \<Rightarrow> ('w, 'e, 'o) slot \<Rightarrow> ('v, 'e, 'o) slot" where
  "map_slot f ex slot call = (case call of
     Set_value v \<Rightarrow> let maybe_value = Some v in exec_schedule ex (map_execute f slot maybe_value) (slot Set_null)
   | Set_error e \<Rightarrow> slot (Set_error e)
   | Set_null \<Rightarrow> slot Set_null)"

definition map_signal :: "('v \<Rightarrow> 'w) \<Rightarrow> ('v, 'e, 'o) signal \<Rightarrow> ('w, 'e, 'o) signal" where
  "map_signal f s =
     \<lparr>get_executor = get_executor s, connect = (\<lambda>slot. connect s (map_slot f (get_executor s) slot))\<rparr>"

definition map_error_execute :: "('e \<Rightarrow> 'f) \<Rightarrow> ('v, 'f, 'o) slot \<Rightarrow> 'e option \<Rightarrow> 'o outcome" where
  "map_error_execute f slot maybe_error = (case maybe_error of
     None \<Rightarrow> Dropped
   | Some e \<Rightarrow> let error = f e in slot (Set_error error))"

definition map_error_slot :: "('e \<Rightarrow> 'f) \<Rightarrow> exec_id \<Rightarrow> ('v, 'f, 'o) slot \<Rightarrow> ('v, 'e, 'o) slot" where
  "map_error_slot f ex slot call = (case call of
     Set_value v \<Rightarrow> slot (Set_value v)
   | Set_error e \<Rightarrow> let maybe_error = Some e in exec_schedule ex (map_error_execute f slot maybe_error) (slot Set_null)
   | Set_null \<Rightarrow> slot Set_null)"

definition map_error_signal :: "('e \<Rightarrow> 'f) \<Rightarrow> ('v, 'e, 'o) signal \<Rightarrow> ('v, 'f, 'o) signal" where
  "map_error_signal f s =
     \<lparr>get_executor = get_executor s, connect = (\<lambda>slot. connect s (map_error_slot f (get_executor s) slot))\<rparr>"

definition and_then_execute :: "('v \<Rightarrow> ('w, 'e) result) \<Rightarrow> ('w, 'e, 'o) slot \<Rightarrow> 'v option \<Rightarrow> 'o outcome" where
  "and_then_execute f slot maybe_value = (case maybe_value of
     None \<Rightarrow> Dropped
   | Some v \<Rightarrow> let result = f v in slot (case result of Inr w \<Rightarrow> Set_value w | Inl e \<Rightarrow> Set_error e))"

definition and_then_slot :: "('v \<Rightarrow> ('w, 'e) result) \<Rightarrow> exec_id \<Rightarrow> ('w, 'e, 'o) slot \<Rightarrow> ('v, 'e, 'o) slot" where
  "and_then_slot f ex slot call = (case call of
     Set_value v \<Rightarrow> let maybe_value = Some v in exec_schedule ex (and_then_execute f slot maybe_value) (slot Set_null)
   | Set_error e \<Rightarrow> slot (Set_error e)
   | Set_null \<Rightarrow> slot Set_null)"

definition and_then_signal :: "('v \<Rightarrow> ('w, 'e) result) \<Rightarrow> ('v, 'e, 'o) signal \<Rightarrow> ('w, 'e, 'o) signal" where
  "and_then_signal f s =
     \<lparr>get_executor = get_executor s, connect = (\<lambda>slot. connect s (and_then_slot f (get_executor s) slot))\<rparr>"

definition or_else_execute :: "('e \<Rightarrow> ('v, 'f) result) \<Rightarrow> ('v, 'f, 'o) slot \<Rightarrow> 'e option \<Rightarrow> 'o outcome" where
  "or_else_execute f slot maybe_error = (case maybe_error of
     None \<Rightarrow> Dropped
   | Some e \<Rightarrow> let result = f e in slot (case result of Inr v \<Rightarrow> Set_value v | Inl e' \<Rightarrow> Set_error e'))"

definition or_else_slot :: "('e \<Rightarrow> ('v, 'f) result) \<Rightarrow> exec_id \<Rightarrow> ('v, 'f, 'o) slot \<Rightarrow> ('v, 'e, 'o) slot" where
  "or_else_slot f ex slot call = (case call of
     Set_value v \<Rightarrow> slot (Set_value v)
   | Set_error e \<Rightarrow> let maybe_error = Some e in exec_schedule ex (or_else_execute f slot maybe_error) (slot Set_null)
   | Set_null \<Rightarrow> slot Set_null)"

definition or_else_signal :: "('e \<Rightarrow> ('v, 'f) result) \<Rightarrow> ('v, 'e, 'o) signal \<Rightarrow> ('v, 'f, 'o) signal" where
  "or_else_signal f s =
     \<lparr>get_executor = get_executor s, connect = (\<lambda>slot. connect s (or_else_slot f (get_executor s) slot))\<rparr>"

text \<open>\<open>flatten\<close>: a value that is a signal is connected to the slot and emitted at once.\<close>

definition flatten_inner_slot :: "('v, 'e, 'o) slot \<Rightarrow> ('v, 'e, 'o) slot" where
  "flatten_inner_slot slot call = (case call of
     Set_value v \<Rightarrow> slot (Set_value v) | Set_error e \<Rightarrow> slot (Set_error e) | Set_null \<Rightarrow> slot Set_null)"

definition flatten_slot :: "('v, 'e, 'o) slot \<Rightarrow> (('v, 'e, 'o) signal, 'e, 'o) slot" where
  "flatten_slot slot call = (case call of
     Set_value s \<Rightarrow> connect s (flatten_inner_slot slot)
   | Set_error e \<Rightarrow> slot (Set_error e)
   | Set_null \<Rightarrow> slot Set_null)"

definition flatten_signal :: "(('v, 'e, 'o) signal, 'e, 'o) signal \<Rightarrow> ('v, 'e, 'o) signal" where
  "flatten_signal s = \<lparr>get_executor = get_executor s, connect = (\<lambda>slot. connect s (flatten_slot slot))\<rparr>"

definition query_executor_slot ::
  "exec_id \<Rightarrow> ('v \<times> exec_id, 'e \<times> exec_id, 'o) slot \<Rightarrow> ('v, 'e, 'o) slot" where
  "query_executor_slot ex slot call = (case call of
     Set_value v \<Rightarrow> slot (Set_value (v, ex))
   | Set_error e \<Rightarrow> slot (Set_error (e, ex))
   | Set_null \<Rightarrow> slot Set_null)"

definition query_executor_signal :: "('v, 'e, 'o) signal \<Rightarrow> ('v \<times> exec_id, 'e \<times> exec_id, 'o) signal" where
  "query_executor_signal s =
     \<lparr>get_executor = get_executor s, connect = (\<lambda>slot. connect s (query_executor_slot (get_executor s) slot))\<rparr>"

text \<open>\<open>box\<close> erases the type of a signal: its slot turns each call into a result for a callback.\<close>

definition box_slot :: "(('v, 'e) maybe_result \<Rightarrow> 'o outcome) \<Rightarrow> ('v, 'e, 'o) slot" where
  "box_slot cb call = (case call of
     Set_value v \<Rightarrow> cb (Some (Inr v)) | Set_error e \<Rightarrow> cb (Some (Inl e)) | Set_null \<Rightarrow> cb None)"

definition box_connection_set_result :: "('v, 'e, 'o) slot \<Rightarrow> ('v, 'e) maybe_result \<Rightarrow> 'o outcome" where
  "box_connection_set_result slot maybe_result = slot (fulfill_slot maybe_result)"

definition box_signal :: "('v, 'e, 'o) signal \<Rightarrow> ('v, 'e, 'o) signal" where
  "box_signal s =
     \<lparr>get_executor = get_executor s, connect = (\<lambda>slot. connect s (box_slot (box_connection_set_result slot)))\<rparr>"

definition pipe :: "'s \<Rightarrow> ('s \<Rightarrow> 't) \<Rightarrow> 't" where
  "pipe s continuation = continuation s"

section \<open>Consumers\<close>

text \<open>\<open>get\<close> observes its local \<open>maybe_result\<close> and whether the event was set.\<close>

definition get_slot :: "('v, 'e, ('v, 'e) maybe_result \<times> bool) slot" where
  "get_slot call = (case call of
     Set_value v \<Rightarrow> Observed (Some (Inr v), True)
   | Set_error e \<Rightarrow> Observed (Some (Inl e), True)
   | Set_null \<Rightarrow> Observed (None, True))"

definition get :: "('v, 'e, ('v, 'e) maybe_result \<times> bool) signal \<Rightarrow> (('v, 'e) maybe_result \<times> bool) outcome" where
  "get s = connect s get_slot"

text \<open>\<open>detach\<close> observes the deletion of its heap-allocated connection; \<open>subscribe\<close> nothing.\<close>

datatype deletion = Deleted_self

definition detach_slot :: "('v, 'e, deletion) slot" where
  "detach_slot call = (case call of
     Set_value _ \<Rightarrow> Observed Deleted_self | Set_error _ \<Rightarrow> Observed Deleted_self | Set_null \<Rightarrow> Observed Deleted_self)"

definition detach :: "('v, 'e, deletion) signal \<Rightarrow> deletion outcome" where
  "detach s = connect s detach_slot"

definition subscribe :: "('v, 'e, unit) signal \<Rightarrow> unit outcome" where
  "subscribe s = connect s (\<lambda>_. Observed ())"

section \<open>Runs\<close>

text \<open>
  The executors decide for the tasks they get, one after the other, whether they execute or cancel
  them (\<open>d k\<close> for the \<open>k\<close>-th).
\<close>

primrec settle :: "(nat \<Rightarrow> bool) \<Rightarrow> nat \<Rightarrow> 'o outcome \<Rightarrow> 'o option" where
  "settle d k (Observed o1) = Some o1"
| "settle d k Dropped = None"
| "settle d k (Scheduled _ execute cancel) = (if d k then settle d (Suc k) execute else settle d (Suc k) cancel)"

end
