(* ===== verification/Pipelines.thy ===== *)
theory Pipelines
  imports Signals
begin

text \<open>
  A chain \<open>signal | stage | ... | get()\<close> of the transformations of \<open>Signals\<close> is equivalent to a
  function on results. \<open>stage\<close> lists the transformations with their arguments, \<open>apply_stage\<close> composes
  the source's signals, and \<open>stage_spec\<close> is the reference: it computes with results only, and with the
  number of tasks put on executors, each of which an executor may cancel instead of executing.
\<close>

section \<open>Chains\<close>

datatype ('v, 'e) stage =
  Map "'v \<Rightarrow> 'v"
| Map_error "'e \<Rightarrow> 'e"
| And_then "'v \<Rightarrow> ('v, 'e) result"
| Or_else "'e \<Rightarrow> ('v, 'e) result"
| Flatten "'v \<Rightarrow> ('v, 'e) maybe_result"
| Box
| Continue_on exec_id

primrec apply_stage :: "('v, 'e) stage \<Rightarrow> ('v, 'e, 'o) signal \<Rightarrow> ('v, 'e, 'o) signal" where
  "apply_stage (Map f) s = map_signal f s"
| "apply_stage (Map_error f) s = map_error_signal f s"
| "apply_stage (And_then f) s = and_then_signal f s"
| "apply_stage (Or_else f) s = or_else_signal f s"
| "apply_stage (Flatten f) s = flatten_signal (map_signal (\<lambda>v. result_signal (f v)) s)"
| "apply_stage Box s = box_signal s"
| "apply_stage (Continue_on ex) s = continue_on ex s"

definition pipeline :: "('v, 'e) maybe_result \<Rightarrow> ('v, 'e) stage list \<Rightarrow> ('v, 'e, 'o) signal" where
  "pipeline r stages = foldl pipe (result_signal r) (map apply_stage stages)"

section \<open>The reference\<close>

primrec stage_pure :: "('v, 'e) stage \<Rightarrow> ('v, 'e) maybe_result \<Rightarrow> ('v, 'e) maybe_result" where
  "stage_pure (Map f) r = (case r of Some (Inr v) \<Rightarrow> Some (Inr (f v)) | _ \<Rightarrow> r)"
| "stage_pure (Map_error f) r = (case r of Some (Inl e) \<Rightarrow> Some (Inl (f e)) | _ \<Rightarrow> r)"
| "stage_pure (And_then f) r = (case r of Some (Inr v) \<Rightarrow> Some (f v) | _ \<Rightarrow> r)"
| "stage_pure (Or_else f) r = (case r of Some (Inl e) \<Rightarrow> Some (f e) | _ \<Rightarrow> r)"
| "stage_pure (Flatten f) r = (case r of Some (Inr v) \<Rightarrow> f v | _ \<Rightarrow> r)"
| "stage_pure Box r = r"
| "stage_pure (Continue_on ex) r = r"

primrec has_work :: "('v, 'e) stage \<Rightarrow> ('v, 'e) maybe_result \<Rightarrow> bool" where
  "has_work (Map f) r = (\<exists>v. r = Some (Inr v))"
| "has_work (Map_error f) r = (\<exists>e. r = Some (Inl e))"
| "has_work (And_then f) r = (\<exists>v. r = Some (Inr v))"
| "has_work (Or_else f) r = (\<exists>e. r = Some (Inl e))"
| "has_work (Flatten f) r = (\<exists>v. r = Some (Inr v))"
| "has_work Box r = False"
| "has_work (Continue_on ex) r = False"

fun stage_spec :: "(nat \<Rightarrow> bool) \<Rightarrow> exec_id \<times> nat \<times> ('v, 'e) maybe_result \<Rightarrow> ('v, 'e) stage \<Rightarrow>
    exec_id \<times> nat \<times> ('v, 'e) maybe_result" where
  "stage_spec d (ex, k, r) st =
     (case st of Continue_on ex' \<Rightarrow> (ex', k, r)
      | _ \<Rightarrow> if has_work st r \<and> ex \<noteq> Inline_executor
             then (ex, Suc k, if d k then stage_pure st r else None)
             else (ex, k, stage_pure st r))"

definition pipeline_spec ::
  "(nat \<Rightarrow> bool) \<Rightarrow> ('v, 'e) maybe_result \<Rightarrow> ('v, 'e) stage list \<Rightarrow> exec_id \<times> nat \<times> ('v, 'e) maybe_result" where
  "pipeline_spec d r stages = foldl (stage_spec d) (Inline_executor, 0, r) stages"

section \<open>Equivalence\<close>

text \<open>A signal that hands a slot the result \<open>r\<close> after \<open>k\<close> tasks, and continues on \<open>ex\<close>.\<close>

definition hands :: "(nat \<Rightarrow> bool) \<Rightarrow> ('v, 'e, 'o) signal \<Rightarrow> exec_id \<times> nat \<times> ('v, 'e) maybe_result \<Rightarrow> bool" where
  "hands d s p \<longleftrightarrow> (case p of (ex, k, r) \<Rightarrow>
     get_executor s = ex \<and> (\<forall>slot. settle d 0 (connect s slot) = settle d k (slot (fulfill_slot r))))"

lemmas seq_slot_defs = map_signal_def map_slot_def map_execute_def map_error_signal_def map_error_slot_def
  map_error_execute_def and_then_signal_def and_then_slot_def and_then_execute_def or_else_signal_def
  or_else_slot_def or_else_execute_def flatten_signal_def flatten_slot_def flatten_inner_slot_def
  box_signal_def box_slot_def box_connection_set_result_def continue_on_def result_signal_def
  exec_schedule_def fulfill_slot_def Let_def

lemma result_signal_hands: "hands d (result_signal r) (Inline_executor, 0, r)"
  by (simp add: hands_def result_signal_def)

lemma apply_stage_hands:
  assumes "hands d s p"
  shows "hands d (apply_stage st s) (stage_spec d p st)"
proof -
  obtain ex k r where p: "p = (ex, k, r)" by (cases p)
  consider (null) "r = None" | (error) e where "r = Some (Inl e)" | (ok) v where "r = Some (Inr v)"
    by (metis option.exhaust sum.exhaust)
  then show ?thesis
    using assms
    by cases (cases st; cases ex; simp add: p hands_def seq_slot_defs split: option.split sum.split)+
qed

lemma pipeline_hands: "hands d (pipeline r stages) (pipeline_spec d r stages)"
proof (induction stages rule: rev_induct)
  case Nil
  then show ?case by (simp add: pipeline_def pipeline_spec_def result_signal_hands)
next
  case (snoc st stages)
  then show ?case using apply_stage_hands [of d _ _ st] by (simp add: pipeline_def pipeline_spec_def pipe_def)
qed

lemma hands_get: "hands d s (ex, k, r) \<Longrightarrow> settle d 0 (get s) = Some (r, True)"
  by (simp add: hands_def get_def get_slot_def fulfill_slot_def split: option.split sum.split)

lemma pipeline_settles: "settle d 0 (get (pipeline r stages)) = Some (snd (snd (pipeline_spec d r stages)), True)"
proof -
  obtain ex k r' where p: "pipeline_spec d r stages = (ex, k, r')" by (cases "pipeline_spec d r stages")
  show ?thesis using hands_get [OF pipeline_hands [of d r stages, unfolded p]] by (simp add: p)
qed

lemma pipeline_spec_pure:
  assumes "\<And>k. d k"
  shows "snd (snd (pipeline_spec d r stages)) = foldl (\<lambda>r st. stage_pure st r) r stages"
proof -
  have "snd (snd (foldl (stage_spec d) p stages)) = foldl (\<lambda>r st. stage_pure st r) (snd (snd p)) stages" for p
  proof (induction stages arbitrary: p)
    case (Cons st stages)
    obtain ex k r where p: "p = (ex, k, r)" by (cases p)
    have "snd (snd (stage_spec d p st)) = stage_pure st (snd (snd p))"
      by (cases st) (simp_all add: p assms)
    then show ?case using Cons.IH [of "stage_spec d p st"] by simp
  qed simp
  then show ?thesis by (simp add: pipeline_spec_def)
qed

definition ex_stages :: "(nat, nat) stage list" where
  "ex_stages = [Continue_on (Executor 1), Map (\<lambda>v. v + 1), And_then (\<lambda>v. if v < 9 then Inr (2 * v) else Inl v),
     Box, Or_else (\<lambda>e. Inr 0), Flatten (\<lambda>v. Some (Inr (v + 100)))]"

text \<open>
  C15: A chain of \<open>map\<close>, \<open>map_error\<close>, \<open>and_then\<close>, \<open>or_else\<close>, \<open>flatten\<close>, \<open>box\<close> and \<open>continue_on\<close> started
  from a result is equivalent to its reference: whatever the executors do with each task, execute or
  cancel it, \<open>get\<close> sees its event set once, with the result the reference computes. In particular the
  slot is always called, and no assertion about a stored value fails. When no task is cancelled the
  executors do not matter: the chain computes the composition of its stages as functions on results.
\<close>

theorem pipeline_equivalence:
  "settle d 0 (get (pipeline r stages)) = Some (snd (snd (pipeline_spec d r stages)), True) \<and>
   ((\<forall>k. d k) \<longrightarrow> settle d 0 (get (pipeline r stages)) = Some (foldl (\<lambda>r st. stage_pure st r) r stages, True))"
  using pipeline_spec_pure [of d r stages] by (simp add: pipeline_settles)

theorem pipeline_equivalence_witness:
  "settle (\<lambda>_. True) 0 (get (pipeline (Some (Inr 3)) ex_stages)) = Some (Some (Inr 108), True)"
proof -
  have "settle (\<lambda>_. True) 0 (get (pipeline (Some (Inr 3)) ex_stages)) =
      Some (foldl (\<lambda>r st. stage_pure st r) (Some (Inr 3)) ex_stages, True)"
    using pipeline_equivalence [of "\<lambda>_. True" "Some (Inr 3)" ex_stages] by blast
  then show ?thesis by (simp add: ex_stages_def)
qed

lemma pipeline_cancelled_example:
  "settle (\<lambda>k. k \<noteq> 1) 0 (get (pipeline (Some (Inr 3)) ex_stages)) = Some (None, True)"
  using pipeline_settles [of "\<lambda>k. k \<noteq> 1" "Some (Inr 3)" ex_stages]
  by (simp add: ex_stages_def pipeline_spec_def)

end
