(* ===== verification/Force.thy ===== *)
theory Force
  imports Atomic_Prog Slot_Model
begin

text \<open>
  \<^verbatim>\<open>algo/emit/force.hpp\<close> and \<^verbatim>\<open>algo/make/contract.hpp\<close>. A forced signal starts at once and keeps its
  result in a heap-allocated storage until the consumer's callback arrives; whoever comes second
  delivers the result and deletes the storage. A contract is a forced signal together with a promise,
  whose result may come from any thread.

  The memory holds the storage (\<open>state\<close>, the result), the pointer \<open>callback_\<close> of the promise, and, as
  records of what happened, the results the callback received, the number of deletions of the storage
  and whether the storage was accessed after one.
\<close>

section \<open>Storage\<close>

datatype storage_state = State_empty | State_callback | State_result

record ('v, 'e) force_mem =
  storage :: storage_state
  stored_result :: "('v, 'e) maybe_result"
  promise_callback :: bool
  delivered :: "('v, 'e) maybe_result list"
  storage_deletions :: nat
  use_after_free :: bool

definition force_init :: "('v, 'e) force_mem" where
  "force_init = \<lparr>storage = State_empty, stored_result = None, promise_callback = True, delivered = [],
     storage_deletions = 0, use_after_free = False\<rparr>"

text \<open>An access to the storage.\<close>

definition on_storage :: "(('v, 'e) force_mem \<Rightarrow> 'a \<times> ('v, 'e) force_mem) \<Rightarrow> (('v, 'e) force_mem, 'a) prog" where
  "on_storage h = access (\<lambda>m. h (m\<lparr>use_after_free := use_after_free m \<or> 0 < storage_deletions m\<rparr>))"

definition deliver_and_delete :: "(('v, 'e) force_mem, unit) prog" where
  "deliver_and_delete =
     pbind (on_storage (\<lambda>m. ((), m\<lparr>delivered := delivered m @ [stored_result m]\<rparr>)))
       (\<lambda>_. on_storage (\<lambda>m. ((), m\<lparr>storage_deletions := storage_deletions m + 1\<rparr>)))"

definition storage_set_result :: "('v, 'e) maybe_result \<Rightarrow> (('v, 'e) force_mem, unit) prog" where
  "storage_set_result result =
     pbind (on_storage (\<lambda>m. ((), m\<lparr>stored_result := result\<rparr>))) (\<lambda>_.
     pbind (on_storage (\<lambda>m. (storage m, m\<lparr>storage := State_result\<rparr>))) (\<lambda>curr_state.
       if curr_state = State_empty then Ret ()
       else dassert (curr_state \<noteq> State_result) deliver_and_delete))"

definition storage_set_slot_callback :: "(('v, 'e) force_mem, unit) prog" where
  "storage_set_slot_callback =
     pbind (on_storage (\<lambda>m. (storage m, m))) (\<lambda>loaded.
       if loaded = State_empty
       then pbind (on_storage (\<lambda>m. if storage m = State_empty then (True, m\<lparr>storage := State_callback\<rparr>) else (False, m)))
         (\<lambda>ok. if ok then Ret () else deliver_and_delete)
       else deliver_and_delete)"

text \<open>The consumer: \<open>force_connection::emit\<close>, or the destruction of a signal or connection not emitted.\<close>

definition force_emit :: "(('v, 'e) force_mem, unit) prog" where
  "force_emit = storage_set_slot_callback"

definition force_destroy :: "(('v, 'e) force_mem, unit) prog" where
  "force_destroy = on_storage (\<lambda>m. ((), m\<lparr>storage_deletions := storage_deletions m + 1\<rparr>))"

section \<open>Promise\<close>

definition promise_set_result :: "('v, 'e) maybe_result \<Rightarrow> (('v, 'e) force_mem, unit) prog" where
  "promise_set_result maybe_result =
     pbind (access (\<lambda>m. (promise_callback m, m\<lparr>promise_callback := False\<rparr>))) (\<lambda>callback.
       dassert callback (storage_set_result maybe_result))"

definition promise_set :: "('v, 'e) slot_call \<Rightarrow> (('v, 'e) force_mem, unit) prog" where
  "promise_set c = (case c of
     Set_value value \<Rightarrow> promise_set_result (Some (Inr value))
   | Set_error error \<Rightarrow> promise_set_result (Some (Inl error))
   | Set_null \<Rightarrow> promise_set_result None)"

definition promise_finalize :: "(('v, 'e) force_mem, unit) prog" where
  "promise_finalize =
     pbind (access (\<lambda>m. (promise_callback m, m\<lparr>promise_callback := False\<rparr>))) (\<lambda>callback.
       if callback then storage_set_result None else Ret ())"

text \<open>A promise's life: fulfilled with a call, or not at all, and destroyed.\<close>

definition promise_life :: "('v, 'e) slot_call option \<Rightarrow> (('v, 'e) force_mem, unit) prog" where
  "promise_life c = (case c of
     None \<Rightarrow> promise_finalize
   | Some c \<Rightarrow> pbind (promise_set c) (\<lambda>_. promise_finalize))"

section \<open>Two threads\<close>

inductive two_threads :: "('m, unit) prog \<Rightarrow> ('m, unit) prog \<Rightarrow> 'm \<Rightarrow> ('m, unit) prog \<Rightarrow> ('m, unit) prog \<Rightarrow> 'm \<Rightarrow> bool"
  for p q m where
  threads_start: "two_threads p q m p q m"
| threads_left: "two_threads p q m (Step g) q' m' \<Longrightarrow> two_threads p q m (fst (g m')) q' (snd (g m'))"
| threads_right: "two_threads p q m p' (Step g) m' \<Longrightarrow> two_threads p q m p' (fst (g m')) (snd (g m'))"

section \<open>The states of the race\<close>

text \<open>What is left of the promise's and of the consumer's program.\<close>

datatype producing = P_start | P_store | P_exchange | P_deliver | P_delete | P_rest | P_over
datatype consuming = C_start | C_exchange | C_deliver | C_delete | C_over

definition promised :: "('v, 'e) slot_call option \<Rightarrow> ('v, 'e) maybe_result" where
  "promised c = (case c of None \<Rightarrow> None | Some c \<Rightarrow> maybe_result_of c)"

definition rest :: "('v, 'e) slot_call option \<Rightarrow> (('v, 'e) force_mem, unit) prog" where
  "rest c = (if c = None then Ret () else promise_finalize)"

definition delete_storage :: "(('v, 'e) force_mem, unit) prog" where
  "delete_storage = on_storage (\<lambda>m. ((), m\<lparr>storage_deletions := storage_deletions m + 1\<rparr>))"

definition exchange_result :: "(('v, 'e) force_mem, unit) prog" where
  "exchange_result = pbind (on_storage (\<lambda>m. (storage m, m\<lparr>storage := State_result\<rparr>))) (\<lambda>curr_state.
       if curr_state = State_empty then Ret ()
       else dassert (curr_state \<noteq> State_result) deliver_and_delete)"

fun producer :: "('v, 'e) slot_call option \<Rightarrow> producing \<Rightarrow> (('v, 'e) force_mem, unit) prog" where
  "producer c P_start = promise_life c"
| "producer c P_store = pbind (storage_set_result (promised c)) (\<lambda>_. rest c)"
| "producer c P_exchange = pbind exchange_result (\<lambda>_. rest c)"
| "producer c P_deliver = pbind deliver_and_delete (\<lambda>_. rest c)"
| "producer c P_delete = pbind delete_storage (\<lambda>_. rest c)"
| "producer c P_rest = rest c"
| "producer c P_over = Ret ()"

fun consumer :: "consuming \<Rightarrow> (('v, 'e) force_mem, unit) prog" where
  "consumer C_start = force_emit"
| "consumer C_exchange = pbind
     (on_storage (\<lambda>m. if storage m = State_empty then (True, m\<lparr>storage := State_callback\<rparr>) else (False, m)))
     (\<lambda>ok. if ok then Ret () else deliver_and_delete)"
| "consumer C_deliver = deliver_and_delete"
| "consumer C_delete = delete_storage"
| "consumer C_over = Ret ()"

definition seen :: "('v, 'e) force_mem \<Rightarrow> ('v, 'e) force_mem" where
  "seen m = m\<lparr>use_after_free := use_after_free m \<or> 0 < storage_deletions m\<rparr>"

lemma pbind_on_storage: "pbind (on_storage h) k = Step (\<lambda>m. (k (fst (h (seen m))), snd (h (seen m))))"
  by (simp add: on_storage_def access_def map_prod_def split_beta seen_def)

lemma pbind_access: "pbind (access h) k = Step (\<lambda>m. (k (fst (h m)), snd (h m)))"
  by (simp add: access_def map_prod_def split_beta)

lemma on_storage_Step: "on_storage h = Step (\<lambda>m. (Ret (fst (h (seen m))), snd (h (seen m))))"
  by (simp add: on_storage_def access_def map_prod_def split_beta seen_def)

lemmas race_defs = promise_life_def promise_set_def promise_set_result_def promise_finalize_def rest_def
  storage_set_result_def storage_set_slot_callback_def force_emit_def deliver_and_delete_def delete_storage_def
  exchange_result_def promised_def

text \<open>Where the two threads can be together, and what the memory then is.\<close>

definition race_inv where
  "race_inv c i j m \<longleftrightarrow> \<not> use_after_free m \<and> promise_callback m = (i = P_start) \<and>
     (i \<notin> {P_start, P_store} \<longrightarrow> stored_result m = promised c) \<and>
     (case storage m of
        State_empty \<Rightarrow> i \<in> {P_start, P_store, P_exchange} \<and> j \<in> {C_start, C_exchange} \<and>
          delivered m = [] \<and> storage_deletions m = 0
      | State_callback \<Rightarrow> i \<in> {P_start, P_store, P_exchange} \<and> j = C_over \<and>
          delivered m = [] \<and> storage_deletions m = 0
      | State_result \<Rightarrow>
          (i \<in> {P_rest, P_over} \<or> j = C_over \<and> i \<in> {P_deliver, P_delete}) \<and>
          delivered m = (if i = P_deliver \<or> j \<in> {C_start, C_exchange, C_deliver} then [] else [promised c]) \<and>
          storage_deletions m = (if i \<in> {P_deliver, P_delete} \<or> j \<noteq> C_over then 0 else 1))"

lemma seen_alive: "storage_deletions m = 0 \<Longrightarrow> \<not> use_after_free m \<Longrightarrow> seen m = m"
  by (simp add: seen_def)

lemma producer_step:
  assumes inv: "race_inv c i j m" and g: "producer c i = Step g"
  shows "\<exists>i'. fst (g m) = producer c i' \<and> race_inv c i' j (snd (g m))"
proof (cases i)
  case P_start
  have "fst (g m) = producer c P_store \<and> race_inv c P_store j (snd (g m))"
    using inv g unfolding P_start
    by (cases c; cases "the c")
      (auto simp: race_inv_def promise_life_def promise_set_def promise_set_result_def promise_finalize_def
        rest_def promised_def pbind_access pbind_assoc split: storage_state.splits)
  then show ?thesis by blast
next
  case P_store
  have "fst (g m) = producer c P_exchange \<and> race_inv c P_exchange j (snd (g m))"
    using inv g unfolding P_store
    by (auto simp: race_inv_def storage_set_result_def exchange_result_def pbind_assoc pbind_on_storage seen_alive
        split: storage_state.splits)
  then show ?thesis by blast
next
  case P_exchange
  show ?thesis
  proof (cases "storage m = State_empty")
    case True
    then have "fst (g m) = producer c P_rest \<and> race_inv c P_rest j (snd (g m))"
      using inv g unfolding P_exchange
      by (auto simp: race_inv_def exchange_result_def pbind_assoc pbind_on_storage seen_alive)
    then show ?thesis by blast
  next
    case False
    then have "storage m = State_callback" using inv unfolding P_exchange
      by (cases "storage m") (auto simp: race_inv_def)
    then have "fst (g m) = producer c P_deliver \<and> race_inv c P_deliver j (snd (g m))"
      using inv g unfolding P_exchange
      by (auto simp: race_inv_def exchange_result_def pbind_assoc pbind_on_storage seen_alive)
    then show ?thesis by blast
  qed
next
  case P_deliver
  have "fst (g m) = producer c P_delete \<and> race_inv c P_delete j (snd (g m))"
    using inv g unfolding P_deliver
    by (auto simp: race_inv_def deliver_and_delete_def delete_storage_def pbind_assoc pbind_on_storage seen_alive
        split: storage_state.splits)
  then show ?thesis by blast
next
  case P_delete
  have "fst (g m) = producer c P_rest \<and> race_inv c P_rest j (snd (g m))"
    using inv g unfolding P_delete
    by (auto simp: race_inv_def delete_storage_def pbind_assoc pbind_on_storage seen_alive
        split: storage_state.splits)
  then show ?thesis by blast
next
  case P_rest
  have "fst (g m) = producer c P_over \<and> race_inv c P_over j (snd (g m))"
    using inv g unfolding P_rest
    by (cases c) (auto simp: race_inv_def rest_def promise_finalize_def pbind_access split: storage_state.splits)
  then show ?thesis by blast
next
  case P_over
  then show ?thesis using g by simp
qed

lemma consumer_step:
  assumes inv: "race_inv c i j m" and g: "consumer j = Step g"
  shows "\<exists>j'. fst (g m) = consumer j' \<and> race_inv c i j' (snd (g m))"
proof (cases j)
  case C_start
  define j' where "j' = (if storage m = State_empty then C_exchange else C_deliver)"
  have "fst (g m) = consumer j' \<and> race_inv c i j' (snd (g m))"
    using inv g unfolding C_start j'_def
    by (auto simp: race_inv_def force_emit_def storage_set_slot_callback_def pbind_on_storage seen_alive
        split: storage_state.splits)
  then show ?thesis by blast
next
  case C_exchange
  define j' where "j' = (if storage m = State_empty then C_over else C_deliver)"
  have "fst (g m) = consumer j' \<and> race_inv c i j' (snd (g m))"
    using inv g unfolding C_exchange j'_def
    by (auto simp: race_inv_def pbind_on_storage seen_alive split: storage_state.splits)
  then show ?thesis by blast
next
  case C_deliver
  have "fst (g m) = consumer C_delete \<and> race_inv c i C_delete (snd (g m))"
    using inv g unfolding C_deliver
    by (auto simp: race_inv_def deliver_and_delete_def delete_storage_def pbind_on_storage seen_alive
        split: storage_state.splits)
  then show ?thesis by blast
next
  case C_delete
  have "fst (g m) = consumer C_over \<and> race_inv c i C_over (snd (g m))"
    using inv g unfolding C_delete
    by (auto simp: race_inv_def delete_storage_def on_storage_Step seen_alive split: storage_state.splits)
  then show ?thesis by blast
next
  case C_over
  then show ?thesis using g by simp
qed

lemma race:
  assumes "two_threads (promise_life c) force_emit force_init p q m"
  shows "\<exists>i j. p = producer c i \<and> q = consumer j \<and> race_inv c i j m"
  using assms
proof induction
  case threads_start
  then show ?case by (intro exI [of _ P_start] exI [of _ C_start]) (simp add: race_inv_def force_init_def)
next
  case (threads_left g q' m')
  then show ?case using producer_step by metis
next
  case (threads_right p' g m')
  then show ?case using consumer_step by metis
qed

lemma producer_not_Halt: "producer c i \<noteq> Halt x"
  by (cases i; cases c; cases "the c")
    (auto simp: race_defs pbind_on_storage pbind_access on_storage_Step)

lemma consumer_not_Halt: "consumer j \<noteq> Halt x"
  by (cases j) (auto simp: race_defs pbind_on_storage on_storage_Step)

lemma producer_Ret: "producer c i = Ret () \<Longrightarrow> i = P_over \<or> i = P_rest"
  by (cases i; cases c; cases "the c")
    (auto simp: race_defs pbind_on_storage pbind_access on_storage_Step)

lemma consumer_Ret: "consumer j = Ret () \<Longrightarrow> j = C_over"
  by (cases j) (auto simp: race_defs pbind_on_storage on_storage_Step)

lemma left_steps: "two_threads p q m p' q' m' \<Longrightarrow> two_threads p q m (fst (steps n p' m')) q' (snd (steps n p' m'))"
  by (induction n p' m' rule: steps.induct) (auto dest: threads_left)

lemma right_steps: "two_threads p q m p' q' m' \<Longrightarrow> two_threads p q m p' (fst (steps n q' m')) (snd (steps n q' m'))"
  by (induction n q' m' rule: steps.induct) (auto dest: threads_right)

section \<open>Properties\<close>

text \<open>
  C21: The race between a promise and the consumer of its future is safe. In every interleaving no
  assertion fails and the storage is not accessed after its deletion; the consumer's callback receives
  at most one result, the one the promise was fulfilled with, or null if it was destroyed unfulfilled;
  and when both threads have ended it has received it and the storage has been deleted once.
\<close>

theorem contract_delivers_once:
  assumes "two_threads (promise_life c) force_emit force_init p q m"
  shows "\<not> use_after_free m \<and> p \<noteq> Halt x \<and> q \<noteq> Halt x \<and>
    (delivered m = [] \<or> delivered m = [promised c]) \<and> storage_deletions m \<le> 1 \<and>
    (p = Ret () \<and> q = Ret () \<longrightarrow> delivered m = [promised c] \<and> storage_deletions m = 1)"
proof -
  obtain i j where p: "p = producer c i" "q = consumer j" and inv: "race_inv c i j m" using race [OF assms] by blast
  have "p = Ret () \<and> q = Ret () \<longrightarrow> (i = P_over \<or> i = P_rest) \<and> j = C_over"
    using producer_Ret consumer_Ret unfolding p by blast
  then show ?thesis using inv producer_not_Halt [of c i x] consumer_not_Halt [of j x] unfolding p
    by (auto simp: race_inv_def split: storage_state.splits if_splits)
qed

definition ex_race :: "nat \<Rightarrow> (nat, nat) force_mem" where
  "ex_race n = snd (steps n (promise_life (Some (Set_value 4))) (snd (steps 2 force_emit force_init)))"

theorem contract_delivers_once_witness:
  "\<not> use_after_free (ex_race 6) \<and> delivered (ex_race 6) = [Some (Inr 4)] \<and> storage_deletions (ex_race 6) = 1"
proof -
  let ?p = "promise_life (Some (Set_value (4 :: nat))) :: ((nat, nat) force_mem, unit) prog"
  have q: "fst (steps 2 force_emit (force_init :: (nat, nat) force_mem)) = Ret ()"
    by (simp add: race_defs pbind_on_storage seen_def force_init_def eval_nat_numeral)
  have p: "fst (steps 6 ?p (snd (steps 2 force_emit force_init))) = Ret ()"
    by (simp add: race_defs pbind_on_storage pbind_access pbind_assoc on_storage_Step seen_def force_init_def eval_nat_numeral)
  have "two_threads ?p force_emit force_init ?p (fst (steps 2 force_emit force_init)) (snd (steps 2 force_emit force_init))"
    by (rule right_steps [OF threads_start])
  from left_steps [OF this, of 6] have "two_threads ?p force_emit force_init (Ret ()) (Ret ()) (ex_race 6)"
    by (simp only: p q ex_race_def)
  then show ?thesis using contract_delivers_once by (fastforce simp: promised_def)
qed

text \<open>
  A future that is destroyed before its promise is fulfilled leaves the promise with a dangling
  storage: whatever the promise then does, be fulfilled or just be destroyed, it accesses the deleted
  storage. Destroyed afterwards, the storage is deleted once and not accessed again.
\<close>

theorem contract_future_dropped:
  fixes c :: "('v, 'e) slot_call option"
  shows "use_after_free (snd (run (promise_life c) (snd (run force_destroy force_init)))) \<and>
    (let m = snd (run force_destroy (snd (run (promise_life c) force_init)))
     in \<not> use_after_free m \<and> storage_deletions m = 1 \<and> delivered m = [])"
proof -
  have s: "run (on_storage h) m = (Inr (fst (h (seen m))), snd (h (seen m)))" for h and m :: "('v, 'e) force_mem"
    by (simp add: on_storage_Step)
  show ?thesis
    by (cases c; cases "the c")
      (simp_all add: race_defs pbind_on_storage pbind_access pbind_assoc s seen_def force_destroy_def force_init_def Let_def)
qed

end
