(* ===== verification/Share.thy ===== *)
theory Share
  imports Lf_Stack Slot_Model
begin

text \<open>
  \<^verbatim>\<open>algo/emit/share.hpp\<close> and \<^verbatim>\<open>algo/tf/par/fork.hpp\<close>: one signal serves many. The handles (signals, then
  connections) and the box hold counted references to a heap-allocated storage. The first handle
  that is emitted emits the shared signal; the handles emitted before its result arrives link their
  callbacks into a lock-free list whose head is the state word; the result serves them all and
  releases their references at once; a handle emitted later serves and releases itself.

  Handles are numbered below \<open>N\<close>; a handle is also its callback node. Each atomic action of a handle
  or of the producer of the result is a function on the state, and the interleavings are the step
  relation. The state records the results each slot received, how often the shared signal was
  emitted, the deletions of the storage and whether it was accessed after one.

  Walking a chain of nodes is a function \<open>visit\<close> of the library of intrusive lists; that it visits the
  nodes of a chain in order, reading a link before the node is served, is a hypothesis.
\<close>

section \<open>State\<close>

datatype share_word = W_empty | W_node nat | W_result

datatype share_phase =
  Sp_none | Sp_held | Sp_try | Sp_link share_word | Sp_cas share_word | Sp_start | Sp_linked
| Sp_direct | Sp_decref | Sp_served | Sp_dropped

datatype share_producer = Pr_idle | Pr_emitted | Pr_exchange | Pr_each "nat list" u32 | Pr_over

record ('v, 'e) share =
  refcount :: u32
  state_word :: share_word
  links :: "nat \<Rightarrow> nat option"
  shared_result :: "('v, 'e) maybe_result"
  box_alive :: bool
  handles :: "nat \<Rightarrow> share_phase"
  producer :: share_producer
  answers :: "nat \<Rightarrow> ('v, 'e) maybe_result list"
  internal_emits :: nat
  deletions :: nat
  touched_freed :: bool
  share_failed :: bool

definition share_init :: "('v, 'e) share" where
  "share_init = \<lparr>refcount = 1, state_word = W_empty, links = (\<lambda>_. None), shared_result = None, box_alive = True,
     handles = (\<lambda>_. Sp_none), producer = Pr_idle, answers = (\<lambda>_. []), internal_emits = 0, deletions = 0,
     touched_freed = False, share_failed = False\<rparr>"

definition touch :: "('v, 'e) share \<Rightarrow> ('v, 'e) share" where
  "touch s = s\<lparr>touched_freed := touched_freed s \<or> 0 < deletions s\<rparr>"

definition to_phase :: "nat \<Rightarrow> share_phase \<Rightarrow> ('v, 'e) share \<Rightarrow> ('v, 'e) share" where
  "to_phase i p s = s\<lparr>handles := (handles s)(i := p)\<rparr>"

definition answer :: "nat \<Rightarrow> ('v, 'e) share \<Rightarrow> ('v, 'e) share" where
  "answer i s = s\<lparr>answers := (answers s)(i := answers s i @ [shared_result s])\<rparr>"

section \<open>Reference count\<close>

definition share_incref :: "u32 \<Rightarrow> ('v, 'e) share \<Rightarrow> u32 \<times> ('v, 'e) share" where
  "share_incref diff s = (let prev = refcount s in (prev + diff, (touch s)\<lparr>refcount := prev + diff\<rparr>))"

definition share_decref :: "u32 \<Rightarrow> ('v, 'e) share \<Rightarrow> ('v, 'e) share" where
  "share_decref diff s =
     (let prev = refcount s; s = (touch s)\<lparr>refcount := prev - diff\<rparr>
      in if prev = diff then s\<lparr>deletions := deletions s + 1\<rparr> else s)"

section \<open>Actions of the handles\<close>

definition share_get_signal :: "nat \<Rightarrow> ('v, 'e) share \<Rightarrow> ('v, 'e) share" where
  "share_get_signal i s =
     (let (count, s) = share_incref 1 s; s = (if count > 1 then s else s\<lparr>share_failed := True\<rparr>)
      in to_phase i Sp_held s)"

definition share_box_drop :: "('v, 'e) share \<Rightarrow> ('v, 'e) share" where
  "share_box_drop s = (share_decref 1 s)\<lparr>box_alive := False\<rparr>"

text \<open>The destruction of a signal or connection that was not emitted.\<close>

definition share_drop :: "nat \<Rightarrow> ('v, 'e) share \<Rightarrow> ('v, 'e) share" where
  "share_drop i s = to_phase i Sp_dropped (share_decref 1 s)"

definition share_emit :: "nat \<Rightarrow> ('v, 'e) share \<Rightarrow> ('v, 'e) share" where
  "share_emit i s = to_phase i Sp_try s"

text \<open>What \<open>emit\<close> does with the state it found: the test of its loop.\<close>

definition emit_continue :: "nat \<Rightarrow> share_word \<Rightarrow> ('v, 'e) share \<Rightarrow> ('v, 'e) share" where
  "emit_continue i curr_state s = to_phase i (if curr_state = W_result then Sp_direct else Sp_link curr_state) s"

definition emit_try :: "nat \<Rightarrow> ('v, 'e) share \<Rightarrow> ('v, 'e) share" where
  "emit_try i s =
     (let s = touch s
      in if state_word s = W_empty then to_phase i Sp_start (s\<lparr>state_word := W_node i\<rparr>)
         else emit_continue i (state_word s) s)"

definition internal_connection_emit :: "nat \<Rightarrow> ('v, 'e) share \<Rightarrow> ('v, 'e) share" where
  "internal_connection_emit i s =
     to_phase i Sp_linked ((touch s)\<lparr>internal_emits := internal_emits s + 1, producer := Pr_emitted\<rparr>)"

definition pointer_of :: "share_word \<Rightarrow> nat option" where
  "pointer_of w = (case w of W_node j \<Rightarrow> Some j | _ \<Rightarrow> None)"

definition emit_link :: "nat \<Rightarrow> share_word \<Rightarrow> ('v, 'e) share \<Rightarrow> ('v, 'e) share" where
  "emit_link i curr_state s = to_phase i (Sp_cas curr_state) (s\<lparr>links := (links s)(i := pointer_of curr_state)\<rparr>)"

text \<open>The weak compare-exchange; it may fail spuriously.\<close>

definition emit_cas :: "nat \<Rightarrow> share_word \<Rightarrow> bool \<Rightarrow> ('v, 'e) share \<Rightarrow> ('v, 'e) share" where
  "emit_cas i curr_state spurious s =
     (let s = touch s
      in if state_word s = curr_state \<and> \<not> spurious then to_phase i Sp_linked (s\<lparr>state_word := W_node i\<rparr>)
         else emit_continue i (state_word s) s)"

definition emit_direct :: "nat \<Rightarrow> ('v, 'e) share \<Rightarrow> ('v, 'e) share" where
  "emit_direct i s = to_phase i Sp_decref (answer i (touch s))"

definition emit_decref :: "nat \<Rightarrow> ('v, 'e) share \<Rightarrow> ('v, 'e) share" where
  "emit_decref i s = to_phase i Sp_served (share_decref 1 s)"

section \<open>Actions of the producer: \<open>set_result\<close>\<close>

definition result_store :: "('v, 'e) maybe_result \<Rightarrow> ('v, 'e) share \<Rightarrow> ('v, 'e) share" where
  "result_store r s = (touch s)\<lparr>shared_result := r, producer := Pr_exchange\<rparr>"

definition result_exchange ::
  "((nat \<Rightarrow> nat option) \<Rightarrow> nat \<Rightarrow> nat list) \<Rightarrow> ('v, 'e) share \<Rightarrow> ('v, 'e) share" where
  "result_exchange visit s =
     (let curr_state = state_word s; s = (touch s)\<lparr>state_word := W_result\<rparr>
      in case curr_state of
           W_empty \<Rightarrow> s\<lparr>share_failed := True, producer := Pr_over\<rparr>
         | W_result \<Rightarrow> s\<lparr>share_failed := True, producer := Pr_over\<rparr>
         | W_node callback_list \<Rightarrow> s\<lparr>producer := Pr_each (visit (links s) callback_list) 0\<rparr>)"

definition result_serve :: "('v, 'e) share \<Rightarrow> ('v, 'e) share" where
  "result_serve s = (case producer s of
     Pr_each (i # rest) callback_count \<Rightarrow> (answer i (touch s))\<lparr>producer := Pr_each rest (callback_count + 1)\<rparr>
   | _ \<Rightarrow> s)"

definition result_release :: "('v, 'e) share \<Rightarrow> ('v, 'e) share" where
  "result_release s = (case producer s of
     Pr_each [] callback_count \<Rightarrow> (share_decref callback_count s)\<lparr>producer := Pr_over\<rparr>
   | _ \<Rightarrow> s)"

section \<open>Steps\<close>

text \<open>
  The moves of the clients, of the shared signal and of the memory are marked \<open>True\<close>: making,
  dropping and emitting handles, dropping the box, the arrival of the result, a spurious failure.
\<close>

inductive share_step ::
  "((nat \<Rightarrow> nat option) \<Rightarrow> nat \<Rightarrow> nat list) \<Rightarrow> nat \<Rightarrow> bool \<Rightarrow> ('v, 'e) share \<Rightarrow> ('v, 'e) share \<Rightarrow> bool"
  for visit N where
  sh_get: "box_alive s \<Longrightarrow> i < N \<Longrightarrow> handles s i = Sp_none \<Longrightarrow> share_step visit N True s (share_get_signal i s)"
| sh_box: "box_alive s \<Longrightarrow> share_step visit N True s (share_box_drop s)"
| sh_drop: "handles s i = Sp_held \<Longrightarrow> share_step visit N True s (share_drop i s)"
| sh_emit: "handles s i = Sp_held \<Longrightarrow> share_step visit N True s (share_emit i s)"
| sh_try: "handles s i = Sp_try \<Longrightarrow> share_step visit N False s (emit_try i s)"
| sh_start: "handles s i = Sp_start \<Longrightarrow> share_step visit N False s (internal_connection_emit i s)"
| sh_link: "handles s i = Sp_link w \<Longrightarrow> share_step visit N False s (emit_link i w s)"
| sh_cas: "handles s i = Sp_cas w \<Longrightarrow> share_step visit N spurious s (emit_cas i w spurious s)"
| sh_direct: "handles s i = Sp_direct \<Longrightarrow> share_step visit N False s (emit_direct i s)"
| sh_decref: "handles s i = Sp_decref \<Longrightarrow> share_step visit N False s (emit_decref i s)"
| sh_store: "producer s = Pr_emitted \<Longrightarrow> share_step visit N True s (result_store r s)"
| sh_exchange: "producer s = Pr_exchange \<Longrightarrow> share_step visit N False s (result_exchange visit s)"
| sh_serve: "producer s = Pr_each (i # rest) n \<Longrightarrow> share_step visit N False s (result_serve s)"
| sh_release: "producer s = Pr_each [] n \<Longrightarrow> share_step visit N False s (result_release s)"

definition share_reachable :: "((nat \<Rightarrow> nat option) \<Rightarrow> nat \<Rightarrow> nat list) \<Rightarrow> nat \<Rightarrow> ('v, 'e) share \<Rightarrow> bool" where
  "share_reachable visit N s \<longleftrightarrow> (\<lambda>s s'. \<exists>b. share_step visit N b s s')\<^sup>*\<^sup>* share_init s"

text \<open>\<open>fork\<close>: a box, a number of signals made of it, and the box dropped.\<close>

definition fork_n :: "nat \<Rightarrow> ('v, 'e) share \<Rightarrow> ('v, 'e) share" where
  "fork_n count s = share_box_drop (fold share_get_signal [0..<count] s)"

section \<open>The invariant\<close>

fun holds_ref :: "share_phase \<Rightarrow> bool" where
  "holds_ref p = (p = Sp_held \<or> p = Sp_try \<or> p = Sp_direct \<or> p = Sp_decref \<or>
     (case p of Sp_link _ \<Rightarrow> True | Sp_cas _ \<Rightarrow> True | _ \<Rightarrow> False))"

definition in_list :: "share_phase \<Rightarrow> bool" where
  "in_list p \<longleftrightarrow> p = Sp_start \<or> p = Sp_linked"

declare holds_ref.simps [simp del]

lemma holds_ref_simps [simp]:
  "holds_ref Sp_held" "holds_ref Sp_try" "holds_ref (Sp_link w)" "holds_ref (Sp_cas w)" "holds_ref Sp_direct"
  "holds_ref Sp_decref" "\<not> holds_ref Sp_none" "\<not> holds_ref Sp_start" "\<not> holds_ref Sp_linked"
  "\<not> holds_ref Sp_served" "\<not> holds_ref Sp_dropped"
  by (simp_all add: holds_ref.simps)

lemma in_list_simps [simp]:
  "in_list Sp_start" "in_list Sp_linked" "\<not> in_list Sp_none" "\<not> in_list Sp_held" "\<not> in_list Sp_try"
  "\<not> in_list (Sp_link w)" "\<not> in_list (Sp_cas w)" "\<not> in_list Sp_direct" "\<not> in_list Sp_decref"
  "\<not> in_list Sp_served" "\<not> in_list Sp_dropped"
  by (simp_all add: in_list_def)

text \<open>
  The references: the box's, those of the handles that are neither linked nor finished, and those of
  the linked handles until the producer releases them.
\<close>

definition references :: "nat \<Rightarrow> bool \<Rightarrow> (nat \<Rightarrow> share_phase) \<Rightarrow> bool \<Rightarrow> nat" where
  "references N box ph released = of_bool box + num N holds_ref ph + (if released then 0 else num N in_list ph)"

definition refs_of :: "nat \<Rightarrow> ('v, 'e) share \<Rightarrow> nat" where
  "refs_of N s = references N (box_alive s) (handles s) (producer s = Pr_over)"

definition count_inv :: "nat \<Rightarrow> ('v, 'e) share \<Rightarrow> bool" where
  "count_inv N s \<longleftrightarrow> unat (refcount s) = refs_of N s \<and> deletions s = of_bool (refcount s = 0) \<and>
     \<not> touched_freed s \<and> \<not> share_failed s \<and> internal_emits s = of_bool (producer s \<noteq> Pr_idle)"

definition list_inv :: "nat \<Rightarrow> ('v, 'e) share \<Rightarrow> bool" where
  "list_inv N s \<longleftrightarrow>
     num N (\<lambda>p. p = Sp_start) (handles s) = of_bool (producer s = Pr_idle \<and> state_word s \<noteq> W_empty) \<and>
     (case producer s of
        Pr_over \<Rightarrow> state_word s = W_result
      | Pr_each is n \<Rightarrow> state_word s = W_result \<and> distinct is \<and> (\<forall>i \<in> set is. i < N \<and> in_list (handles s i)) \<and>
          length is + unat n = num N in_list (handles s) \<and> 0 < num N in_list (handles s)
      | _ \<Rightarrow> state_word s \<noteq> W_result \<and> (producer s \<noteq> Pr_idle \<longrightarrow> state_word s \<noteq> W_empty) \<and>
          (\<exists>xs. chain (links s) (pointer_of (state_word s)) xs \<and> distinct xs \<and>
             set xs = {i. i < N \<and> in_list (handles s i)}))"

fun phase_ok :: "share_word \<Rightarrow> nat option \<Rightarrow> share_phase \<Rightarrow> bool" where
  "phase_ok word link (Sp_link w) = (word \<noteq> W_empty \<and> w \<noteq> W_empty \<and> w \<noteq> W_result)"
| "phase_ok word link (Sp_cas w) = (word \<noteq> W_empty \<and> w \<noteq> W_empty \<and> w \<noteq> W_result \<and> link = pointer_of w)"
| "phase_ok word link Sp_start = True"
| "phase_ok word link Sp_linked = True"
| "phase_ok word link Sp_dropped = True"
| "phase_ok word link Sp_none = (link = None)"
| "phase_ok word link Sp_held = (link = None)"
| "phase_ok word link Sp_try = (link = None)"
| "phase_ok word link _ = (word = W_result)"

definition phase_inv :: "nat \<Rightarrow> ('v, 'e) share \<Rightarrow> bool" where
  "phase_inv N s \<longleftrightarrow> (\<forall>i. (handles s i \<noteq> Sp_none \<longrightarrow> i < N) \<and> phase_ok (state_word s) (links s i) (handles s i))"

text \<open>A handle has been answered when it answered itself, or when the producer is past it.\<close>

definition answered :: "('v, 'e) share \<Rightarrow> nat \<Rightarrow> bool" where
  "answered s i \<longleftrightarrow> handles s i = Sp_decref \<or> handles s i = Sp_served \<or>
     in_list (handles s i) \<and> (case producer s of Pr_each is n \<Rightarrow> i \<notin> set is | Pr_over \<Rightarrow> True | _ \<Rightarrow> False)"

definition answer_inv :: "('v, 'e) share \<Rightarrow> bool" where
  "answer_inv s \<longleftrightarrow> (\<forall>i. answers s i = (if answered s i then [shared_result s] else []))"

definition share_inv :: "nat \<Rightarrow> ('v, 'e) share \<Rightarrow> bool" where
  "share_inv N s \<longleftrightarrow> count_inv N s \<and> list_inv N s \<and> phase_inv N s \<and> answer_inv s"

subsection \<open>Frames\<close>

lemma touch_frame [simp]:
  "refcount (touch s) = refcount s" "state_word (touch s) = state_word s" "links (touch s) = links s"
  "shared_result (touch s) = shared_result s" "box_alive (touch s) = box_alive s" "handles (touch s) = handles s"
  "producer (touch s) = producer s" "answers (touch s) = answers s" "internal_emits (touch s) = internal_emits s"
  "deletions (touch s) = deletions s" "share_failed (touch s) = share_failed s"
  "touched_freed (touch s) = (touched_freed s \<or> 0 < deletions s)"
  by (simp_all add: touch_def)

lemma to_phase_frame [simp]:
  "refcount (to_phase i p s) = refcount s" "state_word (to_phase i p s) = state_word s" "links (to_phase i p s) = links s"
  "shared_result (to_phase i p s) = shared_result s" "box_alive (to_phase i p s) = box_alive s"
  "handles (to_phase i p s) = (handles s)(i := p)" "producer (to_phase i p s) = producer s"
  "answers (to_phase i p s) = answers s" "internal_emits (to_phase i p s) = internal_emits s"
  "deletions (to_phase i p s) = deletions s" "touched_freed (to_phase i p s) = touched_freed s"
  "share_failed (to_phase i p s) = share_failed s"
  by (simp_all add: to_phase_def)

lemma answer_frame [simp]:
  "refcount (answer i s) = refcount s" "state_word (answer i s) = state_word s" "links (answer i s) = links s"
  "shared_result (answer i s) = shared_result s" "box_alive (answer i s) = box_alive s" "handles (answer i s) = handles s"
  "producer (answer i s) = producer s" "answers (answer i s) = (answers s)(i := answers s i @ [shared_result s])"
  "internal_emits (answer i s) = internal_emits s" "deletions (answer i s) = deletions s"
  "touched_freed (answer i s) = touched_freed s" "share_failed (answer i s) = share_failed s"
  by (simp_all add: answer_def)

lemma share_decref_frame [simp]:
  "refcount (share_decref d s) = refcount s - d" "state_word (share_decref d s) = state_word s"
  "links (share_decref d s) = links s" "shared_result (share_decref d s) = shared_result s"
  "box_alive (share_decref d s) = box_alive s" "handles (share_decref d s) = handles s"
  "producer (share_decref d s) = producer s" "answers (share_decref d s) = answers s"
  "internal_emits (share_decref d s) = internal_emits s" "share_failed (share_decref d s) = share_failed s"
  "deletions (share_decref d s) = deletions s + of_bool (refcount s = d)"
  "touched_freed (share_decref d s) = (touched_freed s \<or> 0 < deletions s)"
  by (simp_all add: share_decref_def Let_def)

lemma share_get_signal_frame [simp]:
  "refcount (share_get_signal i s) = refcount s + 1" "state_word (share_get_signal i s) = state_word s"
  "links (share_get_signal i s) = links s" "shared_result (share_get_signal i s) = shared_result s"
  "box_alive (share_get_signal i s) = box_alive s" "handles (share_get_signal i s) = (handles s)(i := Sp_held)"
  "producer (share_get_signal i s) = producer s" "answers (share_get_signal i s) = answers s"
  "internal_emits (share_get_signal i s) = internal_emits s" "deletions (share_get_signal i s) = deletions s"
  "share_failed (share_get_signal i s) = (share_failed s \<or> \<not> 1 < refcount s + 1)"
  "touched_freed (share_get_signal i s) = (touched_freed s \<or> 0 < deletions s)"
  by (simp_all add: share_get_signal_def share_incref_def Let_def)

subsection \<open>The reference count\<close>

text \<open>What a phase contributes.\<close>

definition weight :: "bool \<Rightarrow> share_phase \<Rightarrow> nat" where
  "weight released p = of_bool (holds_ref p) + (if released then 0 else of_bool (in_list p))"

lemma weight_simps [simp]:
  "weight r Sp_none = 0" "weight r Sp_held = 1" "weight r Sp_try = 1" "weight r (Sp_link w) = 1"
  "weight r (Sp_cas w) = 1" "weight r Sp_start = of_bool (\<not> r)" "weight r Sp_linked = of_bool (\<not> r)"
  "weight r Sp_direct = 1" "weight r Sp_decref = 1" "weight r Sp_served = 0" "weight r Sp_dropped = 0"
  by (simp_all add: weight_def)

lemma references_upd:
  assumes "i < N"
  shows "references N b (ph(i := x)) r + weight r (ph i) = references N b ph r + weight r x"
    and "of_bool b + weight r (ph i) \<le> references N b ph r"
proof -
  show "references N b (ph(i := x)) r + weight r (ph i) = references N b ph r + weight r x"
    using num_upd [OF assms, of holds_ref ph x] num_upd [OF assms, of in_list ph x]
    by (simp add: references_def weight_def)
  show "of_bool b + weight r (ph i) \<le> references N b ph r"
    using num_change(2) [where ph = ph and i = i and P = holds_ref, OF assms refl]
      num_change(2) [where ph = ph and i = i and P = in_list, OF assms refl]
    by (simp add: references_def weight_def)
qed

lemma references_keep [simp]:
  "i < N \<Longrightarrow> weight r (ph i) = weight r x \<Longrightarrow> references N b (ph(i := x)) r = references N b ph r"
  using references_upd(1) [of i N b ph x r] by simp

lemma references_give:
  "i < N \<Longrightarrow> weight r (ph i) = Suc (weight r x) \<Longrightarrow> references N b ph r = Suc (references N b (ph(i := x)) r)"
  using references_upd(1) [of i N b ph x r] by simp

lemma references_take:
  "i < N \<Longrightarrow> weight r x = Suc (weight r (ph i)) \<Longrightarrow> references N b (ph(i := x)) r = Suc (references N b ph r)"
  using references_upd(1) [of i N b ph x r] by simp

lemma references_le: "references N b ph r \<le> Suc N"
proof -
  have "num N holds_ref ph + num N in_list ph = num N (\<lambda>p. holds_ref p \<or> in_list p) ph"
    by (rule num_disjoint) (auto simp: in_list_def)
  then show ?thesis using num_le [of N "\<lambda>p. holds_ref p \<or> in_list p" ph] by (simp add: references_def)
qed

lemma alive: "count_inv N s \<Longrightarrow> 0 < refs_of N s \<Longrightarrow> deletions s = 0 \<and> refcount s \<noteq> 0"
  by (auto simp: count_inv_def)

lemma alive_handle:
  assumes "count_inv N s" "i < N" "0 < weight (producer s = Pr_over) (handles s i)"
  shows "deletions s = 0" "refcount s \<noteq> 0"
  using alive [OF assms(1)] assms(3)
    references_upd(2) [of i N "box_alive s" "producer s = Pr_over" "handles s", OF assms(2)]
  by (simp_all add: refs_of_def)

text \<open>A step that releases references.\<close>

lemma count_decref:
  assumes inv: "count_inv N s" and d: "0 < unat d" "refs_of N s' + unat d = refs_of N s"
    and f: "refcount s' = refcount s - d" "deletions s' = deletions s + of_bool (refcount s = d)"
      "touched_freed s' = (touched_freed s \<or> 0 < deletions s)" "share_failed s' = share_failed s"
      "internal_emits s' = internal_emits s" "(producer s' = Pr_idle) = (producer s = Pr_idle)"
  shows "count_inv N s'"
proof -
  have al: "deletions s = 0" using alive [OF inv] d by simp
  have le: "unat d \<le> unat (refcount s)" using inv d(2) by (simp add: count_inv_def)
  then have "unat (refcount s') = unat (refcount s) - unat d" by (simp add: f(1) unat_sub word_le_nat_alt)
  then show ?thesis using inv d al f by (simp add: count_inv_def)
qed

lemma count_get:
  assumes inv: "count_inv N s" and i: "box_alive s" "i < N" "handles s i = Sp_none" and N: "N + 1 < 2 ^ 32"
  shows "count_inv N (share_get_signal i s)"
proof -
  let ?r = "references N (box_alive s) ((handles s)(i := Sp_held)) (producer s = Pr_over)"
  have rf: "?r = Suc (refs_of N s)" using i by (simp add: refs_of_def references_take)
  have al: "deletions s = 0" "0 < unat (refcount s)"
    using alive [OF inv] i(1) inv by (simp_all add: refs_of_def references_def count_inv_def)
  have "?r \<le> Suc N" by (rule references_le)
  then have u: "unat (refcount s + 1) = Suc (unat (refcount s))"
    using rf inv N by (simp add: unat_word_ariths count_inv_def)
  have gt: "1 < refcount s + 1" using u al(2) by (simp add: word_less_nat_alt)
  have nz: "refcount s + 1 \<noteq> 0" using u by (metis nat.distinct(1) unat_eq_zero)
  show ?thesis using inv al u rf gt nz
    by (simp add: count_inv_def refs_of_def)
qed

lemma count_box: "count_inv N s \<Longrightarrow> box_alive s \<Longrightarrow> count_inv N (share_box_drop s)"
  by (erule count_decref [where d = 1]) (simp_all add: share_box_drop_def refs_of_def references_def)

lemma count_drop: "count_inv N s \<Longrightarrow> i < N \<Longrightarrow> handles s i = Sp_held \<Longrightarrow> count_inv N (share_drop i s)"
  by (erule count_decref [where d = 1])
    (simp_all add: share_drop_def refs_of_def references_give [where i = i and x = Sp_dropped])

lemma count_emit_decref: "count_inv N s \<Longrightarrow> i < N \<Longrightarrow> handles s i = Sp_decref \<Longrightarrow> count_inv N (emit_decref i s)"
  by (erule count_decref [where d = 1])
    (simp_all add: emit_decref_def refs_of_def references_give [where i = i and x = Sp_served])

lemma count_kept:
  assumes inv: "count_inv N s" and i: "i < N" "handles s i = p"
  shows "p = Sp_held \<Longrightarrow> count_inv N (share_emit i s)"
    and "p = Sp_try \<Longrightarrow> producer s \<noteq> Pr_over \<or> state_word s \<noteq> W_empty \<Longrightarrow> count_inv N (emit_try i s)"
    and "p = Sp_link w \<Longrightarrow> count_inv N (emit_link i w s)"
    and "p = Sp_cas w \<Longrightarrow> producer s \<noteq> Pr_over \<or> state_word s \<noteq> w \<Longrightarrow> count_inv N (emit_cas i w spurious s)"
    and "p = Sp_direct \<Longrightarrow> count_inv N (emit_direct i s)"
  using inv alive_handle [OF inv i(1)] i
  by (simp_all add: count_inv_def refs_of_def share_emit_def emit_try_def emit_link_def emit_cas_def emit_direct_def
      emit_continue_def Let_def) auto

lemma count_start:
  assumes "count_inv N s" "i < N" "handles s i = Sp_start" "producer s = Pr_idle"
  shows "count_inv N (internal_connection_emit i s)"
  using assms alive_handle [OF assms(1,2)]
  by (simp add: count_inv_def refs_of_def internal_connection_emit_def)

text \<open>While the list is not released its callbacks keep the storage alive.\<close>

lemma alive_list:
  assumes "count_inv N s" "producer s \<noteq> Pr_over" "i < N" "in_list (handles s i)"
  shows "deletions s = 0" "refcount s \<noteq> 0"
  using alive_handle [OF assms(1,3)] assms(2,4) by (simp_all add: weight_def)

lemma chain_head: "chain nxt (pointer_of w) xs \<Longrightarrow> w \<noteq> W_empty \<Longrightarrow> w \<noteq> W_result \<Longrightarrow> \<exists>ys. xs = the (pointer_of w) # ys"
  by (cases w; cases xs) (auto simp: pointer_of_def)

lemma waiting_list_alive:
  assumes "count_inv N s" "list_inv N s" "producer s \<in> {Pr_emitted, Pr_exchange}"
  shows "deletions s = 0" "refcount s \<noteq> 0"
proof -
  obtain xs where xs: "chain (links s) (pointer_of (state_word s)) xs"
    "set xs = {i. i < N \<and> in_list (handles s i)}" "state_word s \<noteq> W_empty" "state_word s \<noteq> W_result"
    using assms(2,3) by (auto simp: list_inv_def)
  have i: "the (pointer_of (state_word s)) \<in> set xs" using chain_head [OF xs(1,3,4)] by auto
  have p: "producer s \<noteq> Pr_over" using assms(3) by auto
  from i have "the (pointer_of (state_word s)) < N" "in_list (handles s (the (pointer_of (state_word s))))"
    unfolding xs(2) by simp_all
  from alive_list [OF assms(1) p this] show "deletions s = 0" "refcount s \<noteq> 0" by simp_all
qed

lemma serving_list_alive:
  assumes "count_inv N s" "list_inv N s" "producer s = Pr_each is n"
  shows "deletions s = 0" "refcount s \<noteq> 0"
proof -
  have "0 < num N in_list (handles s)" using assms(2,3) by (simp add: list_inv_def)
  then have "0 < refs_of N s" using assms(3) by (simp add: refs_of_def references_def)
  then show "deletions s = 0" "refcount s \<noteq> 0" using alive [OF assms(1)] by simp_all
qed

lemma count_store:
  assumes "count_inv N s" "list_inv N s" "producer s = Pr_emitted"
  shows "count_inv N (result_store r s)"
proof -
  have "deletions s = 0" using waiting_list_alive(1) [OF assms(1,2)] assms(3) by simp
  then show ?thesis using assms(1,3) by (simp add: count_inv_def refs_of_def result_store_def)
qed

lemma count_exchange:
  assumes "count_inv N s" "list_inv N s" "producer s = Pr_exchange"
  shows "count_inv N (result_exchange visit s)"
proof -
  obtain h where "state_word s = W_node h" using assms(2,3) by (cases "state_word s") (auto simp: list_inv_def)
  moreover have "deletions s = 0" using waiting_list_alive(1) [OF assms(1,2)] assms(3) by simp
  ultimately show ?thesis using assms(1,3) by (simp add: count_inv_def refs_of_def result_exchange_def)
qed

lemma count_serve:
  assumes "count_inv N s" "list_inv N s" "producer s = Pr_each (i # is) n"
  shows "count_inv N (result_serve s)"
  using assms(1,3) serving_list_alive(1) [OF assms] by (simp add: count_inv_def refs_of_def result_serve_def)

lemma count_release:
  assumes "count_inv N s" "list_inv N s" "producer s = Pr_each [] n"
  shows "count_inv N (result_release s)"
proof -
  have n: "unat n = num N in_list (handles s)" "0 < unat n" using assms(2,3) by (simp_all add: list_inv_def)
  have e: "result_release s = (share_decref n s)\<lparr>producer := Pr_over\<rparr>" using assms(3) by (simp add: result_release_def)
  show ?thesis unfolding e
    by (rule count_decref [OF assms(1) n(2)]) (use n(1) assms(3) in \<open>simp_all add: refs_of_def references_def\<close>)
qed

subsection \<open>The list of callbacks\<close>

text \<open>The handles in the list, as a list of the nodes of the chain.\<close>

definition listed :: "nat \<Rightarrow> ('v, 'e) share \<Rightarrow> nat list \<Rightarrow> bool" where
  "listed N s xs \<longleftrightarrow> chain (links s) (pointer_of (state_word s)) xs \<and> distinct xs \<and>
     set xs = {i. i < N \<and> in_list (handles s i)}"

lemma list_inv_waiting:
  assumes "producer s \<in> {Pr_idle, Pr_emitted, Pr_exchange}"
  shows "list_inv N s \<longleftrightarrow>
     num N (\<lambda>p. p = Sp_start) (handles s) = of_bool (producer s = Pr_idle \<and> state_word s \<noteq> W_empty) \<and>
     state_word s \<noteq> W_result \<and> (producer s \<noteq> Pr_idle \<longrightarrow> state_word s \<noteq> W_empty) \<and> (\<exists>xs. listed N s xs)"
  using assms unfolding list_inv_def listed_def by (cases "producer s") simp_all

lemma list_same:
  assumes inv: "list_inv N s"
    and ph: "\<And>i. in_list (handles s' i) = in_list (handles s i)" "\<And>i. (handles s' i = Sp_start) = (handles s i = Sp_start)"
    and f: "producer s' = producer s" "state_word s' = state_word s"
      "\<And>i. in_list (handles s i) \<Longrightarrow> links s' i = links s i"
  shows "list_inv N s'"
proof -
  have n: "num N in_list (handles s') = num N in_list (handles s)"
    "num N (\<lambda>p. p = Sp_start) (handles s') = num N (\<lambda>p. p = Sp_start) (handles s)"
    unfolding num_card ph by (rule refl)+
  show ?thesis
  proof (cases "producer s \<in> {Pr_idle, Pr_emitted, Pr_exchange}")
    case True
    note w = inv [unfolded list_inv_waiting [OF True]]
    then obtain xs where xs: "listed N s xs" by blast
    have "chain (links s') (pointer_of (state_word s)) xs = chain (links s) (pointer_of (state_word s)) xs"
      by (rule chain_cong) (use xs f(3) in \<open>simp add: listed_def\<close>)
    then have "listed N s' xs" using xs by (simp add: listed_def f ph)
    moreover have "producer s' \<in> {Pr_idle, Pr_emitted, Pr_exchange}" using True f(1) by simp
    note list_inv_waiting [OF this, of N]
    ultimately show ?thesis using w unfolding f n by blast
  next
    case False
    then show ?thesis using inv n by (cases "producer s") (simp_all add: list_inv_def f ph)
  qed
qed

text \<open>A handle that becomes the new head.\<close>

lemma list_push:
  assumes inv: "list_inv N s" and pr: "producer s \<in> {Pr_idle, Pr_emitted, Pr_exchange}"
    and i: "i < N" "\<not> in_list (handles s i)" "in_list x"
    and l: "links s i = pointer_of (state_word s)"
    and start: "num N (\<lambda>p. p = Sp_start) ((handles s)(i := x)) = of_bool (producer s = Pr_idle)"
    and s': "handles s' = (handles s)(i := x)" "state_word s' = W_node i" "links s' = links s" "producer s' = producer s"
  shows "list_inv N s'"
proof -
  obtain xs where xs: "listed N s xs" using inv pr by (auto simp: list_inv_waiting)
  have "listed N s' (i # xs)"
    using xs i l unfolding listed_def s' by (auto simp: pointer_of_def)
  then show ?thesis using pr start by (auto simp: list_inv_waiting s')
qed

lemma list_client:
  assumes "list_inv N s"
  shows "handles s i = Sp_none \<Longrightarrow> list_inv N (share_get_signal i s)"
    and "list_inv N (share_box_drop s)"
    and "handles s i = Sp_held \<Longrightarrow> list_inv N (share_drop i s)"
    and "handles s i = Sp_held \<Longrightarrow> list_inv N (share_emit i s)"
    and "handles s i = Sp_link w \<Longrightarrow> list_inv N (emit_link i w s)"
    and "handles s i = Sp_direct \<Longrightarrow> list_inv N (emit_direct i s)"
    and "handles s i = Sp_decref \<Longrightarrow> list_inv N (emit_decref i s)"
  by (rule list_same [OF assms];
      auto simp: share_box_drop_def share_drop_def share_emit_def emit_link_def emit_direct_def emit_decref_def; fail)+

lemma list_try:
  assumes inv: "list_inv N s" and i: "i < N" "handles s i = Sp_try" and l: "links s i = None"
  shows "list_inv N (emit_try i s)"
proof (cases "state_word s = W_empty")
  case True
  then have pr: "producer s = Pr_idle" using inv by (cases "producer s") (auto simp: list_inv_def)
  have "num N (\<lambda>p. p = Sp_start) (handles s) = 0" using inv True by (simp add: list_inv_def)
  then have "num N (\<lambda>p. p = Sp_start) ((handles s)(i := Sp_start)) = 1"
    using num_upd [OF i(1), of "\<lambda>p. p = Sp_start" "handles s" Sp_start] i(2) by simp
  then show ?thesis using True pr i l
    by (intro list_push [OF inv, where i = i and x = Sp_start]) (simp_all add: emit_try_def pointer_of_def)
next
  case False
  then show ?thesis using i by (intro list_same [OF inv]) (simp_all add: emit_try_def emit_continue_def)
qed

lemma list_cas:
  assumes inv: "list_inv N s" and i: "i < N" "handles s i = Sp_cas w"
    and w: "w \<noteq> W_empty" "w \<noteq> W_result" "links s i = pointer_of w"
  shows "list_inv N (emit_cas i w spurious s)"
proof (cases "state_word s = w \<and> \<not> spurious")
  case True
  then have pr: "producer s \<in> {Pr_idle, Pr_emitted, Pr_exchange}"
    using inv w by (cases "producer s") (auto simp: list_inv_def)
  have "num N (\<lambda>p. p = Sp_start) (handles s) = of_bool (producer s = Pr_idle)"
    using inv True w by (auto simp: list_inv_def)
  then have "num N (\<lambda>p. p = Sp_start) ((handles s)(i := Sp_linked)) = of_bool (producer s = Pr_idle)"
    using num_upd [OF i(1), of "\<lambda>p. p = Sp_start" "handles s" Sp_linked] i(2) by simp
  then show ?thesis using True pr i w
    by (intro list_push [OF inv, where i = i and x = Sp_linked]) (simp_all add: emit_cas_def)
next
  case False
  then have e: "emit_cas i w spurious s = emit_continue i (state_word s) (touch s)" by (auto simp: emit_cas_def)
  show ?thesis unfolding e using i by (intro list_same [OF inv]) (simp_all add: emit_continue_def)
qed

lemma list_start:
  assumes inv: "list_inv N s" and i: "i < N" "handles s i = Sp_start"
  shows "list_inv N (internal_connection_emit i s)" and "producer s = Pr_idle"
proof -
  have pos: "0 < num N (\<lambda>p. p = Sp_start) (handles s)" by (rule num_pos [where ph = "handles s" and i = i]) (use i in auto)
  then show pr: "producer s = Pr_idle" using inv by (simp add: list_inv_def split: if_splits)
  have st: "num N (\<lambda>p. p = Sp_start) (handles s) = 1" "state_word s \<noteq> W_empty"
    using inv pos by (auto simp: list_inv_def split: if_splits)
  then have "num N (\<lambda>p. p = Sp_start) ((handles s)(i := Sp_linked)) = 0"
    using num_upd [OF i(1), of "\<lambda>p. p = Sp_start" "handles s" Sp_linked] i(2) by simp
  moreover have idle: "producer s \<in> {Pr_idle, Pr_emitted, Pr_exchange}" using pr by simp
  note w = inv [unfolded list_inv_waiting [OF idle]]
  then obtain xs where xs: "listed N s xs" by blast
  have "in_list (((handles s)(i := Sp_linked)) j) = in_list (handles s j)" for j using i by simp
  then have "listed N (internal_connection_emit i s) xs"
    using xs unfolding listed_def internal_connection_emit_def by simp
  moreover have "producer (internal_connection_emit i s) \<in> {Pr_idle, Pr_emitted, Pr_exchange}"
    by (simp add: internal_connection_emit_def)
  note list_inv_waiting [OF this, of N]
  ultimately show "list_inv N (internal_connection_emit i s)"
    using w st(2) by (auto simp: internal_connection_emit_def)
qed

lemma list_store: "list_inv N s \<Longrightarrow> producer s = Pr_emitted \<Longrightarrow> list_inv N (result_store r s)"
  by (simp add: list_inv_def result_store_def)

text \<open>What the library's walk over a chain of nodes is known for.\<close>

definition walks_chains :: "((nat \<Rightarrow> nat option) \<Rightarrow> nat \<Rightarrow> nat list) \<Rightarrow> bool" where
  "walks_chains visit \<longleftrightarrow> (\<forall>nxt h xs. chain nxt (Some h) xs \<longrightarrow> visit nxt h = xs)"

lemma walks_chainsD: "walks_chains visit \<Longrightarrow> chain nxt (Some h) xs \<Longrightarrow> visit nxt h = xs"
  by (simp add: walks_chains_def)

lemma list_exchange:
  assumes inv: "list_inv N s" and pr: "producer s = Pr_exchange"
    and visit: "walks_chains visit"
  shows "list_inv N (result_exchange visit s)"
    and "\<exists>is. producer (result_exchange visit s) = Pr_each is 0 \<and> set is = {i. i < N \<and> in_list (handles s i)}"
proof -
  have wait: "producer s \<in> {Pr_idle, Pr_emitted, Pr_exchange}" using pr by simp
  note w = inv [unfolded list_inv_waiting [OF wait]]
  then obtain h xs where h: "state_word s = W_node h" and xs: "listed N s xs"
    using pr by (cases "state_word s") auto
  have ch: "chain (links s) (Some h) xs" using xs h by (simp add: listed_def pointer_of_def)
  have e: "result_exchange visit s = (touch s)\<lparr>state_word := W_result, producer := Pr_each xs 0\<rparr>"
    by (simp add: result_exchange_def h walks_chainsD [OF visit ch])
  have n: "length xs = num N in_list (handles s)"
    using xs by (simp add: listed_def num_card distinct_card [symmetric])
  have "0 < length xs" using ch by auto
  then show "list_inv N (result_exchange visit s)"
    using w pr xs n unfolding list_inv_def e by (simp add: listed_def)
  show "\<exists>is. producer (result_exchange visit s) = Pr_each is 0 \<and> set is = {i. i < N \<and> in_list (handles s i)}"
    unfolding e using xs by (simp add: listed_def)
qed

lemma list_serve:
  assumes inv: "list_inv N s" and pr: "producer s = Pr_each (i # is) n" and N: "N + 1 < 2 ^ 32"
  shows "list_inv N (result_serve s)"
proof -
  have len: "Suc (length is) + unat n = num N in_list (handles s)" using inv pr by (simp add: list_inv_def)
  then have "unat n + 1 < 2 ^ 32" using num_le [of N in_list "handles s"] N by simp
  then have "unat (n + 1) = unat n + 1" by (simp add: unat_word_ariths)
  then show ?thesis using inv pr by (simp add: list_inv_def result_serve_def)
qed

lemma list_release: "list_inv N s \<Longrightarrow> producer s = Pr_each [] n \<Longrightarrow> list_inv N (result_release s)"
  by (simp add: list_inv_def result_release_def)

subsection \<open>The phases\<close>

lemma phase_ok_result:
  "phase_ok w l p \<Longrightarrow> (w = W_result \<longrightarrow> w' = W_result) \<and> (w \<noteq> W_empty \<longrightarrow> w' \<noteq> W_empty) \<Longrightarrow> phase_ok w' l p"
  by (cases p) auto

lemma phase_upd:
  assumes inv: "phase_inv N s" and i: "i < N" "phase_ok (state_word s') (links s' i) x"
    and s': "handles s' = (handles s)(i := x)" "\<And>j. j \<noteq> i \<Longrightarrow> links s' j = links s j"
      "(state_word s = W_result \<longrightarrow> state_word s' = W_result) \<and> (state_word s \<noteq> W_empty \<longrightarrow> state_word s' \<noteq> W_empty)"
  shows "phase_inv N s'"
  unfolding phase_inv_def
proof
  fix j
  show "(handles s' j \<noteq> Sp_none \<longrightarrow> j < N) \<and> phase_ok (state_word s') (links s' j) (handles s' j)"
    using inv i s' phase_ok_result [OF _ s'(3)] by (cases "j = i") (auto simp: phase_inv_def)
qed

lemma phase_same:
  assumes "phase_inv N s" "handles s' = handles s" "links s' = links s"
    "(state_word s = W_result \<longrightarrow> state_word s' = W_result) \<and> (state_word s \<noteq> W_empty \<longrightarrow> state_word s' \<noteq> W_empty)"
  shows "phase_inv N s'"
  using assms(1) phase_ok_result [OF _ assms(4)] unfolding phase_inv_def assms(2,3) by blast

lemma phase_at: "phase_inv N s \<Longrightarrow> handles s i = p \<Longrightarrow> phase_ok (state_word s) (links s i) p \<and> (p \<noteq> Sp_none \<longrightarrow> i < N)"
  by (auto simp: phase_inv_def)

lemma phase_continue:
  assumes inv: "phase_inv N s" and i: "i < N" "state_word s \<noteq> W_empty"
  shows "phase_inv N (emit_continue i (state_word s) (touch s))"
  unfolding emit_continue_def
  by (rule phase_upd [OF inv i(1), where x = "if state_word s = W_result then Sp_direct else Sp_link (state_word s)"])
    (use i in simp_all)

lemma phase_steps:
  assumes inv: "phase_inv N s"
  shows "i < N \<Longrightarrow> handles s i = Sp_none \<Longrightarrow> phase_inv N (share_get_signal i s)"
    and "phase_inv N (share_box_drop s)"
    and "handles s i = Sp_held \<Longrightarrow> phase_inv N (share_drop i s)"
    and "handles s i = Sp_held \<Longrightarrow> phase_inv N (share_emit i s)"
    and "handles s i = Sp_start \<Longrightarrow> phase_inv N (internal_connection_emit i s)"
    and "handles s i = Sp_link w \<Longrightarrow> phase_inv N (emit_link i w s)"
    and "handles s i = Sp_direct \<Longrightarrow> phase_inv N (emit_direct i s)"
    and "handles s i = Sp_decref \<Longrightarrow> phase_inv N (emit_decref i s)"
  using phase_at [OF inv refl, of i]
  by - (rule phase_upd [OF inv, where i = i] phase_same [OF inv];
      auto simp: share_box_drop_def share_drop_def share_emit_def internal_connection_emit_def
        emit_link_def emit_direct_def emit_decref_def Let_def; fail)+

lemma phase_try:
  assumes inv: "phase_inv N s" and i: "handles s i = Sp_try"
  shows "phase_inv N (emit_try i s)"
proof (cases "state_word s = W_empty")
  case True
  then show ?thesis using phase_at [OF inv i]
    by (intro phase_upd [OF inv, where i = i and x = Sp_start]) (simp_all add: emit_try_def)
next
  case False
  then show ?thesis using phase_at [OF inv i] phase_continue [OF inv] by (simp add: emit_try_def)
qed

lemma phase_cas:
  assumes inv: "phase_inv N s" and i: "handles s i = Sp_cas w"
  shows "phase_inv N (emit_cas i w spurious s)"
proof (cases "state_word s = w \<and> \<not> spurious")
  case True
  then show ?thesis using phase_at [OF inv i]
    by (intro phase_upd [OF inv, where i = i and x = Sp_linked]) (simp_all add: emit_cas_def)
next
  case False
  then have "emit_cas i w spurious s = emit_continue i (state_word s) (touch s)" by (auto simp: emit_cas_def)
  then show ?thesis using phase_at [OF inv i] phase_continue [OF inv] by simp
qed

lemma phase_producer:
  assumes inv: "phase_inv N s"
  shows "phase_inv N (result_store r s)"
    and "phase_inv N (result_exchange visit s)"
    and "phase_inv N (result_serve s)"
    and "phase_inv N (result_release s)"
  by (rule phase_same [OF inv]; auto simp: result_store_def result_exchange_def result_serve_def result_release_def
      Let_def split: share_word.splits share_producer.splits list.splits; fail)+

subsection \<open>The answers\<close>

lemma answer_inv_same:
  assumes "answer_inv s" "\<And>j. answered s' j = answered s j" "answers s' = answers s" "shared_result s' = shared_result s"
  shows "answer_inv s'"
  using assms by (simp add: answer_inv_def)

text \<open>A step of a handle between phases in which it is not answered.\<close>

lemma answered_upd:
  "handles s' = (handles s)(i := x) \<Longrightarrow> producer s' = producer s \<Longrightarrow> handles s i = p \<Longrightarrow>
   p \<noteq> Sp_decref \<Longrightarrow> p \<noteq> Sp_served \<Longrightarrow> \<not> in_list p \<Longrightarrow> x \<noteq> Sp_decref \<Longrightarrow> x \<noteq> Sp_served \<Longrightarrow>
   (in_list x \<Longrightarrow> producer s \<in> {Pr_idle, Pr_emitted, Pr_exchange}) \<Longrightarrow> answered s' j = answered s j"
  by (auto simp: answered_def)

lemma waiting_unless_result: "list_inv N s \<Longrightarrow> state_word s \<noteq> W_result \<Longrightarrow> producer s \<in> {Pr_idle, Pr_emitted, Pr_exchange}"
  by (cases "producer s") (simp_all add: list_inv_def)

lemma answer_continue:
  "answer_inv s \<Longrightarrow> handles s i \<in> {Sp_try, Sp_cas w} \<Longrightarrow> answer_inv (emit_continue i c (touch s))"
  by (erule answer_inv_same; (rule answered_upd [where i = i and x = "if c = W_result then Sp_direct else Sp_link c"])?)
    (auto simp: emit_continue_def split: if_splits)

lemma answer_steps:
  assumes inv: "answer_inv s"
  shows "handles s i = Sp_none \<Longrightarrow> answer_inv (share_get_signal i s)"
    and "answer_inv (share_box_drop s)"
    and "handles s i = Sp_held \<Longrightarrow> answer_inv (share_drop i s)"
    and "handles s i = Sp_held \<Longrightarrow> answer_inv (share_emit i s)"
    and "handles s i = Sp_link w \<Longrightarrow> answer_inv (emit_link i w s)"
    and "handles s i = Sp_decref \<Longrightarrow> answer_inv (emit_decref i s)"
    and "handles s i = Sp_direct \<Longrightarrow> answer_inv (emit_direct i s)"
    and "handles s i = Sp_start \<Longrightarrow> producer s = Pr_idle \<Longrightarrow> answer_inv (internal_connection_emit i s)"
    and "producer s = Pr_each (i # is) n \<Longrightarrow> i \<notin> set is \<Longrightarrow> in_list (handles s i) \<Longrightarrow> answer_inv (result_serve s)"
    and "producer s = Pr_each [] n \<Longrightarrow> answer_inv (result_release s)"
  using inv
  by (auto simp: answer_inv_def answered_def share_box_drop_def share_drop_def share_emit_def emit_link_def emit_decref_def
      emit_direct_def internal_connection_emit_def result_serve_def result_release_def)

lemma answer_push:
  assumes inv: "answer_inv s" "list_inv N s"
  shows "handles s i = Sp_try \<Longrightarrow> answer_inv (emit_try i s)"
    and "handles s i = Sp_cas w \<Longrightarrow> w \<noteq> W_result \<Longrightarrow> answer_inv (emit_cas i w spurious s)"
proof -
  show "answer_inv (emit_try i s)" if i: "handles s i = Sp_try"
  proof (cases "state_word s = W_empty")
    case True
    then show ?thesis using waiting_unless_result [OF inv(2)] i inv(1)
      by (auto simp: emit_try_def answer_inv_def answered_def)
  next
    case False
    then show ?thesis using answer_continue [OF inv(1), of i] i by (simp add: emit_try_def)
  qed
  show "answer_inv (emit_cas i w spurious s)" if i: "handles s i = Sp_cas w" "w \<noteq> W_result"
  proof (cases "state_word s = w \<and> \<not> spurious")
    case True
    then show ?thesis using waiting_unless_result [OF inv(2)] i inv(1)
      by (auto simp: emit_cas_def answer_inv_def answered_def)
  next
    case False
    then have "emit_cas i w spurious s = emit_continue i (state_word s) (touch s)" by (auto simp: emit_cas_def)
    then show ?thesis using answer_continue [OF inv(1), of i w] i by simp
  qed
qed

text \<open>Before the result is published nobody is answered.\<close>

lemma none_answered:
  assumes "phase_inv N s" "list_inv N s" "producer s \<in> {Pr_idle, Pr_emitted, Pr_exchange}"
  shows "\<not> answered s i"
proof -
  have "state_word s \<noteq> W_result" using assms(2,3) by (auto simp: list_inv_def)
  then show ?thesis using phase_at [OF assms(1) refl, of i] assms(3) by (auto simp: answered_def)
qed

lemma answer_store:
  assumes "answer_inv s" "phase_inv N s" "list_inv N s" "producer s = Pr_emitted"
  shows "answer_inv (result_store r s)"
proof -
  have "\<not> answered s i" for i using none_answered [OF assms(2,3)] assms(4) by simp
  moreover have "answered (result_store r s) i = answered s i" for i
    using assms(4) by (simp add: answered_def result_store_def)
  ultimately show ?thesis using assms(1) by (simp add: answer_inv_def) (simp add: result_store_def)
qed

lemma answer_exchange:
  assumes inv: "answer_inv s" "phase_inv N s" "list_inv N s" and pr: "producer s = Pr_exchange"
    and visit: "walks_chains visit"
  shows "answer_inv (result_exchange visit s)"
proof -
  let ?s = "result_exchange visit s"
  obtain js where js: "producer ?s = Pr_each js 0" "set js = {i. i < N \<and> in_list (handles s i)}"
    using list_exchange(2) [OF inv(3) pr visit] by blast
  have f: "handles ?s = handles s" "answers ?s = answers s" "shared_result ?s = shared_result s"
    by (simp_all add: result_exchange_def Let_def split: share_word.splits)
  have none: "\<not> answered s i" for i using none_answered [OF inv(2,3)] pr by simp
  have "\<not> answered ?s i" for i
  proof -
    have "i < N" if "in_list (handles s i)" using that phase_at [OF inv(2) refl, of i] by (auto simp: in_list_def)
    then have "in_list (handles s i) \<Longrightarrow> i \<in> set js" unfolding js(2) by simp
    then show ?thesis using none [of i] unfolding answered_def f js(1) by auto
  qed
  then show ?thesis using inv(1) none by (simp add: answer_inv_def f)
qed

section \<open>Every step keeps the invariant\<close>

lemma share_init_inv: "share_inv N share_init"
proof -
  have z: "num N holds_ref (\<lambda>_. Sp_none) = 0" "num N in_list (\<lambda>_. Sp_none) = 0" "num N (\<lambda>p. p = Sp_start) (\<lambda>_. Sp_none) = 0"
    by (simp_all add: num_def)
  have "chain (\<lambda>_. None) (pointer_of W_empty) []" by (simp add: pointer_of_def)
  then show ?thesis using z
    by (auto simp: share_inv_def share_init_def count_inv_def refs_of_def references_def list_inv_def phase_inv_def
        answer_inv_def answered_def intro!: exI [of _ "[]"])
qed

lemma share_step_inv:
  assumes "share_step visit N b s s'" "share_inv N s" "N + 1 < 2 ^ 32"
    and visit: "walks_chains visit"
  shows "share_inv N s'"
proof -
  have inv: "count_inv N s" "list_inv N s" "phase_inv N s" "answer_inv s" using assms(2) by (simp_all add: share_inv_def)
  note at = phase_at [OF inv(3)]
  from assms(1) have "count_inv N s' \<and> list_inv N s' \<and> phase_inv N s' \<and> answer_inv s'"
  proof cases
    case (sh_get i)
    then show ?thesis
      using count_get [OF inv(1)] list_client(1) [OF inv(2)] phase_steps(1) [OF inv(3)] answer_steps(1) [OF inv(4)] assms(3) by simp
  next
    case sh_box
    then show ?thesis
      using count_box [OF inv(1)] list_client(2) [OF inv(2)] phase_steps(2) [OF inv(3)] answer_steps(2) [OF inv(4)] by simp
  next
    case (sh_drop i)
    then show ?thesis
      using count_drop [OF inv(1)] list_client(3) [OF inv(2)] phase_steps(3) [OF inv(3)] answer_steps(3) [OF inv(4)] at [of i] by simp
  next
    case (sh_emit i)
    then show ?thesis
      using count_kept(1) [OF inv(1)] list_client(4) [OF inv(2)] phase_steps(4) [OF inv(3)] answer_steps(4) [OF inv(4)] at [of i] by simp
  next
    case (sh_try i)
    have "producer s \<noteq> Pr_over \<or> state_word s \<noteq> W_empty" using inv(2) by (auto simp: list_inv_def)
    then show ?thesis
      using sh_try at [OF sh_try(3)] count_kept(2) [OF inv(1)] list_try [OF inv(2)] phase_try [OF inv(3)] answer_push(1) [OF inv(4,2)]
      by simp
  next
    case (sh_start i)
    note i = at [OF sh_start(3)]
    then show ?thesis
      using sh_start list_start [OF inv(2), of i] count_start [OF inv(1)] phase_steps(5) [OF inv(3)] answer_steps(8) [OF inv(4)] by simp
  next
    case (sh_link i w)
    then show ?thesis
      using at [OF sh_link(3)] count_kept(3) [OF inv(1)] list_client(5) [OF inv(2)] phase_steps(6) [OF inv(3)] answer_steps(5) [OF inv(4)] by simp
  next
    case (sh_cas i w)
    have "producer s \<noteq> Pr_over \<or> state_word s \<noteq> w" using inv(2) at [OF sh_cas(2)] by (auto simp: list_inv_def)
    then show ?thesis
      using sh_cas at [OF sh_cas(2)] count_kept(4) [OF inv(1)] list_cas [OF inv(2)] phase_cas [OF inv(3)] answer_push(2) [OF inv(4,2)]
      by simp
  next
    case (sh_direct i)
    then show ?thesis
      using at [OF sh_direct(3)] count_kept(5) [OF inv(1)] list_client(6) [OF inv(2)] phase_steps(7) [OF inv(3)] answer_steps(7) [OF inv(4)] by simp
  next
    case (sh_decref i)
    then show ?thesis
      using at [OF sh_decref(3)] count_emit_decref [OF inv(1)] list_client(7) [OF inv(2)] phase_steps(8) [OF inv(3)] answer_steps(6) [OF inv(4)] by simp
  next
    case (sh_store r)
    then show ?thesis
      using count_store [OF inv(1,2)] list_store [OF inv(2)] phase_producer(1) [OF inv(3)] answer_store [OF inv(4,3,2)] by simp
  next
    case sh_exchange
    then show ?thesis
      using count_exchange [OF inv(1,2)] list_exchange(1) [OF inv(2) _ visit] phase_producer(2) [OF inv(3)]
        answer_exchange [OF inv(4,3,2) _ visit] by simp
  next
    case (sh_serve i js n)
    have "i \<notin> set js" "in_list (handles s i)" using inv(2) sh_serve(3) by (simp_all add: list_inv_def)
    then show ?thesis
      using sh_serve count_serve [OF inv(1,2)] list_serve [OF inv(2)] phase_producer(3) [OF inv(3)] answer_steps(9) [OF inv(4)] assms(3) by simp
  next
    case (sh_release n)
    then show ?thesis
      using count_release [OF inv(1,2)] list_release [OF inv(2)] phase_producer(4) [OF inv(3)] answer_steps(10) [OF inv(4)] by simp
  qed
  then show ?thesis by (simp add: share_inv_def)
qed

lemma share_reachable_inv:
  assumes "share_reachable visit N s" "walks_chains visit" "N + 1 < 2 ^ 32"
  shows "share_inv N s"
  using assms(1) unfolding share_reachable_def
proof (induction rule: rtranclp_induct)
  case base
  show ?case by (rule share_init_inv)
next
  case (step s s')
  then show ?case using share_step_inv [OF _ _ assms(3,2)] by blast
qed

section \<open>The end of a run\<close>

text \<open>
  A bound on the internal steps left. A compare-exchange fails only because the state word changed
  since it was read, and each change of the state word is paid for by the handle or producer that
  makes it.
\<close>

fun phase_cost :: "nat \<Rightarrow> share_word \<Rightarrow> share_phase \<Rightarrow> nat" where
  "phase_cost N word Sp_try = 4 * N + 10"
| "phase_cost N word (Sp_link w) = 4 * N + (if w = word then 3 else 6)"
| "phase_cost N word (Sp_cas w) = 4 * N + (if w = word then 2 else 5)"
| "phase_cost N word Sp_start = 1"
| "phase_cost N word Sp_direct = 2"
| "phase_cost N word Sp_decref = 1"
| "phase_cost N word _ = 0"

fun producer_cost :: "nat \<Rightarrow> share_producer \<Rightarrow> nat" where
  "producer_cost N Pr_exchange = 5 * N + 5"
| "producer_cost N (Pr_each is n) = length is + 1"
| "producer_cost N _ = 0"

definition pending_steps :: "nat \<Rightarrow> ('v, 'e) share \<Rightarrow> nat" where
  "pending_steps N s = (\<Sum>i<N. phase_cost N (state_word s) (handles s i)) + producer_cost N (producer s)"

lemma phase_cost_word: "phase_cost N w' p \<le> phase_cost N w p + 3"
  by (cases p) simp_all

lemma sum_change:
  fixes f f' :: "nat \<Rightarrow> nat"
  assumes "i < N" "\<And>j. j < N \<Longrightarrow> j \<noteq> i \<Longrightarrow> f' j \<le> f j + k"
  shows "(\<Sum>j<N. f' j) + f i \<le> (\<Sum>j<N. f j) + f' i + k * N"
proof -
  have "(\<Sum>j\<in>{..<N} - {i}. f' j) \<le> (\<Sum>j\<in>{..<N} - {i}. f j + k)"
    by (rule sum_mono) (use assms(2) in auto)
  also have "\<dots> = (\<Sum>j\<in>{..<N} - {i}. f j) + k * (N - 1)"
    using assms(1) by (simp add: sum.distrib card_Diff_singleton)
  also have "\<dots> \<le> (\<Sum>j\<in>{..<N} - {i}. f j) + k * N" by simp
  finally have "(\<Sum>j\<in>{..<N} - {i}. f' j) \<le> (\<Sum>j\<in>{..<N} - {i}. f j) + k * N" .
  moreover have "(\<Sum>j<N. g j) = g i + (\<Sum>j\<in>{..<N} - {i}. g j)" for g :: "nat \<Rightarrow> nat"
    using assms(1) by (intro sum.remove) auto
  ultimately show ?thesis by (simp add: add.assoc)
qed

text \<open>A handle's step, with or without a change of the state word.\<close>

lemma pending_handle:
  assumes "i < N" "handles s' = (handles s)(i := x)" "producer_cost N (producer s') = producer_cost N (producer s)"
    and "state_word s' = state_word s \<and> phase_cost N (state_word s) x < phase_cost N (state_word s) (handles s i) \<or>
      phase_cost N (state_word s') x + 3 * N < phase_cost N (state_word s) (handles s i)"
  shows "pending_steps N s' < pending_steps N s"
  using assms(4)
proof
  assume a: "state_word s' = state_word s \<and> phase_cost N (state_word s) x < phase_cost N (state_word s) (handles s i)"
  then show ?thesis
    using sum_change [of i N "\<lambda>j. phase_cost N (state_word s') (handles s' j)" "\<lambda>j. phase_cost N (state_word s) (handles s j)" 0]
      assms(1-3) by (simp add: pending_steps_def)
next
  assume a: "phase_cost N (state_word s') x + 3 * N < phase_cost N (state_word s) (handles s i)"
  then show ?thesis
    using sum_change [of i N "\<lambda>j. phase_cost N (state_word s') (handles s' j)" "\<lambda>j. phase_cost N (state_word s) (handles s j)" 3]
      assms(1-3) phase_cost_word by (simp add: pending_steps_def)
qed

lemma pending_exchange:
  assumes "share_inv N s" "producer s = Pr_exchange" "walks_chains visit"
  shows "pending_steps N (result_exchange visit s) < pending_steps N s"
proof -
  let ?s = "result_exchange visit s"
  have inv: "list_inv N s" using assms(1) by (simp add: share_inv_def)
  obtain js where js: "producer ?s = Pr_each js 0" using list_exchange(2) [OF inv assms(2,3)] by blast
  have "length js \<le> N"
    using list_exchange(1) [OF inv assms(2,3)] js num_le [of N in_list "handles ?s"] by (simp add: list_inv_def)
  moreover have "(\<Sum>i<N. phase_cost N (state_word ?s) (handles s i)) \<le> (\<Sum>i<N. phase_cost N (state_word s) (handles s i) + 3)"
    by (rule sum_mono) (rule phase_cost_word)
  moreover have "handles ?s = handles s"
    by (simp add: result_exchange_def Let_def split: share_word.splits)
  ultimately show ?thesis using js assms(2) by (simp add: pending_steps_def sum.distrib)
qed

lemma share_step_closer:
  assumes "share_step visit N False s s'" "share_inv N s" "walks_chains visit"
  shows "pending_steps N s' < pending_steps N s"
proof -
  have at: "handles s i = p \<Longrightarrow> phase_ok (state_word s) (links s i) p \<and> (p \<noteq> Sp_none \<longrightarrow> i < N)" for i p
    using assms(2) phase_at by (auto simp: share_inv_def)
  from assms(1) show ?thesis
  proof cases
    case (sh_try i)
    then show ?thesis using at [OF sh_try(2)]
      by (intro pending_handle [where i = i and x = "handles s' i"]) (auto simp: emit_try_def emit_continue_def Let_def)
  next
    case (sh_start i)
    have "producer s = Pr_idle" using list_start(2) [of N s i] at [OF sh_start(2)] sh_start assms(2) by (simp add: share_inv_def)
    then show ?thesis using sh_start at [OF sh_start(2)]
      by (intro pending_handle [where i = i and x = Sp_linked]) (simp_all add: internal_connection_emit_def)
  next
    case (sh_link i w)
    then show ?thesis using at [OF sh_link(2)]
      by (intro pending_handle [where i = i and x = "Sp_cas w"]) (simp_all add: emit_link_def)
  next
    case (sh_cas i w)
    then show ?thesis using at [OF sh_cas(2)]
      by (intro pending_handle [where i = i and x = "handles s' i"]) (auto simp: emit_cas_def emit_continue_def Let_def)
  next
    case (sh_direct i)
    then show ?thesis using at [OF sh_direct(2)]
      by (intro pending_handle [where i = i and x = Sp_decref]) (simp_all add: emit_direct_def)
  next
    case (sh_decref i)
    then show ?thesis using at [OF sh_decref(2)]
      by (intro pending_handle [where i = i and x = Sp_served]) (simp_all add: emit_decref_def)
  next
    case sh_exchange
    then show ?thesis using pending_exchange [OF assms(2) _ assms(3)] by simp
  next
    case (sh_serve i js n)
    then show ?thesis by (simp add: pending_steps_def result_serve_def)
  next
    case (sh_release n)
    then show ?thesis by (simp add: pending_steps_def result_release_def)
  qed simp_all
qed

text \<open>Where nothing internal is left to do.\<close>

definition was_emitted :: "share_phase \<Rightarrow> bool" where
  "was_emitted p \<longleftrightarrow> p \<notin> {Sp_none, Sp_held, Sp_dropped}"

lemma share_rest:
  assumes inv: "share_inv N s" and stuck: "\<And>s'. \<not> share_step visit N False s s'"
  shows "handles s i \<in> {Sp_none, Sp_held, Sp_linked, Sp_served, Sp_dropped}"
    and "producer s \<in> {Pr_idle, Pr_emitted, Pr_over}"
proof -
  show "handles s i \<in> {Sp_none, Sp_held, Sp_linked, Sp_served, Sp_dropped}"
  proof -
    have "handles s i \<noteq> Sp_try" "handles s i \<noteq> Sp_link w" "handles s i \<noteq> Sp_cas w" "handles s i \<noteq> Sp_start"
      "handles s i \<noteq> Sp_direct" "handles s i \<noteq> Sp_decref" for w
      using stuck sh_try [of s i visit N] sh_link [of s i w visit N] sh_cas [of s i w visit N False]
        sh_start [of s i visit N] sh_direct [of s i visit N] sh_decref [of s i visit N] by auto
    then show ?thesis by (cases "handles s i") auto
  qed
  show "producer s \<in> {Pr_idle, Pr_emitted, Pr_over}"
  proof (cases "producer s")
    case (Pr_each js n)
    then show ?thesis using stuck sh_serve sh_release by (cases js) blast+
  qed (use stuck sh_exchange in auto)
qed

lemma share_rest_answered:
  assumes inv: "share_inv N s" and stuck: "\<And>s'. \<not> share_step visit N False s s'"
    and pr: "producer s \<noteq> Pr_emitted" and e: "was_emitted (handles s i)"
  shows "answers s i = [shared_result s]"
proof -
  have parts: "list_inv N s" "phase_inv N s" "answer_inv s" using inv by (simp_all add: share_inv_def)
  note rest = share_rest [OF inv stuck]
  have "answered s i"
  proof (cases "handles s i = Sp_served")
    case False
    then have l: "handles s i = Sp_linked" using rest(1) [of i] e by (auto simp: was_emitted_def)
    then have i: "i < N" using phase_at [OF parts(2) l] by simp
    have "producer s \<noteq> Pr_idle"
    proof
      assume idle: "producer s = Pr_idle"
      then have wait: "producer s \<in> {Pr_idle, Pr_emitted, Pr_exchange}" by simp
      have "handles s j \<noteq> Sp_start" for j using rest(1) [of j] by auto
      then have "num N (\<lambda>p. p = Sp_start) (handles s) = 0" by (simp add: num_none)
      then have w: "state_word s = W_empty" using parts(1) idle by (simp add: list_inv_waiting [OF wait])
      obtain xs where "listed N s xs" using parts(1) by (auto simp: list_inv_waiting [OF wait])
      then have "chain (links s) None xs" "i \<in> set xs" using l i w by (simp_all add: listed_def pointer_of_def)
      then show False by (cases xs) simp_all
    qed
    then show ?thesis using rest(2) pr l by (auto simp: answered_def)
  qed (simp add: answered_def)
  then show ?thesis using parts(3) by (simp add: answer_inv_def)
qed

lemma share_rest_deleted:
  assumes inv: "share_inv N s" and stuck: "\<And>s'. \<not> share_step visit N False s s'"
    and pr: "producer s \<noteq> Pr_emitted" and gone: "\<not> box_alive s" "\<And>i. handles s i \<noteq> Sp_held"
  shows "deletions s = 1"
proof -
  have parts: "count_inv N s" "list_inv N s" "phase_inv N s" using inv by (simp_all add: share_inv_def)
  note rest = share_rest [OF inv stuck]
  have "\<not> holds_ref (handles s j)" for j using rest(1) [of j] gone(2) [of j] by auto
  then have h: "num N holds_ref (handles s) = 0" by (simp add: num_none)
  have "refs_of N s = 0"
  proof (cases "producer s = Pr_over")
    case False
    then have idle: "producer s = Pr_idle" using rest(2) pr by auto
    have "\<not> in_list (handles s i)" for i
    proof
      assume l: "in_list (handles s i)"
      then have em: "was_emitted (handles s i)" by (auto simp: in_list_def was_emitted_def)
      have "answered s i" using share_rest_answered [OF inv stuck pr em] inv by (auto simp: share_inv_def answer_inv_def split: if_splits)
      then show False using idle l by (auto simp: answered_def in_list_def)
    qed
    then show ?thesis using h gone by (simp add: refs_of_def references_def num_none)
  qed (use h gone in \<open>simp add: refs_of_def references_def\<close>)
  then show ?thesis using parts(1) by (simp add: count_inv_def unat_eq_zero)
qed

section \<open>A walk over chains\<close>

definition walk_list :: "(nat \<Rightarrow> nat option) \<Rightarrow> nat \<Rightarrow> nat list" where
  "walk_list nxt h = the (walk nxt (Some h))"

lemma walk_list_walks: "walks_chains walk_list"
  by (simp add: walks_chains_def walk_list_def walk_chain)

section \<open>A concrete history\<close>

text \<open>
  Two handles; the box is dropped; the first handle emits the shared signal, the second finds the
  state taken and links itself; the result 7 arrives and serves both.
\<close>

definition ex_history :: "((nat, nat) share \<Rightarrow> (nat, nat) share) list" where
  "ex_history = [share_get_signal 0, share_get_signal 1, share_box_drop, share_emit 0, emit_try 0,
     internal_connection_emit 0, share_emit 1, emit_try 1, emit_link 1 (W_node 0), emit_cas 1 (W_node 0) False,
     result_store (Some (Inr 7)), result_exchange walk_list, result_serve, result_serve, result_release]"

definition ex_share :: "nat \<Rightarrow> (nat, nat) share" where
  "ex_share k = fold (\<lambda>f. f) (take k ex_history) share_init"

lemma ex_share_Suc: "k < length ex_history \<Longrightarrow> ex_share (Suc k) = (ex_history ! k) (ex_share k)"
  by (simp add: ex_share_def take_Suc_conv_app_nth)

lemma share_reachable_step: "share_reachable visit N s \<Longrightarrow> share_step visit N b s s' \<Longrightarrow> share_reachable visit N s'"
  unfolding share_reachable_def by (rule rtranclp.rtrancl_into_rtrancl) blast+

lemma ex_share_steps: "k < 15 \<Longrightarrow> \<exists>b. share_step walk_list 2 b (ex_share k) ((ex_history ! k) (ex_share k))"
proof (erule less_15)
  note steps = sh_get sh_box sh_emit sh_try sh_start sh_link sh_cas [where spurious = False] sh_store sh_exchange
  have h: "ex_history ! 0 = share_get_signal 0" "ex_history ! 1 = share_get_signal 1" "ex_history ! 2 = share_box_drop"
    "ex_history ! 3 = share_emit 0" "ex_history ! 4 = emit_try 0" "ex_history ! 5 = internal_connection_emit 0"
    "ex_history ! 6 = share_emit 1" "ex_history ! 7 = emit_try 1" "ex_history ! 8 = emit_link 1 (W_node 0)"
    "ex_history ! 9 = emit_cas 1 (W_node 0) False" "ex_history ! 10 = result_store (Some (Inr 7))"
    "ex_history ! 11 = result_exchange walk_list" "ex_history ! 12 = result_serve" "ex_history ! 13 = result_serve"
    "ex_history ! 14 = result_release"
    by (simp_all add: ex_history_def)
  show "\<exists>b. share_step walk_list 2 b (ex_share 0) ((ex_history ! 0) (ex_share 0))" unfolding h by (rule exI, rule steps; code_simp)
  show "\<exists>b. share_step walk_list 2 b (ex_share 1) ((ex_history ! 1) (ex_share 1))" unfolding h by (rule exI, rule steps; code_simp)
  show "\<exists>b. share_step walk_list 2 b (ex_share 2) ((ex_history ! 2) (ex_share 2))" unfolding h by (rule exI, rule steps; code_simp)
  show "\<exists>b. share_step walk_list 2 b (ex_share 3) ((ex_history ! 3) (ex_share 3))" unfolding h by (rule exI, rule steps; code_simp)
  show "\<exists>b. share_step walk_list 2 b (ex_share 4) ((ex_history ! 4) (ex_share 4))" unfolding h by (rule exI, rule steps; code_simp)
  show "\<exists>b. share_step walk_list 2 b (ex_share 5) ((ex_history ! 5) (ex_share 5))" unfolding h by (rule exI, rule steps; code_simp)
  show "\<exists>b. share_step walk_list 2 b (ex_share 6) ((ex_history ! 6) (ex_share 6))" unfolding h by (rule exI, rule steps; code_simp)
  show "\<exists>b. share_step walk_list 2 b (ex_share 7) ((ex_history ! 7) (ex_share 7))" unfolding h by (rule exI, rule steps; code_simp)
  show "\<exists>b. share_step walk_list 2 b (ex_share 8) ((ex_history ! 8) (ex_share 8))" unfolding h by (rule exI, rule steps; code_simp)
  show "\<exists>b. share_step walk_list 2 b (ex_share 9) ((ex_history ! 9) (ex_share 9))" unfolding h by (rule exI, rule steps; code_simp)
  show "\<exists>b. share_step walk_list 2 b (ex_share 10) ((ex_history ! 10) (ex_share 10))" unfolding h by (rule exI, rule steps; code_simp)
  show "\<exists>b. share_step walk_list 2 b (ex_share 11) ((ex_history ! 11) (ex_share 11))" unfolding h by (rule exI, rule steps; code_simp)
  have pr: "producer (ex_share 12) = Pr_each [1, 0] 0" "producer (ex_share 13) = Pr_each [0] 1" "producer (ex_share 14) = Pr_each [] 2"
    by code_simp+
  show "\<exists>b. share_step walk_list 2 b (ex_share 12) ((ex_history ! 12) (ex_share 12))" unfolding h by (rule exI, rule sh_serve [OF pr(1)])
  show "\<exists>b. share_step walk_list 2 b (ex_share 13) ((ex_history ! 13) (ex_share 13))" unfolding h by (rule exI, rule sh_serve [OF pr(2)])
  show "\<exists>b. share_step walk_list 2 b (ex_share 14) ((ex_history ! 14) (ex_share 14))" unfolding h by (rule exI, rule sh_release [OF pr(3)])
qed

lemma ex_share_reachable: "k \<le> 15 \<Longrightarrow> share_reachable walk_list 2 (ex_share k)"
proof (induction k)
  case 0
  show ?case by (simp add: ex_share_def share_reachable_def)
next
  case (Suc k)
  then have "share_reachable walk_list 2 (ex_share k)" "k < 15" "ex_share (Suc k) = (ex_history ! k) (ex_share k)"
    by (simp_all add: ex_share_Suc ex_history_def)
  then show ?case using ex_share_steps [of k] share_reachable_step by metis
qed

lemma ex_share_end:
  "handles (ex_share 15) i = (if i = 0 \<or> i = 1 then Sp_linked else Sp_none)" "producer (ex_share 15) = Pr_over"
  "box_alive (ex_share 15) = False" "shared_result (ex_share 15) = Some (Inr 7)"
proof -
  show "handles (ex_share 15) i = (if i = 0 \<or> i = 1 then Sp_linked else Sp_none)" by (code_simp, simp)
qed code_simp+

lemma ex_share_stuck: "\<not> share_step walk_list 2 False (ex_share 15) s'"
proof
  assume "share_step walk_list 2 False (ex_share 15) s'"
  then show False by cases (auto simp: ex_share_end split: if_splits)
qed

section \<open>Forks\<close>

lemma share_init_frame [simp]:
  "refcount share_init = 1" "handles share_init i = Sp_none" "\<not> share_failed share_init" "deletions share_init = 0"
  "box_alive share_init"
  by (simp_all add: share_init_def)

lemma get_signals:
  "refcount (fold share_get_signal [0..<n] share_init) = of_nat (Suc n)"
  "handles (fold share_get_signal [0..<n] share_init) i = (if i < n then Sp_held else Sp_none)"
  "deletions (fold share_get_signal [0..<n] share_init) = 0" "box_alive (fold share_get_signal [0..<n] share_init)"
  by (induction n) simp_all

lemma get_signals_failed:
  "share_failed (fold share_get_signal [0..<n] share_init) = (\<exists>k<n. \<not> (1 :: u32) < of_nat (k + 2))"
proof (induction n)
  case (Suc n)
  have "(\<exists>k<Suc n. \<not> (1 :: u32) < of_nat (k + 2)) = ((\<exists>k<n. \<not> (1 :: u32) < of_nat (k + 2)) \<or> \<not> (1 :: u32) < of_nat (n + 2))"
    using less_Suc_eq by auto
  then show ?case using Suc by (simp add: get_signals(1) add.commute add.left_commute)
qed simp

lemma fork_failed: "share_failed (fork_n n share_init) = (\<exists>k<n. \<not> (1 :: u32) < of_nat (k + 2))"
  by (simp add: fork_n_def share_box_drop_def get_signals_failed del: of_nat_add)

lemma of_nat_gt_1: "1 < m \<Longrightarrow> m < 2 ^ 32 \<Longrightarrow> (1 :: u32) < of_nat m"
  by (simp add: word_less_nat_alt unat_of_nat)

lemma fork_signals:
  "n < 2 ^ 32 - 1 \<Longrightarrow> let s = fork_n n share_init in
     unat (refcount s) = n \<and> \<not> share_failed s \<and> deletions s = of_bool (n = 0) \<and>
     handles s = (\<lambda>i. if i < n then Sp_held else Sp_none)"
  "share_failed (fork_n (2 ^ 32 - 1) share_init)"
proof -
  assume n: "n < 2 ^ 32 - 1"
  have "(1 :: u32) < of_nat (k + 2)" if "k < n" for k using of_nat_gt_1 [of "k + 2"] that n by simp
  moreover have "unat (of_nat n :: u32) = n" "((1 :: u32) + of_nat n = 1) = (n = 0)"
    using n by (simp_all add: unat_of_nat word_of_nat_eq_0_iff) (auto dest: dvd_imp_le)
  ultimately show "let s = fork_n n share_init in
     unat (refcount s) = n \<and> \<not> share_failed s \<and> deletions s = of_bool (n = 0) \<and>
     handles s = (\<lambda>i. if i < n then Sp_held else Sp_none)"
    by (simp add: fork_n_def share_box_drop_def get_signals get_signals_failed fun_eq_iff)
next
  have "\<not> (1 :: u32) < of_nat ((2 ^ 32 - 2) + 2)" by (simp add: word_less_nat_alt unat_of_nat)
  moreover have "2 ^ 32 - 2 < (2 ^ 32 - 1 :: nat)" by simp
  ultimately have "\<exists>k<2 ^ 32 - 1. \<not> (1 :: u32) < of_nat (k + 2)" by blast
  then show "share_failed (fork_n (2 ^ 32 - 1) share_init)"
    by (simp only: fork_failed)
qed

section \<open>Properties\<close>

text \<open>
  C18: A shared signal serves its handles once. Whatever handles are made, dropped and emitted, in any
  interleaving, a handle's slot is called at most once and with the result of the shared signal, which
  is emitted at most once; the storage is deleted at most once, and exactly when no reference is left;
  it is never used afterwards, and no assertion fails.
\<close>

theorem share_serves_once:
  assumes "share_reachable visit N s" "walks_chains visit" "N + 1 < 2 ^ 32"
  shows "(answers s i = [] \<or> answers s i = [shared_result s]) \<and>
    internal_emits s \<le> 1 \<and> deletions s \<le> 1 \<and> (deletions s = 1) = (refs_of N s = 0) \<and>
    \<not> touched_freed s \<and> \<not> share_failed s"
  using share_reachable_inv [OF assms] unat_eq_zero [of "refcount s"]
  by (auto simp: share_inv_def answer_inv_def count_inv_def split: if_splits)

theorem share_serves_once_witness:
  "(answers (ex_share 15) 1 = [] \<or> answers (ex_share 15) 1 = [shared_result (ex_share 15)]) \<and>
   answers (ex_share 15) 1 = [Some (Inr 7)] \<and> internal_emits (ex_share 15) \<le> 1 \<and>
   deletions (ex_share 15) = 1 \<and> refs_of 2 (ex_share 15) = 0 \<and> \<not> touched_freed (ex_share 15)"
proof -
  note once = share_serves_once [OF ex_share_reachable [of 15, simplified] walk_list_walks]
  have "answers (ex_share 15) 1 = [Some (Inr 7)]" "deletions (ex_share 15) = 1" by code_simp+
  then show ?thesis using once [of 1] by simp
qed

text \<open>
  C19: A shared signal completes. Without spurious failures of the weak compare-exchange only boundedly
  many internal steps can follow a state, and when none is left and the result is not awaited, every
  emitted handle has received the result, exactly once; if moreover the box and the handles that were
  not emitted are gone, the storage has been deleted.
\<close>

theorem share_completes:
  assumes "share_reachable visit N s" "walks_chains visit" "N + 1 < 2 ^ 32"
  shows "(\<forall>s'. share_step visit N False s s' \<longrightarrow> pending_steps N s' < pending_steps N s) \<and>
    ((\<forall>s'. \<not> share_step visit N False s s') \<and> producer s \<noteq> Pr_emitted \<longrightarrow>
      (\<forall>i. was_emitted (handles s i) \<longrightarrow> answers s i = [shared_result s]) \<and>
      (\<not> box_alive s \<and> (\<forall>i. handles s i \<noteq> Sp_held) \<longrightarrow> deletions s = 1))"
  using share_step_closer [OF _ share_reachable_inv [OF assms] assms(2)]
    share_rest_answered [OF share_reachable_inv [OF assms], of visit]
    share_rest_deleted [OF share_reachable_inv [OF assms], of visit]
  by blast

theorem share_completes_witness:
  "pending_steps 2 (ex_share 5) < pending_steps 2 (ex_share 4) \<and>
   answers (ex_share 15) 0 = [Some (Inr 7)] \<and> deletions (ex_share 15) = 1"
proof -
  have p: "producer (ex_share 15) \<noteq> Pr_emitted" "was_emitted (handles (ex_share 15) 0)" "\<not> box_alive (ex_share 15)"
    "\<forall>i. handles (ex_share 15) i \<noteq> Sp_held" "\<forall>s'. \<not> share_step walk_list 2 False (ex_share 15) s'"
    using ex_share_stuck by (simp_all add: ex_share_end was_emitted_def)
  have "handles (ex_share 4) 0 = Sp_try" by code_simp
  then have "share_step walk_list 2 False (ex_share 4) (emit_try 0 (ex_share 4))" by (rule sh_try)
  moreover have "emit_try 0 (ex_share 4) = ex_share 5"
    using ex_share_Suc [of 4] by (simp add: ex_history_def eval_nat_numeral)
  ultimately have "pending_steps 2 (ex_share 5) < pending_steps 2 (ex_share 4)"
    using share_completes [OF ex_share_reachable [of 4, simplified] walk_list_walks] by simp
  moreover have "answers (ex_share 15) 0 = [shared_result (ex_share 15)] \<and> deletions (ex_share 15) = 1"
    using share_completes [OF ex_share_reachable [of 15, simplified] walk_list_walks] p by simp
  ultimately show ?thesis by (simp add: ex_share_end)
qed

text \<open>
  A fork makes as many handles as asked for, each with one reference, and leaves nothing when none
  is asked for; but the count is 32 bits wide and includes the box's reference while the handles are
  made, so a fork into \<open>2\<^sup>3\<^sup>2 - 1\<close> handles wraps it around and fails the assertion.
\<close>

theorem fork_n_signals:
  "(n < 2 ^ 32 - 1 \<longrightarrow> (let s = fork_n n (share_init :: ('v, 'e) share) in
     unat (refcount s) = n \<and> \<not> share_failed s \<and> deletions s = of_bool (n = 0) \<and>
     handles s = (\<lambda>i. if i < n then Sp_held else Sp_none))) \<and>
   share_failed (fork_n (2 ^ 32 - 1) (share_init :: ('v, 'e) share))"
  using fork_signals by blast

theorem fork_n_signals_witness:
  "let s = fork_n 3 (share_init :: (nat, nat) share) in unat (refcount s) = 3 \<and> \<not> share_failed s \<and> handles s 2 = Sp_held \<and> deletions s = 0"
  using fork_n_signals [where n = 3, where 'v = nat and 'e = nat] by (simp add: Let_def)

end
