(* ===== verification/Thread_Pool.thy ===== *)
theory Thread_Pool
  imports Sl_Prelude "HOL-Library.Word" "HOL-Library.Multiset"
begin

text \<open>
  The monolithic thread pool: \<^verbatim>\<open>thread/pool/monolithic.hpp\<close> with its queue
  \<^verbatim>\<open>thread/detail/unbound_blocking_queue.hpp\<close>, its \<^verbatim>\<open>thread/sync/wait_group.hpp\<close> and
  \<^verbatim>\<open>thread/pool/config.{hpp,cpp}\<close>. Workers \<open>i < K\<close> pop tasks of a queue guarded by a mutex and a
  condition variable; each section under the mutex is one atomic action, and waiting on the
  condition variable is a phase of the worker that a notification, or nothing at all, may end. Which
  waiting worker a \<open>notify_one\<close> wakes is a parameter of the action. One thread may wait for the pool
  to be idle.

  The state records the tasks whose push was accepted, popped and refused, and the executed ones.
\<close>

section \<open>Configuration\<close>

text \<open>\<open>hwc\<close> is what \<open>std::thread::hardware_concurrency\<close> returns.\<close>

definition hw_limit :: "u32 \<Rightarrow> u32 option" where
  "hw_limit hwc = (if hwc = 0 then None else Some hwc)"

definition with_hw_limit :: "u32 \<Rightarrow> u32 \<Rightarrow> u32" where
  "with_hw_limit hwc tcount = (if hwc = 0 then tcount else min tcount hwc)"

section \<open>State\<close>

datatype 'n worker = Wk_lock | Wk_wait | Wk_execute 'n | Wk_finish 'n | Wk_exited

datatype idle_wait = Idle_absent | Idle_load | Idle_blocked u32 | Idle_returned

record 'n pool =
  tasks :: "'n list"
  is_closed :: bool
  wg_work :: u32
  workers :: "nat \<Rightarrow> 'n worker"
  idle_waiter :: idle_wait
  scheduling :: "'n list"
  pushed :: "'n list"
  refused :: "'n list"
  popped :: "'n list"
  executed :: "'n list"
  pop_failed :: bool

definition pool_init :: "'n pool" where
  "pool_init = \<lparr>tasks = [], is_closed = False, wg_work = 0, workers = (\<lambda>_. Wk_lock), idle_waiter = Idle_absent,
     scheduling = [], pushed = [], refused = [], popped = [], executed = [], pop_failed = False\<rparr>"

definition to_worker :: "nat \<Rightarrow> 'n worker \<Rightarrow> 'n pool \<Rightarrow> 'n pool" where
  "to_worker i p s = s\<lparr>workers := (workers s)(i := p)\<rparr>"

section \<open>The wait group\<close>

definition wg_add :: "u32 \<Rightarrow> 'n pool \<Rightarrow> 'n pool" where
  "wg_add n s = s\<lparr>wg_work := wg_work s + n\<rparr>"

definition wg_done :: "'n pool \<Rightarrow> 'n pool" where
  "wg_done s =
     (let prev = wg_work s; s = s\<lparr>wg_work := wg_work s - 1\<rparr>
      in if prev = 1
         then (case idle_waiter s of Idle_blocked _ \<Rightarrow> s\<lparr>idle_waiter := Idle_load\<rparr> | _ \<Rightarrow> s)
         else s)"

text \<open>
  \<open>wait\<close>: a round of its loop. The atomic wait blocks only if the counter still has the value that
  was loaded; the load and this test can be taken together, since a test that fails loads again.
\<close>

definition wg_wait :: "'n pool \<Rightarrow> 'n pool" where
  "wg_wait s =
     (let work = wg_work s
      in if work = 0 then s\<lparr>idle_waiter := Idle_returned\<rparr> else s\<lparr>idle_waiter := Idle_blocked work\<rparr>)"

section \<open>The queue\<close>

text \<open>The workers blocked on the condition variable.\<close>

definition blocked :: "nat \<Rightarrow> 'n pool \<Rightarrow> nat \<Rightarrow> bool" where
  "blocked K s i \<longleftrightarrow> i < K \<and> workers s i = Wk_wait"

definition notify_one :: "nat option \<Rightarrow> 'n pool \<Rightarrow> 'n pool" where
  "notify_one w s = (case w of None \<Rightarrow> s | Some i \<Rightarrow> to_worker i Wk_lock s)"

definition wake_all :: "(nat \<Rightarrow> 'n worker) \<Rightarrow> nat \<Rightarrow> 'n worker" where
  "wake_all ws i = (if ws i = Wk_wait then Wk_lock else ws i)"

definition notify_all :: "'n pool \<Rightarrow> 'n pool" where
  "notify_all s = s\<lparr>workers := wake_all (workers s)\<rparr>"

definition queue_push :: "nat option \<Rightarrow> 'n \<Rightarrow> 'n pool \<Rightarrow> bool \<times> 'n pool" where
  "queue_push w node s =
     (if is_closed s then (False, s)
      else let q_was_empty = (tasks s = []); s = s\<lparr>tasks := tasks s @ [node], pushed := pushed s @ [node]\<rparr>
           in (True, if q_was_empty then notify_one w s else s))"

text \<open>\<open>try_pop\<close>, from the moment it has the mutex: it waits, or returns a task or null.\<close>

datatype 'n pop = Pop_wait | Pop_node 'n | Pop_null

definition queue_try_pop :: "'n pool \<Rightarrow> 'n pop \<times> 'n pool" where
  "queue_try_pop s =
     (if tasks s = [] \<and> \<not> is_closed s then (Pop_wait, s)
      else case tasks s of
             node # rest \<Rightarrow> (Pop_node node, s\<lparr>tasks := rest, popped := popped s @ [node]\<rparr>)
           | [] \<Rightarrow> (Pop_null, if is_closed s then s else s\<lparr>pop_failed := True\<rparr>))"

definition queue_close :: "'n pool \<Rightarrow> 'n pool" where
  "queue_close s = (if is_closed s then s else notify_all (s\<lparr>is_closed := True\<rparr>))"

section \<open>The pool\<close>

text \<open>\<open>schedule\<close>: it counts the task, then pushes it and ignores whether the queue accepted it.\<close>

definition pool_schedule_add :: "'n \<Rightarrow> 'n pool \<Rightarrow> 'n pool" where
  "pool_schedule_add node s = (wg_add 1 s)\<lparr>scheduling := scheduling s @ [node]\<rparr>"

definition pool_schedule_push :: "nat option \<Rightarrow> nat \<Rightarrow> 'n pool \<Rightarrow> 'n pool" where
  "pool_schedule_push w k s =
     (let node = scheduling s ! k;
          s = s\<lparr>scheduling := take k (scheduling s) @ drop (Suc k) (scheduling s)\<rparr>;
          (accepted, s) = queue_push w node s
      in if accepted then s else s\<lparr>refused := refused s @ [node]\<rparr>)"

text \<open>\<open>worker_job\<close>: a pop, the execution of the task, and the end of its round.\<close>

definition worker_pop :: "nat \<Rightarrow> 'n pool \<Rightarrow> 'n pool" where
  "worker_pop i s =
     (let (r, s) = queue_try_pop s
      in to_worker i (case r of Pop_wait \<Rightarrow> Wk_wait | Pop_node node \<Rightarrow> Wk_execute node | Pop_null \<Rightarrow> Wk_exited) s)"

definition worker_execute :: "nat \<Rightarrow> 'n pool \<Rightarrow> 'n pool" where
  "worker_execute i s = (case workers s i of
     Wk_execute task \<Rightarrow> to_worker i (Wk_finish task) (s\<lparr>executed := executed s @ [task]\<rparr>)
   | _ \<Rightarrow> s)"

definition worker_done :: "nat \<Rightarrow> 'n pool \<Rightarrow> 'n pool" where
  "worker_done i s = to_worker i Wk_lock (wg_done s)"

text \<open>
  Steps. The moves of the clients and of the memory are marked \<open>True\<close>: a task is scheduled, the pool
  is stopped, a thread starts to wait for it, a wait ends spuriously. In flight are the tasks that
  are counted; a task is scheduled only while they are fewer than the counter can hold.
\<close>

fun busy :: "'n worker \<Rightarrow> bool" where
  "busy (Wk_execute n) = True" | "busy (Wk_finish n) = True" | "busy p = False"

definition running :: "nat \<Rightarrow> 'n pool \<Rightarrow> nat" where
  "running K s = num K busy (workers s)"

definition counted :: "nat \<Rightarrow> 'n pool \<Rightarrow> nat" where
  "counted K s = length (scheduling s) + length (tasks s) + running K s + length (refused s)"

inductive pool_step :: "nat \<Rightarrow> bool \<Rightarrow> 'n pool \<Rightarrow> 'n pool \<Rightarrow> bool" for K where
  po_add: "counted K s + 1 < 2 ^ 32 \<Longrightarrow> pool_step K True s (pool_schedule_add n s)"
| po_push_one: "k < length (scheduling s) \<Longrightarrow> blocked K s i \<Longrightarrow> pool_step K False s (pool_schedule_push (Some i) k s)"
| po_push_none: "k < length (scheduling s) \<Longrightarrow> (\<And>i. \<not> blocked K s i) \<Longrightarrow> pool_step K False s (pool_schedule_push None k s)"
| po_pop: "i < K \<Longrightarrow> workers s i = Wk_lock \<Longrightarrow> pool_step K False s (worker_pop i s)"
| po_wake: "i < K \<Longrightarrow> workers s i = Wk_wait \<Longrightarrow> pool_step K True s (to_worker i Wk_lock s)"
| po_execute: "i < K \<Longrightarrow> workers s i = Wk_execute n \<Longrightarrow> pool_step K False s (worker_execute i s)"
| po_done: "i < K \<Longrightarrow> workers s i = Wk_finish n \<Longrightarrow> pool_step K False s (worker_done i s)"
| po_close: "pool_step K True s (queue_close s)"
| po_wait: "idle_waiter s = Idle_absent \<Longrightarrow> pool_step K True s (s\<lparr>idle_waiter := Idle_load\<rparr>)"
| po_load: "idle_waiter s = Idle_load \<Longrightarrow> pool_step K False s (wg_wait s)"
| po_unblock: "idle_waiter s = Idle_blocked w \<Longrightarrow> pool_step K True s (s\<lparr>idle_waiter := Idle_load\<rparr>)"

definition pool_reachable :: "nat \<Rightarrow> 'n pool \<Rightarrow> bool" where
  "pool_reachable K s \<longleftrightarrow> (\<lambda>s s'. \<exists>b. pool_step K b s s')\<^sup>*\<^sup>* pool_init s"

section \<open>The invariant\<close>

fun held_task :: "'n worker \<Rightarrow> 'n multiset" where
  "held_task (Wk_execute n) = {#n#}" | "held_task p = {#}"

definition held :: "nat \<Rightarrow> (nat \<Rightarrow> 'n worker) \<Rightarrow> 'n multiset" where
  "held K ws = (\<Sum>i<K. held_task (ws i))"

lemma held_upd: "i < K \<Longrightarrow> held K (ws(i := x)) + held_task (ws i) = held K ws + held_task x"
  unfolding held_def by (rule sum_phase_upd)

lemma held_keep [simp]: "i < K \<Longrightarrow> held_task (ws i) = {#} \<Longrightarrow> held_task x = {#} \<Longrightarrow> held K (ws(i := x)) = held K ws"
  using held_upd [of i K ws x] by simp

lemma busy_keep [simp]: "i < K \<Longrightarrow> busy (ws i) = busy x \<Longrightarrow> num K busy (ws(i := x)) = num K busy ws"
  using num_upd [of i K busy ws x] by simp

lemma wake_all_keep [simp]: "held K (wake_all ws) = held K ws" "num K busy (wake_all ws) = num K busy ws"
  by (auto simp: held_def num_def wake_all_def intro!: sum.cong arg_cong [where f = card])

definition count_ok :: "nat \<Rightarrow> 'n pool \<Rightarrow> bool" where
  "count_ok K s \<longleftrightarrow> wg_work s = of_nat (counted K s) \<and> counted K s < 2 ^ 32 \<and>
     (\<forall>w. idle_waiter s = Idle_blocked w \<longrightarrow> counted K s \<noteq> 0)"

definition order_ok :: "nat \<Rightarrow> 'n pool \<Rightarrow> bool" where
  "order_ok K s \<longleftrightarrow> popped s @ tasks s = pushed s \<and> mset (executed s) + held K (workers s) = mset (popped s)"

definition workers_ok :: "nat \<Rightarrow> 'n pool \<Rightarrow> bool" where
  "workers_ok K s \<longleftrightarrow> \<not> pop_failed s \<and> (refused s \<noteq> [] \<longrightarrow> is_closed s) \<and>
     (\<forall>i. (i \<ge> K \<longrightarrow> workers s i = Wk_lock) \<and> (workers s i = Wk_wait \<longrightarrow> \<not> is_closed s) \<and>
        (workers s i = Wk_exited \<longrightarrow> is_closed s \<and> tasks s = [])) \<and>
     (tasks s \<noteq> [] \<longrightarrow> (\<exists>i<K. workers s i \<noteq> Wk_wait \<and> workers s i \<noteq> Wk_exited))"

definition pool_inv :: "nat \<Rightarrow> 'n pool \<Rightarrow> bool" where
  "pool_inv K s \<longleftrightarrow> count_ok K s \<and> order_ok K s \<and> workers_ok K s"

subsection \<open>Frames\<close>

lemma to_worker_frame [simp]:
  "tasks (to_worker i p s) = tasks s" "is_closed (to_worker i p s) = is_closed s" "wg_work (to_worker i p s) = wg_work s"
  "workers (to_worker i p s) = (workers s)(i := p)" "idle_waiter (to_worker i p s) = idle_waiter s"
  "scheduling (to_worker i p s) = scheduling s" "pushed (to_worker i p s) = pushed s" "refused (to_worker i p s) = refused s"
  "popped (to_worker i p s) = popped s" "executed (to_worker i p s) = executed s" "pop_failed (to_worker i p s) = pop_failed s"
  by (simp_all add: to_worker_def)

lemma wg_done_frame [simp]:
  "tasks (wg_done s) = tasks s" "is_closed (wg_done s) = is_closed s" "wg_work (wg_done s) = wg_work s - 1"
  "workers (wg_done s) = workers s" "scheduling (wg_done s) = scheduling s" "pushed (wg_done s) = pushed s"
  "refused (wg_done s) = refused s" "popped (wg_done s) = popped s" "executed (wg_done s) = executed s"
  "pop_failed (wg_done s) = pop_failed s"
  by (simp_all add: wg_done_def Let_def split: idle_wait.splits)

text \<open>What a push and a pop do, case by case.\<close>

lemma pool_schedule_push_eq:
  "pool_schedule_push w k s =
     (let node = scheduling s ! k; s1 = s\<lparr>scheduling := take k (scheduling s) @ drop (Suc k) (scheduling s)\<rparr>
      in if is_closed s then s1\<lparr>refused := refused s @ [node]\<rparr>
         else let s2 = s1\<lparr>tasks := tasks s @ [node], pushed := pushed s @ [node]\<rparr>
              in if tasks s = [] then notify_one w s2 else s2)"
  by (simp add: pool_schedule_push_def queue_push_def Let_def)

lemma worker_pop_eq:
  "\<not> pop_failed s \<Longrightarrow> worker_pop i s = (case tasks s of
     [] \<Rightarrow> to_worker i (if is_closed s then Wk_exited else Wk_wait) s
   | n # ns \<Rightarrow> to_worker i (Wk_execute n) (s\<lparr>tasks := ns, popped := popped s @ [n]\<rparr>))"
  by (simp add: worker_pop_def queue_try_pop_def split: list.splits)

subsection \<open>Every step keeps it\<close>

lemma order_step:
  assumes "pool_step K b s s'" "order_ok K s" "workers_ok K s"
  shows "order_ok K s'"
  using assms(1)
proof cases
  case (po_push_one k i)
  then show ?thesis using assms(2)
    by (auto simp: pool_schedule_push_eq order_ok_def Let_def notify_one_def blocked_def)
next
  case (po_push_none k)
  then show ?thesis using assms(2) by (auto simp: pool_schedule_push_eq order_ok_def Let_def notify_one_def)
next
  case (po_pop i)
  have "\<not> pop_failed s" using assms(3) by (simp add: workers_ok_def)
  then show ?thesis using po_pop assms(2) held_upd [of i K "workers s" "Wk_execute (hd (tasks s))"]
    by (auto simp: worker_pop_eq order_ok_def ac_simps split: list.splits)
next
  case (po_execute i n)
  then show ?thesis using assms(2) held_upd [of i K "workers s" "Wk_finish n"]
    by (simp add: worker_execute_def order_ok_def) (metis add_mset_add_single union_assoc union_commute)
next
  case po_close
  then show ?thesis using po_close assms(2) by (simp add: order_ok_def queue_close_def notify_all_def)
qed (use assms(2) in \<open>simp_all add: order_ok_def pool_schedule_add_def wg_add_def worker_done_def wg_wait_def Let_def\<close>)

text \<open>After a push, a worker is awake that was not, or was before.\<close>

lemma workers_push:
  assumes ok: "workers_ok K s" and w: "case w of None \<Rightarrow> \<exists>i<K. workers s i \<noteq> Wk_wait \<or> is_closed s | Some i \<Rightarrow> i < K \<and> workers s i = Wk_wait"
  shows "workers_ok K (pool_schedule_push w k s)"
proof -
  let ?s = "pool_schedule_push w k s"
  consider (closed) "is_closed s" | (empty) "\<not> is_closed s" "tasks s = []" | (busy) "\<not> is_closed s" "tasks s \<noteq> []" by blast
  then show ?thesis
  proof cases
    case closed
    then have "workers ?s = workers s" "tasks ?s = tasks s" "is_closed ?s" "pop_failed ?s = pop_failed s"
      by (simp_all add: pool_schedule_push_eq Let_def)
    then show ?thesis using ok closed unfolding workers_ok_def by auto
  next
    case busy
    then have "workers ?s = workers s" "tasks ?s \<noteq> []" "\<not> is_closed ?s" "pop_failed ?s = pop_failed s" "refused ?s = refused s"
      by (simp_all add: pool_schedule_push_eq Let_def)
    then show ?thesis using ok busy unfolding workers_ok_def by auto
  next
    case empty
    have f: "workers ?s = (case w of None \<Rightarrow> workers s | Some i \<Rightarrow> (workers s)(i := Wk_lock))" "\<not> is_closed ?s"
      "pop_failed ?s = pop_failed s" "refused ?s = refused s"
      using empty by (simp_all add: pool_schedule_push_eq Let_def notify_one_def split: option.split)
    have "\<not> workers s i = Wk_exited" for i using ok empty by (auto simp: workers_ok_def)
    moreover have "\<exists>i<K. workers ?s i \<noteq> Wk_wait"
      using w empty unfolding f(1) by (auto split: option.splits)
    moreover have "workers ?s i = workers s i \<or> workers ?s i = Wk_lock" for i
      unfolding f(1) by (simp split: option.split)
    ultimately show ?thesis using ok empty f(2-4) unfolding workers_ok_def by (metis worker.distinct(7))
  qed
qed

lemma workers_step:
  assumes "pool_step K b s s'" "workers_ok K s" "0 < K"
  shows "workers_ok K s'"
  using assms(1)
proof cases
  case (po_push_one k i)
  then show ?thesis using workers_push [OF assms(2), of "Some i" k] by (simp add: blocked_def)
next
  case (po_push_none k)
  then have "\<exists>i<K. workers s i \<noteq> Wk_wait \<or> is_closed s" using assms(3) by (auto simp: blocked_def)
  then show ?thesis using po_push_none workers_push [OF assms(2), of None k] by simp
next
  case (po_pop i)
  have "\<not> pop_failed s" using assms(2) by (simp add: workers_ok_def)
  then show ?thesis using po_pop assms(2)
    by (cases "tasks s") (auto simp: worker_pop_eq workers_ok_def)
next
  case (po_execute i n)
  then show ?thesis using assms(2) by (auto simp: worker_execute_def workers_ok_def)
next
  case (po_done i n)
  then show ?thesis using assms(2) by (auto simp: worker_done_def workers_ok_def)
next
  case (po_wake i)
  then show ?thesis using assms(2) by (auto simp: workers_ok_def)
next
  case po_close
  then show ?thesis using assms(2) by (auto simp: workers_ok_def queue_close_def notify_all_def wake_all_def)
qed (use assms(2) in \<open>simp_all add: workers_ok_def pool_schedule_add_def wg_add_def wg_wait_def Let_def\<close>)

lemma count_push:
  assumes "count_ok K s" "k < length (scheduling s)" "case w of None \<Rightarrow> True | Some i \<Rightarrow> i < K \<and> workers s i = Wk_wait"
  shows "count_ok K (pool_schedule_push w k s)"
proof -
  let ?s = "pool_schedule_push w k s"
  have "wg_work ?s = wg_work s" "idle_waiter ?s = idle_waiter s"
    by (simp_all add: pool_schedule_push_eq Let_def notify_one_def split: option.split)
  moreover have "counted K ?s = counted K s"
    using assms(2,3) by (auto simp: pool_schedule_push_eq Let_def notify_one_def counted_def running_def split: option.splits)
  ultimately show ?thesis using assms(1) by (simp add: count_ok_def)
qed

lemma of_nat_u32_eq_0: "n < 2 ^ 32 \<Longrightarrow> ((of_nat n :: u32) = 0) = (n = 0)"
  by (auto simp: word_of_nat_eq_0_iff dest: dvd_imp_le)

lemma count_done:
  assumes ok: "count_ok K s" and i: "i < K" "workers s i = Wk_finish n"
  shows "count_ok K (worker_done i s)"
proof -
  have r: "running K s = Suc (num K busy ((workers s)(i := Wk_lock)))"
    using num_upd [OF i(1), of busy "workers s" Wk_lock] i(2) by (simp add: running_def)
  have c: "counted K s = Suc (counted K (worker_done i s))"
    using r by (simp add: counted_def worker_done_def running_def)
  have w: "wg_work (worker_done i s) = of_nat (counted K (worker_done i s))"
    using ok c by (simp add: count_ok_def worker_done_def)
  have one: "wg_work s = 1 \<longleftrightarrow> counted K (worker_done i s) = 0"
    using ok c of_nat_u32_eq_0 [of "counted K (worker_done i s)"] by (simp add: count_ok_def)
  have "idle_waiter (worker_done i s) = (case idle_waiter s of Idle_blocked v \<Rightarrow> if wg_work s = 1 then Idle_load else Idle_blocked v | p \<Rightarrow> p)"
    by (simp add: worker_done_def wg_done_def Let_def split: idle_wait.split)
  then show ?thesis using ok c w one by (auto simp: count_ok_def split: idle_wait.splits)
qed

lemma count_step:
  assumes "pool_step K b s s'" "count_ok K s" "workers_ok K s"
  shows "count_ok K s'"
  using assms(1)
proof cases
  case (po_add n)
  then show ?thesis using assms(2)
    by (auto simp: count_ok_def pool_schedule_add_def wg_add_def counted_def running_def split: idle_wait.splits)
next
  case (po_push_one k i)
  then show ?thesis using count_push [OF assms(2), of k "Some i"] by (simp add: blocked_def)
next
  case (po_push_none k)
  then show ?thesis using count_push [OF assms(2), of k None] by simp
next
  case (po_pop i)
  have "\<not> pop_failed s" using assms(3) by (simp add: workers_ok_def)
  then have "counted K s' = counted K s" "wg_work s' = wg_work s" "idle_waiter s' = idle_waiter s"
    using po_pop num_upd [of i K busy "workers s" "Wk_execute (hd (tasks s))"]
    by (cases "tasks s"; simp add: worker_pop_eq counted_def running_def)+
  then show ?thesis using assms(2) by (simp add: count_ok_def)
next
  case (po_execute i n)
  then show ?thesis using assms(2) by (simp add: count_ok_def worker_execute_def counted_def running_def)
next
  case (po_done i n)
  then show ?thesis using count_done [OF assms(2)] by simp
next
  case (po_wake i)
  then show ?thesis using assms(2) by (simp add: count_ok_def counted_def running_def)
next
  case po_close
  then show ?thesis using po_close assms(2) by (simp add: count_ok_def queue_close_def notify_all_def counted_def running_def)
next
  case po_load
  have "wg_work s = 0 \<longleftrightarrow> counted K s = 0" using assms(2) of_nat_u32_eq_0 [of "counted K s"] by (simp add: count_ok_def)
  then show ?thesis using po_load assms(2) by (auto simp: count_ok_def wg_wait_def Let_def counted_def running_def)
qed (use assms(2) in \<open>simp_all add: count_ok_def counted_def running_def\<close>)

lemma pool_init_inv: "pool_inv K pool_init"
  by (simp add: pool_inv_def pool_init_def count_ok_def order_ok_def workers_ok_def counted_def running_def num_def held_def)

lemma pool_reachable_inv:
  assumes "pool_reachable K s" "0 < K"
  shows "pool_inv K s"
  using assms(1) unfolding pool_reachable_def
proof (induction rule: rtranclp_induct)
  case base
  show ?case by (rule pool_init_inv)
next
  case (step s s')
  then show ?case using order_step count_step workers_step [OF _ _ assms(2)] unfolding pool_inv_def by blast
qed

section \<open>The pool drains\<close>

fun worker_cost :: "'n worker \<Rightarrow> nat" where
  "worker_cost (Wk_execute n) = 5" | "worker_cost (Wk_finish n) = 4" | "worker_cost Wk_lock = 1" | "worker_cost p = 0"

definition pool_cost :: "nat \<Rightarrow> 'n pool \<Rightarrow> nat" where
  "pool_cost K s = 8 * length (scheduling s) + 6 * length (tasks s) + (\<Sum>i<K. worker_cost (workers s i)) +
     (if idle_waiter s = Idle_load then 1 else 0)"

lemmas cost_upd = sum_phase_upd [where f = worker_cost]

lemma cost_push:
  assumes "k < length (scheduling s)" "case w of None \<Rightarrow> True | Some i \<Rightarrow> i < K \<and> workers s i = Wk_wait"
  shows "pool_cost K (pool_schedule_push w k s) < pool_cost K s"
proof (cases w)
  case None
  then show ?thesis using assms(1) by (auto simp: pool_schedule_push_eq pool_cost_def Let_def notify_one_def)
next
  case (Some i)
  then show ?thesis using assms cost_upd [where i = i and N = K and ph = "workers s" and x = Wk_lock]
    by (auto simp: pool_schedule_push_eq pool_cost_def Let_def notify_one_def)
qed

lemma pool_step_closer:
  assumes "pool_step K False s s'" "workers_ok K s"
  shows "pool_cost K s' < pool_cost K s"
  using assms(1)
proof cases
  case (po_push_one k i)
  then show ?thesis using cost_push [where w = "Some i" and s = s and k = k and K = K] by (simp add: blocked_def)
next
  case (po_push_none k)
  then show ?thesis using cost_push [where w = None and s = s and k = k and K = K] by simp
next
  case (po_pop i)
  have "\<not> pop_failed s" using assms(2) by (simp add: workers_ok_def)
  then show ?thesis using po_pop cost_upd [where i = i and N = K and ph = "workers s" and x = "Wk_execute (hd (tasks s))"]
      cost_upd [where i = i and N = K and ph = "workers s" and x = Wk_wait] cost_upd [where i = i and N = K and ph = "workers s" and x = Wk_exited]
    by (cases "tasks s") (simp_all add: worker_pop_eq pool_cost_def)
next
  case (po_execute i n)
  then show ?thesis using cost_upd [where i = i and N = K and ph = "workers s" and x = "Wk_finish n"] by (simp add: worker_execute_def pool_cost_def)
next
  case (po_done i n)
  have "idle_waiter (wg_done s) = Idle_load \<or> idle_waiter (wg_done s) = idle_waiter s"
    by (simp add: wg_done_def Let_def split: idle_wait.split)
  then show ?thesis using po_done cost_upd [where i = i and N = K and ph = "workers s" and x = Wk_lock] by (auto simp: worker_done_def pool_cost_def)
next
  case po_load
  then show ?thesis by (simp add: wg_wait_def pool_cost_def Let_def)
qed simp_all

section \<open>At rest\<close>

lemma pool_rest:
  assumes stuck: "\<And>s'. \<not> pool_step K False s s'"
  shows "scheduling s = []" "i < K \<Longrightarrow> workers s i = Wk_wait \<or> workers s i = Wk_exited" "idle_waiter s \<noteq> Idle_load"
proof -
  show "scheduling s = []"
  proof (rule ccontr)
    assume "scheduling s \<noteq> []"
    then have k: "0 < length (scheduling s)" by simp
    show False using stuck po_push_one [OF k] po_push_none [OF k] by blast
  qed
  show "workers s i = Wk_wait \<or> workers s i = Wk_exited" if "i < K"
    using that stuck po_pop [of i K s] po_execute [of i K s] po_done [of i K s] by (cases "workers s i") auto
  show "idle_waiter s \<noteq> Idle_load" using stuck po_load by blast
qed

lemma pool_rest_done:
  assumes inv: "pool_inv K s" and stuck: "\<And>s'. \<not> pool_step K False s s'"
  shows "mset (executed s) = mset (pushed s)" "tasks s = []" "counted K s = length (refused s)"
    and "is_closed s \<Longrightarrow> i < K \<Longrightarrow> workers s i = Wk_exited"
    and "refused s = [] \<Longrightarrow> idle_waiter s \<in> {Idle_absent, Idle_returned}"
proof -
  note rest = pool_rest [OF stuck]
  have ok: "count_ok K s" "order_ok K s" "workers_ok K s" using inv by (simp_all add: pool_inv_def)
  show t: "tasks s = []"
  proof (rule ccontr)
    assume "tasks s \<noteq> []"
    then obtain i where "i < K" "workers s i \<noteq> Wk_wait" "workers s i \<noteq> Wk_exited" using ok(3) by (auto simp: workers_ok_def)
    then show False using rest(2) by blast
  qed
  have idle: "i < K \<Longrightarrow> held_task (workers s i) = {#} \<and> \<not> busy (workers s i)" for i using rest(2) [of i] by auto
  then have "held K (workers s) = {#}" by (simp add: held_def)
  then show "mset (executed s) = mset (pushed s)" using ok(2) t by (simp add: order_ok_def)
  have "running K s = 0" unfolding running_def using idle by (simp add: num_none)
  then show c: "counted K s = length (refused s)" using rest(1) t by (simp add: counted_def)
  show "workers s i = Wk_exited" if "is_closed s" "i < K" using that rest(2) [of i] ok(3) by (auto simp: workers_ok_def)
  show "idle_waiter s \<in> {Idle_absent, Idle_returned}" if "refused s = []"
    using that c ok(1) rest(3) by (cases "idle_waiter s") (auto simp: count_ok_def)
qed

lemma with_hw_limit_pos: "0 < tcount \<Longrightarrow> 0 < unat (with_hw_limit hwc tcount)"
  by (auto simp: with_hw_limit_def min_def unat_gt_0)

text \<open>A refused task stays counted.\<close>

lemma pool_refused_forever:
  assumes "(\<lambda>s s'. \<exists>b. pool_step K b s s')\<^sup>*\<^sup>* s s'" "pool_inv K s" "0 < K" "refused s \<noteq> []" "idle_waiter s \<noteq> Idle_returned"
  shows "pool_inv K s' \<and> refused s' \<noteq> [] \<and> idle_waiter s' \<noteq> Idle_returned"
  using assms(1)
proof (induction rule: rtranclp_induct)
  case (step s1 s2)
  then obtain b where st: "pool_step K b s1 s2" by blast
  have inv: "pool_inv K s2"
    using step.IH st order_step count_step workers_step [OF _ _ assms(3)] unfolding pool_inv_def by blast
  have c: "count_ok K s1" "refused s1 \<noteq> []" using step.IH by (simp_all add: pool_inv_def)
  have w: "wg_work s1 \<noteq> 0" using c of_nat_u32_eq_0 [of "counted K s1"] by (simp add: count_ok_def counted_def)
  have np: "\<not> pop_failed s1" using step.IH by (simp add: pool_inv_def workers_ok_def)
  from st have "refused s2 \<noteq> [] \<and> idle_waiter s2 \<noteq> Idle_returned"
    using c(2) w np step.IH
    by cases (auto simp: pool_schedule_add_def wg_add_def pool_schedule_push_eq Let_def notify_one_def worker_pop_eq worker_execute_def
        worker_done_def wg_done_def queue_close_def notify_all_def wg_wait_def split: option.splits list.splits idle_wait.splits)
  then show ?case using inv by blast
qed (use assms in auto)

section \<open>A concrete history\<close>

text \<open>
  One worker. It finds the queue empty and waits; two tasks are scheduled, the first push wakes it; it
  runs both and waits again, and a thread that waited for the pool returns.
\<close>

lemma pool_reachable_step: "pool_reachable K s \<Longrightarrow> pool_step K b s s' \<Longrightarrow> pool_reachable K s'"
  unfolding pool_reachable_def by (rule rtranclp.rtrancl_into_rtrancl) blast+

definition ex_pool_history :: "(nat pool \<Rightarrow> nat pool) list" where
  "ex_pool_history = [worker_pop 0, pool_schedule_add 5, pool_schedule_push (Some 0) 0, pool_schedule_add 6,
     (\<lambda>s. s\<lparr>idle_waiter := Idle_load\<rparr>), wg_wait, worker_pop 0, pool_schedule_push None 0, worker_execute 0, worker_done 0,
     worker_pop 0, worker_execute 0, worker_done 0, wg_wait, worker_pop 0]"

definition ex_pool :: "nat \<Rightarrow> nat pool" where
  "ex_pool k = fold (\<lambda>f. f) (take k ex_pool_history) pool_init"

lemma ex_pool_Suc: "k < length ex_pool_history \<Longrightarrow> ex_pool (Suc k) = (ex_pool_history ! k) (ex_pool k)"
  by (simp add: ex_pool_def take_Suc_conv_app_nth)

lemma ex_pool_steps: "k < 15 \<Longrightarrow> \<exists>b. pool_step 1 b (ex_pool k) ((ex_pool_history ! k) (ex_pool k))"
proof (erule less_15)
  have c: "counted 1 (ex_pool 1) = 0" "counted 1 (ex_pool 3) = 1" by code_simp+
  note steps = po_pop po_wait po_load po_execute po_done po_push_one
  have h: "ex_pool_history ! 0 = worker_pop 0" "ex_pool_history ! 1 = pool_schedule_add 5"
    "ex_pool_history ! 2 = pool_schedule_push (Some 0) 0" "ex_pool_history ! 3 = pool_schedule_add 6"
    "ex_pool_history ! 4 = (\<lambda>s. s\<lparr>idle_waiter := Idle_load\<rparr>)" "ex_pool_history ! 5 = wg_wait"
    "ex_pool_history ! 6 = worker_pop 0" "ex_pool_history ! 7 = pool_schedule_push None 0"
    "ex_pool_history ! 8 = worker_execute 0" "ex_pool_history ! 9 = worker_done 0" "ex_pool_history ! 10 = worker_pop 0"
    "ex_pool_history ! 11 = worker_execute 0" "ex_pool_history ! 12 = worker_done 0" "ex_pool_history ! 13 = wg_wait"
    "ex_pool_history ! 14 = worker_pop 0"
    by (simp_all add: ex_pool_history_def)
  show "\<exists>b. pool_step 1 b (ex_pool 0) ((ex_pool_history ! 0) (ex_pool 0))" unfolding h by (rule exI, rule steps; code_simp)
  show "\<exists>b. pool_step 1 b (ex_pool 1) ((ex_pool_history ! 1) (ex_pool 1))" unfolding h by (rule exI, rule po_add) (simp add: c [simplified])
  show "\<exists>b. pool_step 1 b (ex_pool 2) ((ex_pool_history ! 2) (ex_pool 2))" unfolding h by (rule exI, rule steps; code_simp)
  show "\<exists>b. pool_step 1 b (ex_pool 3) ((ex_pool_history ! 3) (ex_pool 3))" unfolding h by (rule exI, rule po_add) (simp add: c [simplified])
  show "\<exists>b. pool_step 1 b (ex_pool 4) ((ex_pool_history ! 4) (ex_pool 4))" unfolding h by (rule exI, rule steps; code_simp)
  show "\<exists>b. pool_step 1 b (ex_pool 5) ((ex_pool_history ! 5) (ex_pool 5))" unfolding h by (rule exI, rule steps; code_simp)
  show "\<exists>b. pool_step 1 b (ex_pool 6) ((ex_pool_history ! 6) (ex_pool 6))" unfolding h by (rule exI, rule steps; code_simp)
  have w7: "workers (ex_pool 7) 0 \<noteq> Wk_wait" "0 < length (scheduling (ex_pool 7))" by code_simp+
  then have "\<not> blocked 1 (ex_pool 7) i" for i by (cases i) (simp_all add: blocked_def)
  from po_push_none [OF w7(2) this]
  show "\<exists>b. pool_step 1 b (ex_pool 7) ((ex_pool_history ! 7) (ex_pool 7))" unfolding h by blast
  have w: "workers (ex_pool 8) 0 = Wk_execute 5" "workers (ex_pool 11) 0 = Wk_execute 6" "workers (ex_pool 9) 0 = Wk_finish 5"
    "workers (ex_pool 12) 0 = Wk_finish 6" by code_simp+
  show "\<exists>b. pool_step 1 b (ex_pool 8) ((ex_pool_history ! 8) (ex_pool 8))" unfolding h by (rule exI, rule po_execute [OF _ w(1)]) simp
  show "\<exists>b. pool_step 1 b (ex_pool 9) ((ex_pool_history ! 9) (ex_pool 9))" unfolding h by (rule exI, rule po_done [OF _ w(3)]) simp
  show "\<exists>b. pool_step 1 b (ex_pool 10) ((ex_pool_history ! 10) (ex_pool 10))" unfolding h by (rule exI, rule steps; code_simp)
  show "\<exists>b. pool_step 1 b (ex_pool 11) ((ex_pool_history ! 11) (ex_pool 11))" unfolding h by (rule exI, rule po_execute [OF _ w(2)]) simp
  show "\<exists>b. pool_step 1 b (ex_pool 12) ((ex_pool_history ! 12) (ex_pool 12))" unfolding h by (rule exI, rule po_done [OF _ w(4)]) simp
  show "\<exists>b. pool_step 1 b (ex_pool 13) ((ex_pool_history ! 13) (ex_pool 13))" unfolding h by (rule exI, rule steps; code_simp)
  show "\<exists>b. pool_step 1 b (ex_pool 14) ((ex_pool_history ! 14) (ex_pool 14))" unfolding h by (rule exI, rule steps; code_simp)
qed

lemma ex_pool_reachable: "k \<le> 15 \<Longrightarrow> pool_reachable 1 (ex_pool k)"
proof (induction k)
  case 0
  show ?case by (simp add: ex_pool_def pool_reachable_def)
next
  case (Suc k)
  then have "pool_reachable 1 (ex_pool k)" "k < 15" "ex_pool (Suc k) = (ex_pool_history ! k) (ex_pool k)"
    by (simp_all add: ex_pool_Suc ex_pool_history_def)
  then show ?case using ex_pool_steps [of k] pool_reachable_step by metis
qed

lemma ex_pool_end: "workers (ex_pool 15) 0 = Wk_wait" "idle_waiter (ex_pool 15) = Idle_returned" "scheduling (ex_pool 15) = []"
  "refused (ex_pool 15) = []" "executed (ex_pool 15) = [5, 6]" "pushed (ex_pool 15) = [5, 6]" "popped (ex_pool 15) = [5, 6]"
  by code_simp+

lemma ex_pool_stuck: "\<not> pool_step 1 False (ex_pool 15) s'"
proof
  assume "pool_step 1 False (ex_pool 15) s'"
  then show False by cases (auto simp: ex_pool_end)
qed

text \<open>The second history: the pool is stopped while a task is being scheduled.\<close>

definition ex_stopped :: "nat pool" where
  "ex_stopped = (pool_schedule_add 5 (queue_close (worker_pop 0 pool_init)))\<lparr>idle_waiter := Idle_load\<rparr>"

lemma ex_stopped_fields: "is_closed ex_stopped" "idle_waiter ex_stopped = Idle_load" "scheduling ex_stopped = [5]"
  "idle_waiter (wg_wait (pool_schedule_push None 0 ex_stopped)) = Idle_blocked 1"
  by code_simp+

lemma ex_stopped_reachable: "pool_reachable 1 ex_stopped"
proof -
  have a: "pool_reachable 1 (pool_init :: nat pool)" by (simp add: pool_reachable_def)
  have "workers (pool_init :: nat pool) 0 = Wk_lock" by code_simp
  then have b: "pool_reachable 1 (queue_close (worker_pop 0 pool_init) :: nat pool)"
    using pool_reachable_step [OF pool_reachable_step [OF a po_pop] po_close] by simp
  have "counted 1 (queue_close (worker_pop 0 pool_init) :: nat pool) = 0" by code_simp
  then have "pool_reachable 1 (pool_schedule_add 5 (queue_close (worker_pop 0 pool_init)) :: nat pool)"
    by (intro pool_reachable_step [OF b po_add]) simp
  moreover have "idle_waiter (pool_schedule_add 5 (queue_close (worker_pop 0 pool_init)) :: nat pool) = Idle_absent" by code_simp
  ultimately show ?thesis unfolding ex_stopped_def by (rule pool_reachable_step [OF _ po_wait])
qed

section \<open>Properties\<close>

text \<open>
  C20: The thread pool runs every accepted task exactly once. With the workers that the configuration
  gives, for any schedulers, stopping and waiting, in any interleaving: the tasks are popped in the
  order in which they were pushed; only boundedly many internal steps can follow a state; and when
  none is left, the executed tasks are exactly the accepted ones, a stopped pool's workers have
  exited, and if no task was refused a thread that waits for the pool to be idle has returned.
\<close>

theorem pool_runs_accepted_tasks:
  assumes "pool_reachable K s" "K = unat (with_hw_limit hwc tcount)" "0 < tcount"
  shows "popped s @ tasks s = pushed s \<and> mset (executed s) \<subseteq># mset (popped s) \<and> \<not> pop_failed s \<and>
    (\<forall>s'. pool_step K False s s' \<longrightarrow> pool_cost K s' < pool_cost K s) \<and>
    ((\<forall>s'. \<not> pool_step K False s s') \<longrightarrow>
      mset (executed s) = mset (pushed s) \<and>
      (is_closed s \<longrightarrow> (\<forall>i<K. workers s i = Wk_exited)) \<and>
      (refused s = [] \<longrightarrow> idle_waiter s \<in> {Idle_absent, Idle_returned}))"
proof -
  have inv: "pool_inv K s" using pool_reachable_inv assms with_hw_limit_pos by metis
  then have ok: "order_ok K s" "workers_ok K s" by (simp_all add: pool_inv_def)
  have "mset (executed s) + held K (workers s) = mset (popped s)" using ok by (simp add: order_ok_def)
  then have "mset (executed s) \<subseteq># mset (popped s)" by (metis mset_subset_eq_add_left)
  moreover have "popped s @ tasks s = pushed s" "\<not> pop_failed s" using ok by (simp_all add: order_ok_def workers_ok_def)
  ultimately show ?thesis
    using pool_step_closer [OF _ ok(2)] pool_rest_done(1) [OF inv] pool_rest_done(4) [OF inv] pool_rest_done(5) [OF inv] by blast
qed

theorem pool_runs_accepted_tasks_witness:
  "popped (ex_pool 15) @ tasks (ex_pool 15) = [5, 6] \<and> mset (executed (ex_pool 15)) = mset [5, 6] \<and>
   idle_waiter (ex_pool 15) \<in> {Idle_absent, Idle_returned} \<and> executed (ex_pool 15) = [5, 6]"
proof -
  have K: "(1 :: nat) = unat (with_hw_limit 8 1)" "0 < (1 :: u32)" by code_simp+
  note run = pool_runs_accepted_tasks [OF ex_pool_reachable [OF order_refl] K]
  have "\<forall>s'. \<not> pool_step 1 False (ex_pool 15) s'" using ex_pool_stuck by blast
  then show ?thesis using run by (simp add: ex_pool_end)
qed

text \<open>
  A task scheduled on a stopped pool is lost. The queue refuses it, and \<open>schedule\<close> ignores that
  although it has counted the task: the task is neither executed nor cancelled, and from then on the
  counter never returns to zero and no thread that waits for the pool to be idle returns.
\<close>

theorem pool_schedule_after_stop:
  assumes "pool_reachable K s" "0 < K" "is_closed s" "k < length (scheduling s)" "idle_waiter s \<noteq> Idle_returned"
    and "(\<lambda>s s'. \<exists>b. pool_step K b s s')\<^sup>*\<^sup>* (pool_schedule_push None k s) s'"
  shows "refused (pool_schedule_push None k s) = refused s @ [scheduling s ! k] \<and>
    tasks (pool_schedule_push None k s) = tasks s \<and> wg_work s' \<noteq> 0 \<and> idle_waiter s' \<noteq> Idle_returned"
proof -
  have r: "refused (pool_schedule_push None k s) = refused s @ [scheduling s ! k]"
    "tasks (pool_schedule_push None k s) = tasks s"
    using assms(3) by (simp_all add: pool_schedule_push_eq Let_def)
  have inv: "pool_inv K s" by (rule pool_reachable_inv [OF assms(1,2)])
  have "\<not> blocked K s i" for i using inv assms(3) by (auto simp: pool_inv_def workers_ok_def blocked_def)
  then have "pool_reachable K (pool_schedule_push None k s)"
    using pool_reachable_step [OF assms(1) po_push_none [OF assms(4)]] by blast
  from pool_refused_forever [OF assms(6) pool_reachable_inv [OF this assms(2)] assms(2)]
  have "pool_inv K s' \<and> refused s' \<noteq> [] \<and> idle_waiter s' \<noteq> Idle_returned"
    using r(1) assms(3,5) by (simp add: pool_schedule_push_eq Let_def)
  then show ?thesis
    using r of_nat_u32_eq_0 [of "counted K s'"] by (simp add: pool_inv_def count_ok_def counted_def)
qed

theorem pool_schedule_after_stop_witness:
  "refused (pool_schedule_push None 0 ex_stopped) = [5] \<and> wg_work (wg_wait (pool_schedule_push None 0 ex_stopped)) \<noteq> 0 \<and>
   idle_waiter (wg_wait (pool_schedule_push None 0 ex_stopped)) \<noteq> Idle_returned"
proof -
  have "idle_waiter (pool_schedule_push None 0 ex_stopped) = Idle_load" "refused ex_stopped = []" by code_simp+
  then have "(\<lambda>s s'. \<exists>b. pool_step 1 b s s')\<^sup>*\<^sup>* (pool_schedule_push None 0 ex_stopped) (wg_wait (pool_schedule_push None 0 ex_stopped))"
    using po_load by (intro r_into_rtranclp) blast
  from pool_schedule_after_stop [OF ex_stopped_reachable _ ex_stopped_fields(1) _ _ this] \<open>refused ex_stopped = []\<close>
  show ?thesis by (simp add: ex_stopped_fields)
qed

end
