(* ===== verification/Events.thy ===== *)
theory Events
  imports Sl_Prelude
begin

text \<open>
  The one-shot events of \<^verbatim>\<open>thread/event/{atomic,mutex,nowait}.hpp\<close>, on which \<open>get()\<close> blocks: one thread
  sets the event, another waits for it. A blocked wait ends by a notification or spuriously. The
  atomic event stores and then notifies; the mutex event sets its flag under the mutex; the nowait
  event does not block and asserts that it is set.
\<close>

section \<open>State\<close>





section \<open>Operations\<close>







section \<open>Steps\<close>










section \<open>The wake-up\<close>






end
