(* ===== verification/Manual_Executor.thy ===== *)
theory Manual_Executor
  imports Intrusive_List
begin

text \<open>
  The manual executor, \<^verbatim>\<open>algo/sched/manual.hpp\<close> and \<^verbatim>\<open>src/algo/sched/manual.cpp\<close>: scheduled tasks wait in
  an intrusive list until the owner runs a batch of them or a bounded number. Executing a task may
  schedule tasks, itself included; which ones is a parameter, a function of all executions so far, the latest last.
  Cancelling a task is taken to schedule nothing.

  A node belongs to one list at a time. The list that \<open>execute_batch\<close> walks keeps its nodes until the walk
  ends; \<open>relinked\<close> records that a node was pushed while it was in the queue or in such a batch.
\<close>

section \<open>The executor\<close>

record ('q, 'n) manual =
  task_queue :: 'q
  in_batch :: "'n list"
  scheduled :: "'n list"
  finished :: "('n \<times> bool) list"
  relinked :: bool
  destroyed_busy :: bool

text \<open>\<open>finished\<close> lists the tasks that were executed (\<open>True\<close>) or cancelled, in that order.\<close>

definition manual_init :: "('q, 'n) ilist_ops \<Rightarrow> ('q, 'n) manual" where
  "manual_init L = \<lparr>task_queue = il_new L, in_batch = [], scheduled = [], finished = [], relinked = False, destroyed_busy = False\<rparr>"

definition manual_schedule :: "('q, 'n) ilist_ops \<Rightarrow> 'n \<Rightarrow> ('q, 'n) manual \<Rightarrow> ('q, 'n) manual" where
  "manual_schedule L n m = m\<lparr>task_queue := il_push_back L n (task_queue m), scheduled := scheduled m @ [n],
     relinked := (relinked m \<or> n \<in> set (in_batch m) \<or> n \<in> set (il_items L (task_queue m)))\<rparr>"

definition executed_of :: "('q, 'n) manual \<Rightarrow> 'n list" where
  "executed_of m = map fst (filter snd (finished m))"

text \<open>\<open>task_node->execute()\<close>, \<open>eff\<close> being what tasks schedule.\<close>

definition manual_execute :: "('q, 'n) ilist_ops \<Rightarrow> ('n list \<Rightarrow> 'n list) \<Rightarrow> 'n \<Rightarrow> ('q, 'n) manual \<Rightarrow> ('q, 'n) manual" where
  "manual_execute L eff n m =
     (let m = m\<lparr>finished := finished m @ [(n, True)]\<rparr> in fold (manual_schedule L) (eff (executed_of m)) m)"



definition execute_batch :: "('q, 'n) ilist_ops \<Rightarrow> ('n list \<Rightarrow> 'n list) \<Rightarrow> ('q, 'n) manual \<Rightarrow> nat \<times> ('q, 'n) manual" where
  "execute_batch L eff m =
     (let batch = il_items L (task_queue m);
          m = m\<lparr>task_queue := il_new L, in_batch := batch\<rparr>;
          m = fold (manual_execute L eff) batch m
      in (length batch, m\<lparr>in_batch := []\<rparr>))"

text \<open>\<open>execute_at_most\<close>: the counter and what is left of \<open>n\<close>.\<close>

primrec at_most_loop ::
  "('q, 'n) ilist_ops \<Rightarrow> ('n list \<Rightarrow> 'n list) \<Rightarrow> nat \<Rightarrow> nat \<Rightarrow> ('q, 'n) manual \<Rightarrow> nat \<times> ('q, 'n) manual" where
  "at_most_loop L eff 0 counter m = (counter, m)"
| "at_most_loop L eff (Suc n) counter m =
     (case il_pop_front L (task_queue m) of
        (None, q) \<Rightarrow> (counter, m\<lparr>task_queue := q\<rparr>)
      | (Some task, q) \<Rightarrow> at_most_loop L eff n (Suc counter) (manual_execute L eff task (m\<lparr>task_queue := q\<rparr>)))"

definition execute_at_most ::
  "('q, 'n) ilist_ops \<Rightarrow> ('n list \<Rightarrow> 'n list) \<Rightarrow> nat \<Rightarrow> ('q, 'n) manual \<Rightarrow> nat \<times> ('q, 'n) manual" where
  "execute_at_most L eff n m = at_most_loop L eff n 0 m"


section \<open>Histories\<close>




lemma map_fst_flag [simp]: "map (fst \<circ> (\<lambda>k. (k, c))) ks = ks"
  by (simp add: comp_def)


lemma relinked_schedule: "relinked m \<Longrightarrow> relinked (manual_schedule L n m)"
  by (simp add: manual_schedule_def)

lemma relinked_schedules: "relinked m \<Longrightarrow> relinked (fold (manual_schedule L) ns m)"
  by (induction ns arbitrary: m) (simp_all add: relinked_schedule)

lemma relinked_execute: "relinked m \<Longrightarrow> relinked (manual_execute L eff n m)"
  by (simp add: manual_execute_def relinked_schedules Let_def)

lemma relinked_executes: "relinked m \<Longrightarrow> relinked (fold (manual_execute L eff) ns m)"
  by (induction ns arbitrary: m) (simp_all add: relinked_execute)





section \<open>The operations\<close>









section \<open>Properties\<close>




text \<open>
  A batch breaks when a task schedules itself, as the task of a strand does when more work has come
  in. For every state with such a task waiting, \<open>execute_batch\<close> pushes its node while it is linked in the batch, which the intrusive list does
  not allow; \<open>execute_at_most\<close>, which takes the node out first, executes it again and again.
\<close>

theorem manual_batch_relinks:
  assumes L: "ilist_laws L" and self: "\<And>h. eff (h @ [n]) = [n]"
  shows "(n \<in> set (il_items L (task_queue m)) \<longrightarrow> relinked (snd (execute_batch L eff m))) \<and>
    (il_items L (task_queue m) = [n] \<and> in_batch m = [] \<and> \<not> relinked m \<longrightarrow>
       (case execute_at_most L eff k m of (j, m') \<Rightarrow>
          \<not> relinked m' \<and> j = k \<and> finished m' = finished m @ replicate k (n, True) \<and> il_items L (task_queue m') = [n]))"
proof -
  have ex: "executed_of (m\<lparr>finished := finished m @ [(n, True)]\<rparr>) = executed_of m @ [n]" for m :: "('a, 'b) manual"
    by (simp add: executed_of_def)
  have batch: "in_batch (fold (manual_schedule L) ks m) = in_batch m" for ks and m :: "('a, 'b) manual"
    by (induction ks arbitrary: m) (simp_all add: manual_schedule_def)
  have step: "in_batch (manual_execute L eff x m) = in_batch m" for x and m :: "('a, 'b) manual"
    by (simp add: manual_execute_def Let_def batch)
  have "n \<in> set ks \<Longrightarrow> n \<in> set (in_batch m) \<Longrightarrow> relinked (fold (manual_execute L eff) ks m)" for ks and m :: "('a, 'b) manual"
  proof (induction ks arbitrary: m)
    case (Cons k ks)
    show ?case
    proof (cases "k = n")
      case True
      have "relinked (manual_execute L eff n m)" using Cons.prems(2) self
        by (simp add: manual_execute_def Let_def ex manual_schedule_def)
      then show ?thesis using True by (simp add: relinked_executes)
    next
      case False
      then show ?thesis using Cons.IH [of "manual_execute L eff k m"] Cons.prems step by simp
    qed
  qed simp
  then have A: "n \<in> set (il_items L (task_queue m)) \<longrightarrow> relinked (snd (execute_batch L eff m))"
    by (simp add: execute_batch_def Let_def)
  have "il_items L (task_queue m) = [n] \<Longrightarrow> in_batch m = [] \<Longrightarrow> \<not> relinked m \<Longrightarrow>
      (case at_most_loop L eff k c m of (j, m') \<Rightarrow> \<not> relinked m' \<and> j = c + k \<and> finished m' = finished m @ replicate k (n, True) \<and>
         il_items L (task_queue m') = [n])" for c and m :: "('a, 'b) manual"
  proof (induction k arbitrary: c m)
    case (Suc k)
    obtain t q where pop: "il_pop_front L (task_queue m) = (t, q)" by (cases "il_pop_front L (task_queue m)")
    have t: "t = Some n" "il_items L q = []"
      using ilist_lawsD(5) [OF L Suc.prems(1)] ilist_lawsD(6) [OF L, of "task_queue m"] pop Suc.prems(1) by simp_all
    let ?m = "manual_execute L eff n (m\<lparr>task_queue := q\<rparr>)"
    have e: "?m = m\<lparr>task_queue := il_push_back L n q, finished := finished m @ [(n, True)], scheduled := scheduled m @ [n]\<rparr>"
      using Suc.prems t self [of "executed_of m"] by (simp add: manual_execute_def Let_def manual_schedule_def executed_of_def)
    have "il_items L (il_push_back L n q) = [n]" using ilist_lawsD(2) [OF L, of n q] t by simp
    then show ?case using Suc.IH [of ?m "Suc c"] Suc.prems pop t by (simp add: e split: prod.splits)
  qed simp
  from this [of m 0] A show ?thesis by (simp add: execute_at_most_def)
qed

theorem manual_batch_relinks_witness:
  "relinked (snd (execute_batch list_ops (\<lambda>h. [last h]) (manual_schedule list_ops (3 :: nat) (manual_init list_ops))))"
proof -
  have "(\<lambda>h. [last h]) (h @ [3 :: nat]) = [3]" for h by simp
  from manual_batch_relinks [of list_ops "\<lambda>h. [last h]", OF list_ops_laws this, of "manual_schedule list_ops 3 (manual_init list_ops)"] show ?thesis
    by (simp add: manual_schedule_def manual_init_def list_ops_def)
qed

end
