(* ===== verification/Async_Mutex.thy ===== *)
theory Async_Mutex
  imports Signals
begin

text \<open>
  The asynchronous mutex, \<^verbatim>\<open>algo/sync/mutex.hpp\<close>: a strand over an executor, and a signal that hands out a
  lock object and continues on the strand. Executor \<open>strand\<close> stands for the mutex's
  \<open>serial_executor\<close>, which runs its tasks one at a time in the order they come in (\<open>Serial_Executor\<close>).
\<close>

section \<open>Locks and the mutex\<close>

record mutex_lock =
  lock_executor :: exec_id
  is_locked :: bool

definition new_mutex_lock :: "exec_id \<Rightarrow> mutex_lock" where
  "new_mutex_lock ex = \<lparr>lock_executor = ex, is_locked = True\<rparr>"

text \<open>The move constructor: the new lock, and what the old one becomes.\<close>

definition move_mutex_lock :: "mutex_lock \<Rightarrow> mutex_lock \<times> mutex_lock" where
  "move_mutex_lock other =
     (\<lparr>lock_executor = lock_executor other, is_locked = is_locked other\<rparr>, other\<lparr>is_locked := False\<rparr>)"

text \<open>The destructor's assertion.\<close>

definition mutex_lock_dtor_assert :: "mutex_lock \<Rightarrow> bool" where
  "mutex_lock_dtor_assert l \<longleftrightarrow> \<not> is_locked l"

definition mutex_unlock :: "mutex_lock \<Rightarrow> mutex_lock \<times> (unit, 'e, 'o) signal" where
  "mutex_unlock l = (l\<lparr>is_locked := False\<rparr>, start_on (lock_executor l))"

definition mutex_unlock_on :: "exec_id \<Rightarrow> mutex_lock \<Rightarrow> mutex_lock \<times> (unit, 'e, 'o) signal" where
  "mutex_unlock_on ex l = (l\<lparr>is_locked := False\<rparr>, start_on ex)"



section \<open>A critical section of several stages\<close>











section \<open>Properties\<close>


text \<open>
  A lock may be destroyed only after it was unlocked or moved from. Unlocking, on the inner or any
  executor, gives a signal that hands over at once and continues there; it puts nothing on the strand and no
  other user waits for it. The assertion of a lock's destructor fails from the moment the lock is made until
  somebody does one or the other; moving carries the obligation over.
\<close>

theorem mutex_lock_destruction:
  fixes slot :: "(unit, 'e, 'o) slot"
  shows "\<not> mutex_lock_dtor_assert (new_mutex_lock ex) \<and>
    mutex_lock_dtor_assert (snd (move_mutex_lock l)) \<and>
    mutex_lock_dtor_assert (fst (move_mutex_lock l)) = mutex_lock_dtor_assert l \<and>
    mutex_lock_dtor_assert (fst (mutex_unlock l :: mutex_lock \<times> (unit, 'e, 'o) signal)) \<and>
    mutex_lock_dtor_assert (fst (mutex_unlock_on ex l :: mutex_lock \<times> (unit, 'e, 'o) signal)) \<and>
    connect (snd (mutex_unlock l)) slot = slot (Set_value ()) \<and>
    get_executor (snd (mutex_unlock l) :: (unit, 'e, 'o) signal) = lock_executor l \<and>
    connect (snd (mutex_unlock_on ex l)) slot = slot (Set_value ()) \<and>
    get_executor (snd (mutex_unlock_on ex l) :: (unit, 'e, 'o) signal) = ex"
  by (simp add: mutex_lock_dtor_assert_def new_mutex_lock_def move_mutex_lock_def mutex_unlock_def mutex_unlock_on_def
      start_on_def continue_on_def value_as_signal_def result_signal_def fulfill_slot_def)

end
