(* ===== verification/Arc.thy ===== *)
theory Arc
  imports Sl_Prelude
begin

text \<open>
  The reference-counted pointer, \<^verbatim>\<open>thread/detail/arc.hpp\<close>. Handles to one storage are numbered; a handle
  is null after it was moved from. Each operation on the count is one atomic step, so threads that copy,
  move, read and destroy handles of their own interleave as steps of \<open>arc_step\<close>. \<open>freed\<close> counts the deletions
  of the storage, \<open>used_freed\<close> records an access after one.
\<close>

section \<open>Storage and handles\<close>

record arc_state =
  refcount :: u32
  freed :: nat
  handles :: "nat \<Rightarrow> bool option"
  arc_failed :: bool
  used_freed :: bool

definition arc_assert :: "bool \<Rightarrow> arc_state \<Rightarrow> arc_state" where
  "arc_assert c a = (if c then a else a\<lparr>arc_failed := True\<rparr>)"

definition arc_touch :: "arc_state \<Rightarrow> arc_state" where
  "arc_touch a = (if freed a = 0 then a else a\<lparr>used_freed := True\<rparr>)"

definition arc_incref :: "u32 \<Rightarrow> arc_state \<Rightarrow> u32 \<times> arc_state" where
  "arc_incref diff a = (let a = arc_touch a in (refcount a, a\<lparr>refcount := refcount a + diff\<rparr>))"

definition arc_decref :: "u32 \<Rightarrow> arc_state \<Rightarrow> u32 \<times> arc_state" where
  "arc_decref diff a =
     (let a = arc_touch a; prev = refcount a; a = a\<lparr>refcount := refcount a - diff\<rparr>
      in (prev, if prev = diff then a\<lparr>freed := freed a + 1\<rparr> else a))"

definition arc_make_n :: "nat \<Rightarrow> arc_state" where
  "arc_make_n n = \<lparr>refcount = of_nat n, freed = 0, handles = (\<lambda>i. if i < n then Some True else None),
     arc_failed = False, used_freed = False\<rparr>"

definition arc_make :: arc_state where
  "arc_make = \<lparr>refcount = 1, freed = 0, handles = (\<lambda>i. if i = 0 then Some True else None),
     arc_failed = False, used_freed = False\<rparr>"

text \<open>Handle \<open>j\<close> is copied or moved from handle \<open>i\<close>.\<close>

definition arc_copy :: "nat \<Rightarrow> nat \<Rightarrow> arc_state \<Rightarrow> arc_state" where
  "arc_copy i j a =
     (let a = a\<lparr>handles := (handles a)(j := handles a i)\<rparr>; a = arc_assert (handles a j = Some True) a
      in case arc_incref 1 a of (prev, a) \<Rightarrow> arc_assert (0 < prev) a)"

definition arc_move :: "nat \<Rightarrow> nat \<Rightarrow> arc_state \<Rightarrow> arc_state" where
  "arc_move i j a =
     (let a = a\<lparr>handles := (handles a)(j := handles a i, i := Some False)\<rparr>
      in arc_assert (handles a j = Some True) a)"

definition arc_dtor :: "nat \<Rightarrow> arc_state \<Rightarrow> arc_state" where
  "arc_dtor i a =
     (let storage = handles a i; a = a\<lparr>handles := (handles a)(i := None)\<rparr>
      in if storage = Some True
         then (case arc_decref 1 a of (prev, a) \<Rightarrow> arc_assert (0 < prev) a)
         else a)"

definition arc_value :: "nat \<Rightarrow> arc_state \<Rightarrow> arc_state" where
  "arc_value i a = arc_touch a"

text \<open>
  What the owners of handles may do: copy, move and read one that is not null, and destroy any. A copy takes
  place only while there are fewer handles than the counter can count.
\<close>

definition pointing :: "arc_state \<Rightarrow> nat set" where
  "pointing a = {i. handles a i = Some True}"

inductive arc_step :: "arc_state \<Rightarrow> arc_state \<Rightarrow> bool" where
  arc_st_copy: "handles a i = Some True \<Longrightarrow> handles a j = None \<Longrightarrow> card (pointing a) + 1 < 2 ^ 32 \<Longrightarrow> arc_step a (arc_copy i j a)"
| arc_st_move: "handles a i = Some True \<Longrightarrow> handles a j = None \<Longrightarrow> arc_step a (arc_move i j a)"
| arc_st_dtor: "handles a i \<noteq> None \<Longrightarrow> arc_step a (arc_dtor i a)"
| arc_st_value: "handles a i = Some True \<Longrightarrow> arc_step a (arc_value i a)"

definition arc_reachable :: "nat \<Rightarrow> arc_state \<Rightarrow> bool" where
  "arc_reachable n a \<longleftrightarrow> arc_step\<^sup>*\<^sup>* (arc_make_n n) a"

section \<open>The invariant\<close>

definition arc_inv :: "arc_state \<Rightarrow> bool" where
  "arc_inv a \<longleftrightarrow> finite (pointing a) \<and> card (pointing a) < 2 ^ 32 \<and> unat (refcount a) = card (pointing a) \<and>
     freed a = (if pointing a = {} then 1 else 0) \<and> \<not> arc_failed a \<and> \<not> used_freed a"

lemma arc_make_n_inv: "0 < n \<Longrightarrow> n < 2 ^ 32 \<Longrightarrow> arc_inv (arc_make_n n)"
proof -
  assume n: "0 < n" "n < 2 ^ 32"
  have "pointing (arc_make_n n) = {..<n}" by (auto simp: pointing_def arc_make_n_def)
  then show ?thesis using n by (simp add: arc_inv_def arc_make_n_def unat_of_nat lessThan_empty_iff)
qed

lemma unat_one_more: "unat (w :: u32) = c \<Longrightarrow> c + 1 < 2 ^ 32 \<Longrightarrow> unat (w + 1) = c + 1"
  by (simp add: unat_word_ariths)

lemma unat_one_less:
  assumes "unat (w :: u32) = Suc c"
  shows "unat (w - 1) = c" "0 < w"
proof -
  have "w \<noteq> 0" using assms by auto
  then show "unat (w - 1) = c" "0 < w" using assms by (simp_all add: unat_minus_one word_neq_0_conv)
qed

lemma arc_step_inv: "arc_step a a' \<Longrightarrow> arc_inv a \<Longrightarrow> arc_inv a'"
proof (induction rule: arc_step.induct)
  case (arc_st_copy a i j)
  have j: "j \<notin> pointing a" "i \<in> pointing a" using arc_st_copy by (simp_all add: pointing_def)
  have p: "pointing (arc_copy i j a) = insert j (pointing a)"
    using arc_st_copy by (auto simp: pointing_def arc_copy_def arc_incref_def arc_assert_def arc_touch_def Let_def)
  have "0 < refcount a" using arc_st_copy.prems j by (auto simp: arc_inv_def word_gt_0 card_gt_0_iff intro: ccontr)
  moreover have "unat (refcount a + 1) = card (pointing a) + 1"
    using unat_one_more arc_st_copy by (simp add: arc_inv_def)
  ultimately show ?case using arc_st_copy j p
    by (auto simp: arc_inv_def arc_copy_def arc_incref_def arc_assert_def arc_touch_def Let_def)
next
  case (arc_st_move a i j)
  have ij: "i \<noteq> j" "i \<in> pointing a" "j \<notin> pointing a" using arc_st_move by (auto simp: pointing_def)
  have p: "pointing (arc_move i j a) = insert j (pointing a - {i})"
    using arc_st_move ij by (auto simp: pointing_def arc_move_def arc_assert_def Let_def)
  have "card (insert j (pointing a - {i})) = card (pointing a)"
  proof -
    have fin: "finite (pointing a)" using arc_st_move.prems by (simp add: arc_inv_def)
    then have "card (insert j (pointing a - {i})) = Suc (card (pointing a - {i}))" using ij by simp
    then show ?thesis using card_Suc_Diff1 [OF fin ij(2)] by simp
  qed
  then show ?case using arc_st_move ij p by (auto simp: arc_inv_def arc_move_def arc_assert_def Let_def)
next
  case (arc_st_dtor a i)
  show ?case
  proof (cases "handles a i = Some True")
    case True
    then have i: "i \<in> pointing a" by (simp add: pointing_def)
    have p: "pointing (arc_dtor i a) = pointing a - {i}"
      using True by (auto simp: pointing_def arc_dtor_def arc_decref_def arc_assert_def arc_touch_def Let_def)
    obtain c where c: "card (pointing a) = Suc c" "card (pointing a - {i}) = c"
      using i arc_st_dtor.prems by (cases "card (pointing a)") (auto simp: arc_inv_def)
    have r: "unat (refcount a - 1) = c" "0 < refcount a"
      using unat_one_less [of "refcount a" c] c arc_st_dtor.prems by (simp_all add: arc_inv_def)
    have one: "(refcount a = 1) = (pointing a - {i} = {})"
    proof -
      have "(refcount a = 1) = (unat (refcount a) = 1)" by (simp add: word_unat_eq_iff)
      also have "\<dots> = (c = 0)" using arc_st_dtor.prems c by (simp add: arc_inv_def)
      also have "\<dots> = (pointing a - {i} = {})" using c arc_st_dtor.prems by (auto simp: arc_inv_def)
      finally show ?thesis .
    qed
    have "freed a = 0" using arc_st_dtor.prems i by (auto simp: arc_inv_def)
    then show ?thesis using arc_st_dtor.prems r one p c True
      by (auto simp: arc_inv_def arc_dtor_def arc_decref_def arc_assert_def arc_touch_def Let_def)
  next
    case False
    then have "pointing (arc_dtor i a) = pointing a" by (auto simp: pointing_def arc_dtor_def Let_def)
    then show ?thesis using arc_st_dtor.prems False by (auto simp: arc_inv_def arc_dtor_def Let_def)
  qed
next
  case (arc_st_value a i)
  then have "pointing a \<noteq> {}" by (auto simp: pointing_def)
  then show ?case using arc_st_value.prems by (simp add: arc_inv_def arc_value_def arc_touch_def)
qed

section \<open>Properties\<close>

text \<open>
  C32: A storage behind \<open>arc\<close> handles lives exactly as long as some handle points at it. Whatever handles are
  copied, moved, read and destroyed, by any threads in any order: while a handle points at the storage it
  has not been deleted, when none does it has been deleted once; nobody accesses it afterwards, the
  counter is the number of handles, and no assertion fails, as long as there are fewer than \<open>2\<^sup>3\<^sup>2\<close> handles.
\<close>

theorem arc_frees_once:
  assumes "arc_reachable n a" "0 < n" "n < 2 ^ 32"
  shows "freed a = (if pointing a = {} then 1 else 0) \<and> unat (refcount a) = card (pointing a) \<and>
    \<not> used_freed a \<and> \<not> arc_failed a"
proof -
  have "arc_inv a"
    using assms(1) unfolding arc_reachable_def
    by (induction rule: rtranclp_induct) (use assms in \<open>auto intro: arc_make_n_inv arc_step_inv\<close>)
  then show ?thesis by (simp add: arc_inv_def)
qed

theorem arc_frees_once_witness:
  "freed (arc_dtor 1 (arc_dtor 0 (arc_copy 0 1 (arc_make_n 1)))) = 1"
proof -
  have "arc_step (arc_make_n 1) (arc_copy 0 1 (arc_make_n 1))"
    by (rule arc_st_copy) (simp_all add: arc_make_n_def pointing_def)
  moreover have "arc_step (arc_copy 0 1 (arc_make_n 1)) (arc_dtor 0 (arc_copy 0 1 (arc_make_n 1)))"
    by (rule arc_st_dtor) (simp add: arc_copy_def arc_make_n_def arc_incref_def arc_assert_def arc_touch_def Let_def)
  moreover have "arc_step (arc_dtor 0 (arc_copy 0 1 (arc_make_n 1))) (arc_dtor 1 (arc_dtor 0 (arc_copy 0 1 (arc_make_n 1))))"
    by (rule arc_st_dtor) (simp add: arc_copy_def arc_make_n_def arc_incref_def arc_decref_def arc_dtor_def arc_assert_def arc_touch_def Let_def)
  ultimately have "arc_reachable 1 (arc_dtor 1 (arc_dtor 0 (arc_copy 0 1 (arc_make_n 1))))"
    unfolding arc_reachable_def by (meson rtranclp.rtrancl_into_rtrancl rtranclp.rtrancl_refl)
  moreover have "pointing (arc_dtor 1 (arc_dtor 0 (arc_copy 0 1 (arc_make_n 1)))) = {}"
    by (auto simp: pointing_def arc_copy_def arc_make_n_def arc_incref_def arc_decref_def arc_dtor_def arc_assert_def arc_touch_def Let_def)
  ultimately show ?thesis using arc_frees_once [of 1] by simp
qed

end
