(* ===== verification/Coroutine.thy ===== *)
theory Coroutine
  imports Signals
begin

text \<open>
  Awaitable coroutines: \<^verbatim>\<open>coro/async.hpp\<close>, \<^verbatim>\<open>src/coro/async.cpp\<close>, \<^verbatim>\<open>coro/coroutine.hpp\<close>,
  \<^verbatim>\<open>coro/await.hpp\<close> and the promise's result of \<^verbatim>\<open>coro/detail.hpp\<close>.

  The body of a coroutine is a possibly infinite tree: it acts on the world (\<open>Co_act\<close>), awaits another
  coroutine it makes in the same expression, awaits a signal, or ends with a value or an exception.
  The continuation of an await is given what \<open>await_resume\<close> returns or throws; next to it stand the actions of the
  destructors that run if the frame is destroyed while it waits there. Frames are numbered in the
  order of their allocation. A frame that is resumed or destroyed when it is gone, finished or running
  is undefined behaviour in C++, and recorded in \<open>co_undefined\<close>; a failed assertion in \<open>co_failed\<close>.

  Several threads may run coroutines at the same time: \<open>running\<close> are the frames that threads are in,
  one micro-step of one of them is \<open>co_step\<close>. \<open>waiting\<close> are the awaited signals that have not called
  their slot yet, \<open>co_tasks\<close> the tasks of coroutines that executors hold.
\<close>

section \<open>Bodies, frames, state\<close>

datatype co_kind = Async_coro | Plain_coro

codatatype ('v, 'e, 's, 'a) co_body =
  Co_return 'v
| Co_throw 'e
| Co_act 'a "('v, 'e, 's, 'a) co_body"
| Co_await co_kind "('v, 'e, 's, 'a) co_body" "('v, 'e) result \<Rightarrow> ('v, 'e, 's, 'a) co_body" "'a list"
| Co_await_signal 's "('v, 'e) result \<Rightarrow> ('v, 'e, 's, 'a) co_body" "'a list"

text \<open>Where a frame stands. \<open>Finishing\<close> is in \<open>final_suspend\<close>'s awaiter, \<open>Done\<close> suspended there.\<close>

datatype ('v, 'e, 's, 'a) co_point =
  At "('v, 'e, 's, 'a) co_body"
| Awaiting nat "('v, 'e) result \<Rightarrow> ('v, 'e, 's, 'a) co_body" "'a list"
| Awaiting_signal 's "('v, 'e) result \<Rightarrow> ('v, 'e, 's, 'a) co_body" "'a list" "('v, 'e) maybe_result"
| Finishing
| Done

datatype co_handle = Noop_coroutine | Null_handle | Handle nat

record ('v, 'e, 's, 'a) co_frame =
  co_kind :: co_kind
  co_point :: "('v, 'e, 's, 'a) co_point"
  continuation :: co_handle
  co_return_slot :: "('v, 'e) maybe_result"

datatype ('s, 'a) co_event = Did 'a | Emitted 's

datatype co_task = Promise_task nat | Awaiter_task nat

primrec task_handle :: "co_task \<Rightarrow> nat" where
  "task_handle (Promise_task h) = h"
| "task_handle (Awaiter_task h) = h"

record ('v, 'e, 's, 'a) co_state =
  co_frames :: "nat \<Rightarrow> ('v, 'e, 's, 'a) co_frame option"
  next_frame :: nat
  running :: "nat set"
  waiting :: "nat \<Rightarrow> 's option"
  co_tasks :: "(nat \<times> co_task) list"
  co_trace :: "('s, 'a) co_event list"
  destroyed :: "nat list"
  co_failed :: bool
  co_undefined :: bool

type_synonym ('v, 'e, 's, 'a) co_update = "('v, 'e, 's, 'a) co_state \<Rightarrow> ('v, 'e, 's, 'a) co_state"

definition co_init :: "('v, 'e, 's, 'a) co_state" where
  "co_init = \<lparr>co_frames = (\<lambda>_. None), next_frame = 0, running = {}, waiting = (\<lambda>_. None), co_tasks = [],
     co_trace = [], destroyed = [], co_failed = False, co_undefined = False\<rparr>"

definition co_assert :: "bool \<Rightarrow> ('v, 'e, 's, 'a) co_update" where
  "co_assert c st = (if c then st else st\<lparr>co_failed := True\<rparr>)"

definition co_undef :: "('v, 'e, 's, 'a) co_update" where
  "co_undef st = st\<lparr>co_undefined := True\<rparr>"

definition set_frame :: "nat \<Rightarrow> ('v, 'e, 's, 'a) co_frame \<Rightarrow> ('v, 'e, 's, 'a) co_update" where
  "set_frame h f st = st\<lparr>co_frames := (co_frames st)(h := Some f)\<rparr>"

definition at_final :: "('v, 'e, 's, 'a) co_point \<Rightarrow> bool" where
  "at_final p \<longleftrightarrow> p = Finishing \<or> p = Done"

text \<open>\<open>handle.done()\<close>\<close>

definition co_done :: "nat \<Rightarrow> ('v, 'e, 's, 'a) co_state \<Rightarrow> bool" where
  "co_done h st = (case co_frames st h of None \<Rightarrow> False | Some f \<Rightarrow> at_final (co_point f))"

section \<open>Coroutine handles\<close>

text \<open>A call of a coroutine function: a new frame, suspended before its body.\<close>

definition co_call ::
  "co_kind \<Rightarrow> ('v, 'e, 's, 'a) co_body \<Rightarrow> ('v, 'e, 's, 'a) co_state \<Rightarrow> nat \<times> ('v, 'e, 's, 'a) co_state" where
  "co_call kind body st =
     (next_frame st,
      set_frame (next_frame st)
        \<lparr>co_kind = kind, co_point = At body,
         continuation = (case kind of Async_coro \<Rightarrow> Noop_coroutine | Plain_coro \<Rightarrow> Null_handle), co_return_slot = None\<rparr>
        (st\<lparr>next_frame := Suc (next_frame st)\<rparr>))"

primrec unwind_of :: "('v, 'e, 's, 'a) co_point \<Rightarrow> 'a list" where
  "unwind_of (At body) = []"
| "unwind_of (Awaiting c k unwind) = unwind"
| "unwind_of (Awaiting_signal s k unwind got) = unwind"
| "unwind_of Finishing = []"
| "unwind_of Done = []"

text \<open>
  \<open>handle.destroy()\<close>: the objects of the frame are destroyed, the actions of their destructors with
  them. A frame that awaits another coroutine owns it, so the destructor of \<open>async\<close>, with its
  assertion, or of \<open>coroutine\<close> runs; the first argument bounds the nesting of frames.
\<close>

primrec destroy_frames :: "nat \<Rightarrow> nat \<Rightarrow> ('v, 'e, 's, 'a) co_update" where
  "destroy_frames 0 h st = co_undef st"
| "destroy_frames (Suc n) h st = (case co_frames st h of
     None \<Rightarrow> co_undef st
   | Some f \<Rightarrow>
       (let st = st\<lparr>co_frames := (co_frames st)(h := None), destroyed := destroyed st @ [h],
                    co_trace := co_trace st @ map Did (unwind_of (co_point f))\<rparr>
        in case co_point f of
             Awaiting c k unwind \<Rightarrow>
               destroy_frames n c
                 (co_assert (map_option co_kind (co_frames st c) \<noteq> Some Async_coro \<or> co_done c st) st)
           | _ \<Rightarrow> st))"

definition co_destroy :: "nat \<Rightarrow> ('v, 'e, 's, 'a) co_update" where
  "co_destroy h st = destroy_frames (next_frame st) h st"

text \<open>\<open>~async\<close>, and \<open>~coroutine\<close>, which does not assert\<close>

definition coro_dtor :: "co_kind \<Rightarrow> nat \<Rightarrow> ('v, 'e, 's, 'a) co_update" where
  "coro_dtor kind h st = co_destroy h (co_assert (kind \<noteq> Async_coro \<or> co_done h st) st)"

text \<open>\<open>handle.resume()\<close>: a thread enters the frame.\<close>

definition can_resume :: "nat \<Rightarrow> ('v, 'e, 's, 'a) co_state \<Rightarrow> bool" where
  "can_resume h st \<longleftrightarrow> h \<notin> running st \<and> co_frames st h \<noteq> None \<and> \<not> co_done h st"

definition co_resume :: "nat \<Rightarrow> ('v, 'e, 's, 'a) co_update" where
  "co_resume h st = (if can_resume h st then st\<lparr>running := insert h (running st)\<rparr> else co_undef st)"

text \<open>A coroutine suspends: the thread returns to its caller, or is transferred to another frame.\<close>

definition co_leave :: "nat \<Rightarrow> ('v, 'e, 's, 'a) co_update" where
  "co_leave h st = st\<lparr>running := running st - {h}\<rparr>"

definition co_transfer :: "nat \<Rightarrow> nat \<Rightarrow> ('v, 'e, 's, 'a) co_update" where
  "co_transfer h h' st = co_resume h' (co_leave h st)"

section \<open>Awaiting a coroutine\<close>

text \<open>\<open>awaiter::await_suspend\<close>: the awaited frame \<open>c\<close> continues with \<open>h\<close>.\<close>

definition awaiter_suspend :: "nat \<Rightarrow> nat \<Rightarrow> ('v, 'e, 's, 'a) co_update" where
  "awaiter_suspend c h st =
     (let st = co_assert (\<not> co_done c st) st
      in case co_frames st c of
           None \<Rightarrow> co_undef st
         | Some f \<Rightarrow> co_transfer h c (set_frame c (f\<lparr>continuation := Handle h\<rparr>) st))"

text \<open>\<open>co_get_return\<close>: the result is taken; without one the assertion fails.\<close>

definition co_get_return :: "nat \<Rightarrow> ('v, 'e, 's, 'a) co_state \<Rightarrow> ('v, 'e) maybe_result \<times> ('v, 'e, 's, 'a) co_state" where
  "co_get_return c st = (case co_frames st c of
     None \<Rightarrow> (None, co_undef st)
   | Some f \<Rightarrow> (co_return_slot f,
       set_frame c (f\<lparr>co_return_slot := None\<rparr>) (co_assert (co_return_slot f \<noteq> None) st)))"

text \<open>\<open>awaiter::await_resume\<close>\<close>

definition awaiter_resume :: "nat \<Rightarrow> ('v, 'e, 's, 'a) co_state \<Rightarrow> ('v, 'e) maybe_result \<times> ('v, 'e, 's, 'a) co_state" where
  "awaiter_resume c st = co_get_return c (co_assert (co_done c st) st)"

text \<open>\<open>final_awaiter::await_suspend\<close> of \<open>async\<close> and of \<open>coroutine\<close>.\<close>

definition final_awaiter_suspend :: "nat \<Rightarrow> ('v, 'e, 's, 'a) co_frame \<Rightarrow> ('v, 'e, 's, 'a) co_update" where
  "final_awaiter_suspend h f st =
     (let st = set_frame h (f\<lparr>co_point := Done\<rparr>) st
      in case continuation f of
           Handle c \<Rightarrow> co_transfer h c st
         | Noop_coroutine \<Rightarrow> co_leave h st
         | Null_handle \<Rightarrow>
             (case co_kind f of
                Async_coro \<Rightarrow> co_destroy h (co_leave h st)
              | Plain_coro \<Rightarrow> co_leave h st))"

section \<open>Awaiting a signal\<close>

text \<open>
  \<open>signal_awaiter::await_suspend\<close>: the signal is subscribed to a slot that is bound to the frame and
  the connection emitted; the slot is called later, maybe before \<open>emit\<close> returns.
\<close>

definition signal_awaiter_suspend :: "nat \<Rightarrow> 's \<Rightarrow> ('v, 'e, 's, 'a) co_update" where
  "signal_awaiter_suspend h s st =
     co_leave h (st\<lparr>waiting := (waiting st)(h := Some s), co_trace := co_trace st @ [Emitted s]\<rparr>)"

text \<open>\<open>executor::schedule\<close>; the inline executor executes the task at once.\<close>

definition task_execute :: "co_task \<Rightarrow> ('v, 'e, 's, 'a) co_update" where
  "task_execute t st = co_resume (task_handle t) st"

definition task_cancel :: "co_task \<Rightarrow> ('v, 'e, 's, 'a) co_update" where
  "task_cancel t st = co_destroy (task_handle t) st"

definition co_executor_schedule :: "exec_id \<Rightarrow> co_task \<Rightarrow> ('v, 'e, 's, 'a) co_update" where
  "co_executor_schedule ex t st = (case ex of
     Inline_executor \<Rightarrow> task_execute t st
   | Executor n \<Rightarrow> st\<lparr>co_tasks := co_tasks st @ [(n, t)]\<rparr>)"

text \<open>\<open>awaiter_slot\<close>: a result is stored in the awaiter, which is in the frame, and the frame resumed on the executor.\<close>

definition store_result :: "nat \<Rightarrow> ('v, 'e) result \<Rightarrow> ('v, 'e, 's, 'a) co_update" where
  "store_result h r st = (case co_frames st h of
     Some f \<Rightarrow> (case co_point f of
       Awaiting_signal s k unwind got \<Rightarrow> set_frame h (f\<lparr>co_point := Awaiting_signal s k unwind (Some r)\<rparr>) st
     | _ \<Rightarrow> co_undef st)
   | None \<Rightarrow> co_undef st)"

definition awaiter_slot :: "exec_id \<Rightarrow> nat \<Rightarrow> ('v, 'e) slot_call \<Rightarrow> ('v, 'e, 's, 'a) co_update" where
  "awaiter_slot ex h call st = (case call of
     Set_value v \<Rightarrow> co_executor_schedule ex (Awaiter_task h) (store_result h (Inr v) st)
   | Set_error e \<Rightarrow> co_executor_schedule ex (Awaiter_task h) (store_result h (Inl e) st)
   | Set_null \<Rightarrow> task_cancel (Awaiter_task h) st)"

section \<open>Steps of a running coroutine\<close>

definition finish_with :: "nat \<Rightarrow> ('v, 'e, 's, 'a) co_frame \<Rightarrow> ('v, 'e) result \<Rightarrow> ('v, 'e, 's, 'a) co_update" where
  "finish_with h f r st = set_frame h (f\<lparr>co_point := Finishing, co_return_slot := Some r\<rparr>) st"

definition co_step :: "nat \<Rightarrow> ('v, 'e, 's, 'a) co_update" where
  "co_step h st = (case co_frames st h of
     None \<Rightarrow> co_undef st
   | Some f \<Rightarrow> (case co_point f of
       At (Co_return v) \<Rightarrow> finish_with h f (Inr v) st
     | At (Co_throw e) \<Rightarrow> finish_with h f (Inl e) st
     | At (Co_act a body) \<Rightarrow> set_frame h (f\<lparr>co_point := At body\<rparr>) (st\<lparr>co_trace := co_trace st @ [Did a]\<rparr>)
     | At (Co_await kind body k unwind) \<Rightarrow>
         (case co_call kind body st of (c, st) \<Rightarrow>
            awaiter_suspend c h (set_frame h (f\<lparr>co_point := Awaiting c k unwind\<rparr>) st))
     | At (Co_await_signal s k unwind) \<Rightarrow>
         signal_awaiter_suspend h s (set_frame h (f\<lparr>co_point := Awaiting_signal s k unwind None\<rparr>) st)
     | Awaiting c k unwind \<Rightarrow>
         (case awaiter_resume c st of
            (Some r, st) \<Rightarrow>
              (case co_frames st c of
                 None \<Rightarrow> co_undef st
               | Some g \<Rightarrow> coro_dtor (co_kind g) c (set_frame h (f\<lparr>co_point := At (k r)\<rparr>) st))
          | (None, st) \<Rightarrow> co_undef st)
     | Awaiting_signal s k unwind got \<Rightarrow>
         (case got of
            Some r \<Rightarrow> set_frame h (f\<lparr>co_point := At (k r)\<rparr>) st
          | None \<Rightarrow> co_undef (co_assert False st))
     | Finishing \<Rightarrow> final_awaiter_suspend h f st
     | Done \<Rightarrow> co_undef st))"

text \<open>\<open>coro_schedule\<close>: the frame is released, to be destroyed by its final awaiter, and scheduled.\<close>

definition coro_schedule :: "exec_id \<Rightarrow> ('v, 'e, 's, 'a) co_body \<Rightarrow> ('v, 'e, 's, 'a) co_update" where
  "coro_schedule ex body st =
     (case co_call Async_coro body st of (h, st) \<Rightarrow>
        (case co_frames st h of
           None \<Rightarrow> co_undef st
         | Some f \<Rightarrow> co_executor_schedule ex (Promise_task h) (set_frame h (f\<lparr>continuation := Null_handle\<rparr>) st)))"

text \<open>\<open>coroutine<T>\<close>, driven by its owner: made, resumed, and read when it is done.\<close>

definition coroutine_result :: "nat \<Rightarrow> ('v, 'e, 's, 'a) co_state \<Rightarrow> ('v, 'e) maybe_result \<times> ('v, 'e, 's, 'a) co_state" where
  "coroutine_result h st = co_get_return h (co_assert (co_done h st) st)"

end
