(* ===== verification/Coroutine_Safety.thy ===== *)
theory Coroutine_Safety
  imports Coroutine
begin

text \<open>
  Coroutines under any interleaving of threads, signals and executors: the step relation \<open>co_moves\<close>,
  the invariant of the frames and the theorem that no frame is resumed or destroyed at the wrong time.
  The invariant is stated over the components of the state: the frames, who is running, which frames
  wait for a signal, and which are held by a task.
\<close>

section \<open>Moves\<close>

text \<open>
  A signal calls the slot it was given once; \<open>sx\<close> is its executor. Any thread that is in a frame may
  do its next step, any task be executed or cancelled, any coroutine be scheduled.
\<close>

definition take_task :: "nat \<Rightarrow> ('v, 'e, 's, 'a) co_update" where
  "take_task i st = st\<lparr>co_tasks := take i (co_tasks st) @ drop (Suc i) (co_tasks st)\<rparr>"

definition slot_called :: "('s \<Rightarrow> exec_id) \<Rightarrow> nat \<Rightarrow> 's \<Rightarrow> ('v, 'e) slot_call \<Rightarrow> ('v, 'e, 's, 'a) co_update" where
  "slot_called sx h s call st = awaiter_slot (sx s) h call (st\<lparr>waiting := (waiting st)(h := None)\<rparr>)"

inductive co_moves :: "('s \<Rightarrow> exec_id) \<Rightarrow> ('v, 'e, 's, 'a) co_state \<Rightarrow> ('v, 'e, 's, 'a) co_state \<Rightarrow> bool" for sx where
  mv_schedule: "co_moves sx st (coro_schedule ex body st)"
| mv_step: "h \<in> running st \<Longrightarrow> co_moves sx st (co_step h st)"
| mv_slot: "waiting st h = Some s \<Longrightarrow> co_moves sx st (slot_called sx h s call st)"
| mv_execute: "i < length (co_tasks st) \<Longrightarrow> co_tasks st ! i = (n, t) \<Longrightarrow> co_moves sx st (task_execute t (take_task i st))"
| mv_cancel: "i < length (co_tasks st) \<Longrightarrow> co_tasks st ! i = (n, t) \<Longrightarrow> co_moves sx st (task_cancel t (take_task i st))"

definition co_reachable :: "('s \<Rightarrow> exec_id) \<Rightarrow> ('v, 'e, 's, 'a) co_state \<Rightarrow> bool" where
  "co_reachable sx st \<longleftrightarrow> (co_moves sx)\<^sup>*\<^sup>* co_init st"

section \<open>The shape of the frames\<close>

type_synonym ('v, 'e, 's, 'a) frames = "nat \<Rightarrow> ('v, 'e, 's, 'a) co_frame option"

text \<open>
  What a frame's point says about who holds it: the threads \<open>R\<close> in frames, the signals \<open>W\<close> that owe a
  call, the tasks \<open>K\<close>. A frame that awaits another is held by nobody until that one is done; it is
  orphaned if that one has been destroyed.
\<close>

definition point_ok :: "('v, 'e, 's, 'a) frames \<Rightarrow> nat set \<Rightarrow> (nat \<Rightarrow> 's option) \<Rightarrow> nat set \<Rightarrow> nat \<Rightarrow>
    ('v, 'e, 's, 'a) co_point \<Rightarrow> bool" where
  "point_ok F R W K h p = (case p of
     At b \<Rightarrow> (h \<in> R) = (h \<notin> K) \<and> W h = None
   | Awaiting c k u \<Rightarrow> h \<notin> K \<and> W h = None \<and>
       (case F c of None \<Rightarrow> h \<notin> R | Some g \<Rightarrow> continuation g = Handle h \<and> (h \<in> R) = (co_point g = Done))
   | Awaiting_signal s k u None \<Rightarrow> W h = Some s \<and> h \<notin> R \<and> h \<notin> K
   | Awaiting_signal s k u (Some r) \<Rightarrow> (h \<in> R) = (h \<notin> K) \<and> W h = None
   | Finishing \<Rightarrow> h \<in> R \<and> h \<notin> K \<and> W h = None
   | Done \<Rightarrow> h \<notin> R \<and> h \<notin> K \<and> W h = None)"

definition owner_ok :: "('v, 'e, 's, 'a) frames \<Rightarrow> nat \<Rightarrow> ('v, 'e, 's, 'a) co_frame \<Rightarrow> bool" where
  "owner_ok F h f = (case continuation f of
     Handle p \<Rightarrow> (\<exists>pf k u. F p = Some pf \<and> co_point pf = Awaiting h k u)
   | Null_handle \<Rightarrow> co_kind f = Async_coro \<and> co_point f \<noteq> Done
   | Noop_coroutine \<Rightarrow> False)"

definition frame_ok :: "('v, 'e, 's, 'a) frames \<Rightarrow> nat set \<Rightarrow> (nat \<Rightarrow> 's option) \<Rightarrow> nat set \<Rightarrow> nat \<Rightarrow>
    ('v, 'e, 's, 'a) co_frame \<Rightarrow> bool" where
  "frame_ok F R W K h f \<longleftrightarrow> point_ok F R W K h (co_point f) \<and> owner_ok F h f \<and>
     (co_return_slot f \<noteq> None) = at_final (co_point f)"

definition shape :: "('v, 'e, 's, 'a) frames \<Rightarrow> nat set \<Rightarrow> (nat \<Rightarrow> 's option) \<Rightarrow> nat set \<Rightarrow> bool" where
  "shape F R W K \<longleftrightarrow> (\<forall>h. case F h of None \<Rightarrow> h \<notin> R \<and> W h = None \<and> h \<notin> K | Some f \<Rightarrow> frame_ok F R W K h f)"

lemma shapeD:
  assumes "shape F R W K"
  shows "F h = Some f \<Longrightarrow> frame_ok F R W K h f" and "F h = None \<Longrightarrow> h \<notin> R \<and> W h = None \<and> h \<notin> K"
  using assms by (auto simp: shape_def split: option.splits dest: spec [of _ h])

lemma shapeI:
  assumes "\<And>h f. F h = Some f \<Longrightarrow> frame_ok F R W K h f" "\<And>h. F h = None \<Longrightarrow> h \<notin> R \<and> W h = None \<and> h \<notin> K"
  shows "shape F R W K"
  using assms by (auto simp: shape_def split: option.split)

lemma frame_okD:
  assumes "frame_ok F R W K h f"
  shows "owner_ok F h f" "point_ok F R W K h (co_point f)" "(co_return_slot f \<noteq> None) = at_final (co_point f)"
  using assms by (simp_all add: frame_ok_def)

definition awaits_kept :: "('v, 'e, 's, 'a) frames \<Rightarrow> ('v, 'e, 's, 'a) frames \<Rightarrow> nat \<Rightarrow> bool" where
  "awaits_kept F F' h \<longleftrightarrow> (\<forall>p f k u. F p = Some f \<longrightarrow> co_point f = Awaiting h k u \<longrightarrow>
     (\<exists>f' k u. F' p = Some f' \<and> co_point f' = Awaiting h k u))"

lemma owner_ok_kept:
  assumes "owner_ok F h f" "awaits_kept F F' h" "continuation f' = continuation f" "co_kind f' = co_kind f"
    "co_point f' = Done \<longrightarrow> co_point f = Done"
  shows "owner_ok F' h f'"
  using assms unfolding owner_ok_def awaits_kept_def by (auto split: co_handle.splits)

lemma awaits_kept_upd:
  assumes "F h = Some f" "\<And>c k u. co_point f \<noteq> Awaiting c k u"
  shows "awaits_kept F (F(h := x)) y"
  using assms unfolding awaits_kept_def by simp

lemma awaits_kept_new: "F h = None \<Longrightarrow> awaits_kept F (F(h := x)) y"
  unfolding awaits_kept_def by simp

lemma awaits_kept_trans: "awaits_kept F F' h \<Longrightarrow> awaits_kept F' F'' h \<Longrightarrow> awaits_kept F F'' h"
  unfolding awaits_kept_def by blast

text \<open>A frame away from the one that changes: its parent and the frame it awaits matter.\<close>

lemma frame_ok_other:
  assumes "frame_ok F R W K h f" "(h \<in> R') = (h \<in> R)" "W' h = W h" "(h \<in> K') = (h \<in> K)"
    and child: "\<And>c k u. co_point f = Awaiting c k u \<Longrightarrow> map_option (\<lambda>g. (continuation g, co_point g = Done)) (F' c) =
      map_option (\<lambda>g. (continuation g, co_point g = Done)) (F c)"
    and parent: "awaits_kept F F' h"
  shows "frame_ok F' R' W' K' h f"
proof -
  have "point_ok F' R' W' K' h (co_point f)"
  proof (cases "co_point f")
    case (Awaiting c k u)
    then show ?thesis using assms(1-4) child [OF Awaiting]
      by (auto simp: frame_ok_def point_ok_def split: option.splits)
  qed (use assms(1-4) in \<open>auto simp: frame_ok_def point_ok_def split: option.splits\<close>)
  moreover have "owner_ok F' h f"
    by (rule owner_ok_kept [OF frame_okD(1) [OF assms(1)] parent]) simp_all
  ultimately show ?thesis using assms(1) by (simp add: frame_ok_def)
qed

lemma off_iff: "A - {h} = B - {h} \<Longrightarrow> x \<noteq> h \<Longrightarrow> (x \<in> A) = (x \<in> B)"
  by blast

text \<open>A frame that is held by a thread, a task or a signal moves on by itself.\<close>

lemma shape_local:
  assumes sh: "shape F R W K" and f: "F h = Some f"
    and local: "\<not> at_final (co_point f) \<or> co_point f = Finishing" "\<And>c k u. co_point f \<noteq> Awaiting c k u"
    and f': "continuation f' = continuation f" "co_kind f' = co_kind f" "co_point f' \<noteq> Done"
      "(co_return_slot f' \<noteq> None) = at_final (co_point f')"
    and ok: "point_ok (F(h := Some f')) R' W' K' h (co_point f')"
    and off: "R' - {h} = R - {h}" "K' - {h} = K - {h}" "\<And>x. x \<noteq> h \<Longrightarrow> W' x = W x"
  shows "shape (F(h := Some f')) R' W' K'"
proof (rule shapeI)
  have kept: "awaits_kept F (F(h := Some f')) y" for y
    by (rule awaits_kept_upd [of F h f]) (use f local(2) in simp_all)
  fix x g
  assume x: "(F(h := Some f')) x = Some g"
  show "frame_ok (F(h := Some f')) R' W' K' x g"
  proof (cases "x = h")
    case True
    have "owner_ok (F(h := Some f')) h f'"
      by (rule owner_ok_kept [OF frame_okD(1) [OF shapeD(1) [OF sh f]] kept]) (simp_all add: f')
    then show ?thesis using True x f' ok by (simp add: frame_ok_def)
  next
    case False
    have "frame_ok F R W K x g" using shapeD(1) [OF sh] x False by simp
    then show ?thesis
    proof (rule frame_ok_other)
      show "(x \<in> R') = (x \<in> R)" "(x \<in> K') = (x \<in> K)" "W' x = W x" using off_iff [OF off(1)] off_iff [OF off(2)] off(3) False by simp_all
      fix c k u
      show "map_option (\<lambda>g. (continuation g, co_point g = Done)) ((F(h := Some f')) c) =
          map_option (\<lambda>g. (continuation g, co_point g = Done)) (F c)"
        using f f' local by (auto simp: at_final_def)
    qed (rule kept)
  qed
next
  fix x
  assume "(F(h := Some f')) x = None"
  then have "F x = None" "x \<noteq> h" by (auto split: if_splits)
  then show "x \<notin> R' \<and> W' x = None \<and> x \<notin> K'"
    using shapeD(2) [OF sh, of x] off_iff [OF off(1), of x] off_iff [OF off(2), of x] off(3) [of x] by simp
qed

definition awaited_by_none :: "('v, 'e, 's, 'a) frames \<Rightarrow> nat \<Rightarrow> bool" where
  "awaited_by_none F c \<longleftrightarrow> (\<forall>x f k u. F x = Some f \<longrightarrow> co_point f \<noteq> Awaiting c k u)"

lemma awaited_by_noneD: "awaited_by_none F c \<Longrightarrow> F x = Some f \<Longrightarrow> co_point f = Awaiting d k u \<Longrightarrow> d \<noteq> c"
  by (auto simp: awaited_by_none_def)

text \<open>A coroutine is made and scheduled, or made and awaited by the frame that makes it.\<close>

lemma shape_new:
  assumes sh: "shape F R W K" and h: "F h = None" "awaited_by_none F h"
    and g: "co_point g = At b" "continuation g = Null_handle" "co_kind g = Async_coro" "co_return_slot g = None"
    and tok: "(h \<in> R') = (h \<notin> K')" "R' - {h} = R" "K' - {h} = K"
  shows "shape (F(h := Some g)) R' W K'"
proof (rule shapeI)
  fix x fx
  assume x: "(F(h := Some g)) x = Some fx"
  show "frame_ok (F(h := Some g)) R' W K' x fx"
  proof (cases "x = h")
    case True
    then show ?thesis using x g tok shapeD(2) [OF sh h(1)]
      by (auto simp: frame_ok_def point_ok_def owner_ok_def at_final_def)
  next
    case False
    then have F: "F x = Some fx" using x by simp
    from shapeD(1) [OF sh F] show ?thesis
    proof (rule frame_ok_other)
      show "(x \<in> R') = (x \<in> R)" "(x \<in> K') = (x \<in> K)" using tok False by blast+
      fix d k u
      assume "co_point fx = Awaiting d k u"
      then show "map_option (\<lambda>g. (continuation g, co_point g = Done)) ((F(h := Some g)) d) =
          map_option (\<lambda>g. (continuation g, co_point g = Done)) (F d)"
        using awaited_by_noneD [OF h(2) F] by simp
    qed (use h awaits_kept_new [of F h] in auto)
  qed
next
  fix x
  assume "(F(h := Some g)) x = None"
  then have "F x = None" "x \<noteq> h" by (auto split: if_splits)
  then show "x \<notin> R' \<and> W x = None \<and> x \<notin> K'" using shapeD(2) [OF sh, of x] tok by blast
qed

lemma shape_spawn:
  assumes sh: "shape F R W K" and f: "F h = Some f" "co_point f = At b" "h \<in> R" and c: "F c = None" "awaited_by_none F c"
    and f': "f' = f\<lparr>co_point := Awaiting c k u\<rparr>"
    and g: "co_point g = At b'" "continuation g = Handle h" "co_return_slot g = None"
  shows "shape (F(h := Some f', c := Some g)) (insert c (R - {h})) W K" (is "shape ?F ?R W K")
proof -
  have hc: "h \<noteq> c" and tok: "c \<notin> R \<and> W c = None \<and> c \<notin> K" using f c shapeD(2) [OF sh c(1)] by auto
  have fok: "frame_ok F R W K h f" by (rule shapeD(1) [OF sh f(1)])
  have par: "awaits_kept F ?F x" for x
    by (rule awaits_kept_trans [of _ "F(h := Some f')"])
      (use f c hc awaits_kept_upd [of F h f] awaits_kept_new [of "F(h := Some f')" c] in auto)
  show ?thesis
  proof (rule shapeI)
    fix x fx
    assume x: "?F x = Some fx"
    consider "x = h" | "x = c" | "x \<noteq> h" "x \<noteq> c" by blast
    then show "frame_ok ?F ?R W K x fx"
    proof cases
      case 1
      have "owner_ok ?F h f'"
        by (rule owner_ok_kept [OF frame_okD(1) [OF fok] par]) (simp_all add: f')
      then have "frame_ok ?F ?R W K h f'" using hc f g fok by (simp add: f' frame_ok_def point_ok_def at_final_def)
      then show ?thesis using 1 x hc by simp
    next
      case 2
      then show ?thesis using x hc tok f' g by (simp add: frame_ok_def point_ok_def owner_ok_def at_final_def)
    next
      case 3
      then have F: "F x = Some fx" using x by simp
      from shapeD(1) [OF sh F] show ?thesis
      proof (rule frame_ok_other)
        fix d k' u'
        assume "co_point fx = Awaiting d k' u'"
        then show "map_option (\<lambda>g. (continuation g, co_point g = Done)) (?F d) =
            map_option (\<lambda>g. (continuation g, co_point g = Done)) (F d)"
          using awaited_by_noneD [OF c(2) F] f f' hc by (cases "d = h") simp_all
      qed (use 3 par in auto)
    qed
  next
    fix x
    assume "?F x = None"
    then have "F x = None" "x \<noteq> h" "x \<noteq> c" by (auto split: if_splits)
    then show "x \<notin> ?R \<and> W x = None \<and> x \<notin> K" using shapeD(2) [OF sh, of x] by blast
  qed
qed

text \<open>A frame that has ended hands over to the one that awaits it, which destroys it and goes on.\<close>

lemma shape_return:
  assumes sh: "shape F R W K" and f: "F h = Some f" "co_point f = Finishing" "continuation f = Handle p"
    and f': "f' = f\<lparr>co_point := Done\<rparr>"
  shows "shape (F(h := Some f')) (insert p (R - {h})) W K \<and> p \<noteq> h \<and> p \<notin> R \<and> (\<exists>pf k u. F p = Some pf \<and> co_point pf = Awaiting h k u)"
    (is "shape ?F ?R W K \<and> _")
proof -
  have fok: "frame_ok F R W K h f" by (rule shapeD(1) [OF sh f(1)])
  obtain pf k u where pf: "F p = Some pf" "co_point pf = Awaiting h k u"
    using frame_okD(1) [OF fok] f(3) by (auto simp: owner_ok_def)
  have ph: "p \<noteq> h" using pf f by auto
  have pok: "frame_ok F R W K p pf" by (rule shapeD(1) [OF sh pf(1)])
  have pR: "p \<notin> R" using frame_okD(2) [OF pok] pf f by (simp add: point_ok_def)
  have "shape ?F ?R W K"
  proof (rule shapeI)
    fix x fx
    assume x: "?F x = Some fx"
    consider "x = h" | "x = p" | "x \<noteq> h" "x \<noteq> p" by blast
    then show "frame_ok ?F ?R W K x fx"
    proof cases
      case 1
      then show ?thesis using x fok f f' ph pf
        by (auto simp: frame_ok_def point_ok_def owner_ok_def at_final_def)
    next
      case 2
      have "owner_ok ?F p pf"
        by (rule owner_ok_kept [OF frame_okD(1) [OF pok] awaits_kept_upd [of F h f]]) (simp_all add: f)
      then show ?thesis using 2 x pok pf f f' ph pR by (simp add: frame_ok_def point_ok_def)
    next
      case 3
      then have F: "F x = Some fx" using x by simp
      from shapeD(1) [OF sh F] show ?thesis
      proof (rule frame_ok_other)
        fix d k' u'
        assume d: "co_point fx = Awaiting d k' u'"
        have "d \<noteq> h" using frame_okD(2) [OF shapeD(1) [OF sh F]] d f 3 by (auto simp: point_ok_def)
        then show "map_option (\<lambda>g. (continuation g, co_point g = Done)) (?F d) =
            map_option (\<lambda>g. (continuation g, co_point g = Done)) (F d)" by simp
      qed (use 3 f awaits_kept_upd [of F h f] in auto)
    qed
  next
    fix x
    assume "?F x = None"
    then have "F x = None" "x \<noteq> h" by (auto split: if_splits)
    then show "x \<notin> ?R \<and> W x = None \<and> x \<notin> K" using shapeD(2) [OF sh, of x] pf by auto
  qed
  then show ?thesis using ph pR pf by blast
qed

lemma shape_join:
  assumes sh: "shape F R W K" and p: "F p = Some pf" "co_point pf = Awaiting c k u" "p \<in> R"
    and pf': "pf' = pf\<lparr>co_point := At b\<rparr>"
  shows "shape (F(c := None, p := Some pf')) R W K" (is "shape ?F R W K")
    and "\<exists>g r. F c = Some g \<and> co_point g = Done \<and> co_return_slot g = Some r \<and> c \<noteq> p"
proof -
  have pok: "frame_ok F R W K p pf" by (rule shapeD(1) [OF sh p(1)])
  obtain g where g: "F c = Some g" "continuation g = Handle p" "co_point g = Done"
    using frame_okD(2) [OF pok] p by (auto simp: point_ok_def split: option.splits)
  have gok: "frame_ok F R W K c g" by (rule shapeD(1) [OF sh g(1)])
  have cp: "c \<noteq> p" using g p by auto
  obtain r where r: "co_return_slot g = Some r" using frame_okD(3) [OF gok] g by (auto simp: at_final_def)
  show "\<exists>g r. F c = Some g \<and> co_point g = Done \<and> co_return_slot g = Some r \<and> c \<noteq> p" using g r cp by blast
  have kept: "awaits_kept F ?F x" if "x \<noteq> c" for x
    unfolding awaits_kept_def
  proof (intro allI impI)
    fix q f k' u'
    assume q: "F q = Some f" "co_point f = Awaiting x k' u'"
    have "q \<noteq> c" "q \<noteq> p" using q g p that by auto
    then show "\<exists>f' k u. ?F q = Some f' \<and> co_point f' = Awaiting x k u" using q by simp
  qed
  show "shape ?F R W K"
  proof (rule shapeI)
    fix x fx
    assume x: "?F x = Some fx"
    have xc: "x \<noteq> c" using x cp by auto
    show "frame_ok ?F R W K x fx"
    proof (cases "x = p")
      case True
      have "owner_ok ?F p pf'"
        by (rule owner_ok_kept [OF frame_okD(1) [OF pok] kept]) (use cp in \<open>simp_all add: pf'\<close>)
      then have "frame_ok ?F R W K p pf'" using pok p by (simp add: pf' frame_ok_def point_ok_def at_final_def)
      then show ?thesis using True x by simp
    next
      case False
      then have F: "F x = Some fx" using x xc by simp
      from shapeD(1) [OF sh F] show ?thesis
      proof (rule frame_ok_other)
        fix d k' u'
        assume d: "co_point fx = Awaiting d k' u'"
        have "d \<noteq> c" using frame_okD(2) [OF shapeD(1) [OF sh F]] d g False by (auto simp: point_ok_def)
        then show "map_option (\<lambda>g. (continuation g, co_point g = Done)) (?F d) =
            map_option (\<lambda>g. (continuation g, co_point g = Done)) (F d)"
          using p pf' by (cases "d = p") simp_all
      qed (use kept [OF xc] in auto)
    qed
  next
    fix x
    assume "?F x = None"
    then have "x \<noteq> p" "F x = None \<or> x = c" by (auto split: if_splits)
    then show "x \<notin> R \<and> W x = None \<and> x \<notin> K"
      using shapeD(2) [OF sh, of x] frame_okD(2) [OF gok] g by (auto simp: point_ok_def)
  qed
qed

text \<open>A frame that is not awaiting another is destroyed.\<close>

lemma shape_kill:
  assumes sh: "shape F R W K" and f: "F h = Some f" "\<And>c k u. co_point f \<noteq> Awaiting c k u" "co_point f \<noteq> Done"
    and off: "R' = R - {h}" "K' = K - {h}" "W' h = None" "\<And>x. x \<noteq> h \<Longrightarrow> W' x = W x"
  shows "shape (F(h := None)) R' W' K'" (is "shape ?F R' W' K'")
proof (rule shapeI)
  have kept: "awaits_kept F ?F y" for y
    by (rule awaits_kept_upd [of F h f]) (use f in simp_all)
  fix x fx
  assume x: "?F x = Some fx"
  then have xh: "x \<noteq> h" by auto
  then have F: "F x = Some fx" using x by simp
  show "frame_ok ?F R' W' K' x fx"
  proof -
    have ok: "frame_ok F R W K x fx" by (rule shapeD(1) [OF sh F])
    have "owner_ok ?F x fx"
      by (rule owner_ok_kept [OF frame_okD(1) [OF ok] kept]) simp_all
    moreover have "point_ok ?F R' W' K' x (co_point fx)"
      using frame_okD(2) [OF ok] off xh f by (auto simp: point_ok_def split: co_point.splits option.splits)
    ultimately show ?thesis using ok by (simp add: frame_ok_def)
  qed
next
  fix x
  assume "?F x = None"
  then show "x \<notin> R' \<and> W' x = None \<and> x \<notin> K'" using shapeD(2) [OF sh, of x] off by (cases "x = h") auto
qed

section \<open>The invariant of the state\<close>

definition held :: "('v, 'e, 's, 'a) co_state \<Rightarrow> nat list" where
  "held st = map (\<lambda>(n, t). task_handle t) (co_tasks st)"

definition ids_ok :: "('v, 'e, 's, 'a) frames \<Rightarrow> nat \<Rightarrow> nat list \<Rightarrow> bool" where
  "ids_ok F N D \<longleftrightarrow> distinct D \<and> (\<forall>h. F h = None \<longleftrightarrow> N \<le> h \<or> h \<in> set D) \<and> (\<forall>h\<in>set D. h < N) \<and>
     (\<forall>x f c k u. F x = Some f \<longrightarrow> co_point f = Awaiting c k u \<longrightarrow> c < N)"

definition co_inv :: "('v, 'e, 's, 'a) co_state \<Rightarrow> bool" where
  "co_inv st \<longleftrightarrow> shape (co_frames st) (running st) (waiting st) (set (held st)) \<and> distinct (held st) \<and>
     ids_ok (co_frames st) (next_frame st) (destroyed st) \<and> \<not> co_failed st \<and> \<not> co_undefined st"

lemma ids_live: "ids_ok F N D \<Longrightarrow> F h = Some f \<Longrightarrow> h < N \<and> h \<notin> set D"
  unfolding ids_ok_def by (metis leI option.distinct(1))

lemma ids_await: "ids_ok F N D \<Longrightarrow> F x = Some f \<Longrightarrow> co_point f = Awaiting c k u \<Longrightarrow> c < N"
  unfolding ids_ok_def by blast

lemma ids_upd:
  assumes "ids_ok F N D" "F h = Some f" "\<And>c k u. co_point f' = Awaiting c k u \<Longrightarrow> c < N"
  shows "ids_ok (F(h := Some f')) N D"
  using assms(1) ids_live [OF assms(1,2)] assms(3) unfolding ids_ok_def by (auto split: if_splits)

lemma ids_kill:
  assumes "ids_ok F N D" "F h = Some f"
  shows "ids_ok (F(h := None)) N (D @ [h])"
  using assms(1) ids_live [OF assms] unfolding ids_ok_def by auto

lemma ids_new:
  assumes "ids_ok F N D" "\<And>c k u. co_point f \<noteq> Awaiting c k u"
  shows "ids_ok (F(N := Some f)) (Suc N) D"
  using assms unfolding ids_ok_def
  by (auto simp: Suc_le_eq less_Suc_eq order.order_iff_strict split: if_splits)

lemma ids_fresh:
  assumes "ids_ok F N D"
  shows "F N = None" "awaited_by_none F N"
proof -
  show "F N = None" using assms by (simp add: ids_ok_def)
  show "awaited_by_none F N" using ids_await [OF assms] unfolding awaited_by_none_def by blast
qed

lemma co_inv_init: "co_inv co_init"
  by (simp add: co_inv_def co_init_def shape_def held_def ids_ok_def)

lemmas co_flags = co_assert_def co_undef_def co_leave_def set_frame_def

text \<open>Destroying a frame that awaits no other.\<close>

definition removed :: "nat \<Rightarrow> ('v, 'e, 's, 'a) co_frame \<Rightarrow> ('v, 'e, 's, 'a) co_update" where
  "removed h f st = st\<lparr>co_frames := (co_frames st)(h := None), destroyed := destroyed st @ [h],
     co_trace := co_trace st @ map Did (unwind_of (co_point f))\<rparr>"

lemma co_destroy_leaf:
  assumes "co_frames st h = Some f" "\<And>c k u. co_point f \<noteq> Awaiting c k u" "h < next_frame st"
  shows "co_destroy h st = removed h f st"
proof -
  obtain n where "next_frame st = Suc n" using assms(3) by (cases "next_frame st") auto
  then show ?thesis using assms(1,2)
    by (simp add: co_destroy_def removed_def Let_def split: co_point.split)
qed

lemma awaiting_resume_held:
  assumes "co_inv st" "h \<in> set (held st)"
  shows "\<exists>f. co_frames st h = Some f \<and> h \<notin> running st \<and> waiting st h = None \<and> \<not> at_final (co_point f) \<and>
    (\<forall>c k u. co_point f \<noteq> Awaiting c k u) \<and> h < next_frame st"
proof -
  have sh: "shape (co_frames st) (running st) (waiting st) (set (held st))" using assms(1) by (simp add: co_inv_def)
  obtain f where f: "co_frames st h = Some f" using shapeD(2) [OF sh, of h] assms(2) by blast
  have "point_ok (co_frames st) (running st) (waiting st) (set (held st)) h (co_point f)"
    by (rule frame_okD(2) [OF shapeD(1) [OF sh f]])
  then have "h \<notin> running st \<and> waiting st h = None \<and> \<not> at_final (co_point f) \<and> (\<forall>c k u. co_point f \<noteq> Awaiting c k u)"
    using assms(2) by (auto simp: point_ok_def at_final_def split: co_point.splits option.splits)
  moreover have "h < next_frame st" using assms(1) ids_live [of "co_frames st" _ _ h f] f unfolding co_inv_def by blast
  ultimately show ?thesis using f by blast
qed

text \<open>The frame of a running coroutine.\<close>

lemma running_frame:
  assumes "co_inv st" "h \<in> running st"
  shows "\<exists>f. co_frames st h = Some f \<and> h < next_frame st \<and>
    frame_ok (co_frames st) (running st) (waiting st) (set (held st)) h f"
proof -
  have sh: "shape (co_frames st) (running st) (waiting st) (set (held st))" using assms(1) by (simp add: co_inv_def)
  obtain f where f: "co_frames st h = Some f" using shapeD(2) [OF sh, of h] assms(2) by blast
  then show ?thesis
    using shapeD(1) [OF sh f] ids_live [of "co_frames st" _ _ h f] assms(1) unfolding co_inv_def by blast
qed

text \<open>A local step: the frame changes, nobody else's hold does.\<close>

lemma co_inv_local:
  assumes inv: "co_inv st" and f: "co_frames st h = Some f" "\<And>c k u. co_point f \<noteq> Awaiting c k u"
    "co_point f \<noteq> Done"
    and f': "continuation f' = continuation f" "co_kind f' = co_kind f" "co_point f' \<noteq> Done"
      "(co_return_slot f' \<noteq> None) = at_final (co_point f')" "\<And>c k u. co_point f' \<noteq> Awaiting c k u"
    and st': "co_frames st' = (co_frames st)(h := Some f')" "next_frame st' = next_frame st"
      "destroyed st' = destroyed st" "co_failed st' = co_failed st" "co_undefined st' = co_undefined st"
    and ok: "point_ok (co_frames st') (running st') (waiting st') (set (held st')) h (co_point f')"
    and off: "running st' - {h} = running st - {h}" "set (held st') - {h} = set (held st) - {h}"
      "\<And>x. x \<noteq> h \<Longrightarrow> waiting st' x = waiting st x" "distinct (held st')"
  shows "co_inv st'"
proof -
  have sh: "shape (co_frames st) (running st) (waiting st) (set (held st))" using inv by (simp add: co_inv_def)
  have "shape ((co_frames st)(h := Some f')) (running st') (waiting st') (set (held st'))"
    by (rule shape_local [OF sh f(1)]) (use f f' st' ok off in \<open>auto simp: at_final_def\<close>)
  moreover have "ids_ok ((co_frames st)(h := Some f')) (next_frame st) (destroyed st)"
    by (rule ids_upd [of _ _ _ h f]) (use inv f f' in \<open>auto simp: co_inv_def\<close>)
  ultimately show ?thesis using inv st' off(4) by (simp add: co_inv_def)
qed

lemma co_inv_removed:
  assumes inv: "co_inv st" and f: "co_frames st h = Some f" "\<And>c k u. co_point f \<noteq> Awaiting c k u" "co_point f \<noteq> Done"
    and st': "co_frames st' = co_frames st" "next_frame st' = next_frame st"
      "destroyed st' = destroyed st" "co_failed st' = co_failed st" "co_undefined st' = co_undefined st"
    and off: "running st' = running st - {h}" "set (held st') = set (held st) - {h}" "waiting st' h = None"
      "\<And>x. x \<noteq> h \<Longrightarrow> waiting st' x = waiting st x" "distinct (held st')"
  shows "co_inv (removed h f st')"
proof -
  have sh: "shape (co_frames st) (running st) (waiting st) (set (held st))" using inv by (simp add: co_inv_def)
  have "shape ((co_frames st)(h := None)) (running st') (waiting st') (set (held st'))"
    by (rule shape_kill [OF sh f(1)]) (use f off in auto)
  moreover have "ids_ok ((co_frames st)(h := None)) (next_frame st) (destroyed st @ [h])"
    by (rule ids_kill) (use inv f in \<open>auto simp: co_inv_def\<close>)
  moreover have "held (removed h f st') = held st'" by (simp add: held_def removed_def)
  ultimately show ?thesis using inv st' off(5) by (simp add: co_inv_def removed_def)
qed

text \<open>The steps that touch two frames, evaluated.\<close>

definition callee_frame :: "co_kind \<Rightarrow> ('v, 'e, 's, 'a) co_body \<Rightarrow> nat \<Rightarrow> ('v, 'e, 's, 'a) co_frame" where
  "callee_frame kind b h = \<lparr>co_kind = kind, co_point = At b, continuation = Handle h, co_return_slot = None\<rparr>"

lemma callee_frame_fields [simp]:
  "co_kind (callee_frame kind b h) = kind" "co_point (callee_frame kind b h) = At b"
  "continuation (callee_frame kind b h) = Handle h" "co_return_slot (callee_frame kind b h) = None"
  by (simp_all add: callee_frame_def)

lemma co_step_await:
  assumes "co_frames st h = Some f" "co_point f = At (Co_await kind b k u)" "h \<noteq> next_frame st" "next_frame st \<notin> running st"
  shows "co_step h st = st\<lparr>co_frames := (co_frames st)(h := Some (f\<lparr>co_point := Awaiting (next_frame st) k u\<rparr>),
      next_frame st := Some (callee_frame kind b h)),
    next_frame := Suc (next_frame st), running := insert (next_frame st) (running st - {h})\<rparr>"
  using assms
  by (simp add: co_step_def co_call_def awaiter_suspend_def co_flags co_transfer_def co_resume_def can_resume_def co_done_def
      at_final_def callee_frame_def fun_upd_twist)

lemma co_step_join:
  assumes "co_frames st h = Some f" "co_point f = Awaiting c k u" "co_frames st c = Some g" "co_point g = Done"
    "co_return_slot g = Some r" "h \<noteq> c" "c < next_frame st"
  shows "co_step h st = st\<lparr>co_frames := (co_frames st)(c := None, h := Some (f\<lparr>co_point := At (k r)\<rparr>)),
    destroyed := destroyed st @ [c]\<rparr>"
proof -
  obtain n where "next_frame st = Suc n" using assms(7) by (cases "next_frame st") auto
  then show ?thesis using assms
    by (simp add: co_step_def awaiter_resume_def co_get_return_def co_flags co_done_def at_final_def coro_dtor_def
        co_destroy_def Let_def fun_upd_twist)
qed

lemma co_step_return:
  assumes "co_frames st h = Some f" "co_point f = Finishing" "continuation f = Handle p" "p \<notin> running st" "p \<noteq> h"
    "co_frames st p = Some pf" "\<not> at_final (co_point pf)"
  shows "co_step h st = st\<lparr>co_frames := (co_frames st)(h := Some (f\<lparr>co_point := Done\<rparr>)),
    running := insert p (running st - {h})\<rparr>"
  using assms
  by (simp add: co_step_def final_awaiter_suspend_def co_flags co_transfer_def co_resume_def can_resume_def co_done_def)

lemma co_step_free:
  assumes "co_frames st h = Some f" "co_point f = Finishing" "continuation f = Null_handle" "co_kind f = Async_coro"
    "h < next_frame st"
  shows "co_step h st = removed h f (st\<lparr>running := running st - {h}\<rparr>)"
proof -
  obtain n where "next_frame st = Suc n" using assms(5) by (cases "next_frame st") auto
  then show ?thesis using assms
    by (simp add: co_step_def final_awaiter_suspend_def co_flags co_destroy_def removed_def Let_def)
qed

lemma step_keeps_inv:
  assumes inv: "co_inv st" and h: "h \<in> running st"
  shows "co_inv (co_step h st)"
proof -
  obtain f where f: "co_frames st h = Some f" "h < next_frame st"
    and fok: "frame_ok (co_frames st) (running st) (waiting st) (set (held st)) h f"
    using running_frame [OF inv h] by blast
  note pok = frame_okD(2) [OF fok]
  have sh: "shape (co_frames st) (running st) (waiting st) (set (held st))"
    and ids: "ids_ok (co_frames st) (next_frame st) (destroyed st)" using inv by (simp_all add: co_inv_def)
  have slot: "\<not> at_final (co_point f) \<Longrightarrow> co_return_slot f = None" using frame_okD(3) [OF fok] by simp
  show ?thesis
  proof (cases "co_point f")
    case (At b)
    show ?thesis
    proof (cases b)
      case (Co_return v)
      show ?thesis
        by (rule co_inv_local [OF inv f(1), where f' = "f\<lparr>co_point := Finishing, co_return_slot := Some (Inr v)\<rparr>"])
          (use At Co_return f h pok inv in \<open>simp_all add: co_step_def finish_with_def set_frame_def held_def
            at_final_def point_ok_def co_inv_def\<close>)
    next
      case (Co_throw e)
      show ?thesis
        by (rule co_inv_local [OF inv f(1), where f' = "f\<lparr>co_point := Finishing, co_return_slot := Some (Inl e)\<rparr>"])
          (use At Co_throw f h pok inv in \<open>simp_all add: co_step_def finish_with_def set_frame_def held_def
            at_final_def point_ok_def co_inv_def\<close>)
    next
      case (Co_act a b')
      show ?thesis
        by (rule co_inv_local [OF inv f(1), where f' = "f\<lparr>co_point := At b'\<rparr>"])
          (use At Co_act f h pok inv slot in \<open>simp_all add: co_step_def set_frame_def held_def
            at_final_def point_ok_def co_inv_def\<close>)
    next
      case (Co_await_signal s k u)
      show ?thesis
        by (rule co_inv_local [OF inv f(1), where f' = "f\<lparr>co_point := Awaiting_signal s k u None\<rparr>"])
          (use At Co_await_signal f h pok inv slot in \<open>auto simp: co_step_def signal_awaiter_suspend_def co_flags held_def
            at_final_def point_ok_def co_inv_def\<close>)
    next
      case (Co_await kind b' k u)
      have N: "next_frame st \<notin> running st" "h \<noteq> next_frame st"
        using shapeD(2) [OF sh ids_fresh(1) [OF ids]] f by auto
      have "shape ((co_frames st)(h := Some (f\<lparr>co_point := Awaiting (next_frame st) k u\<rparr>),
          next_frame st := Some (callee_frame kind b' h)))
          (insert (next_frame st) (running st - {h})) (waiting st) (set (held st))"
        by (rule shape_spawn [OF sh f(1) At h ids_fresh [OF ids]]) (simp_all add: callee_frame_def)
      moreover have "ids_ok ((co_frames st)(next_frame st := Some (callee_frame kind b' h),
          h := Some (f\<lparr>co_point := Awaiting (next_frame st) k u\<rparr>))) (Suc (next_frame st)) (destroyed st)"
        by (rule ids_upd [where f = f]) (use f N in \<open>simp_all add: ids_new [OF ids] callee_frame_def\<close>)
      ultimately show ?thesis using inv At Co_await N
        by (simp add: co_step_await [OF f(1)] co_inv_def held_def fun_upd_twist)
    qed
  next
    case (Awaiting c k u)
    obtain g r where g: "co_frames st c = Some g" "co_point g = Done" "co_return_slot g = Some r" "c \<noteq> h"
      using shape_join(2) [OF sh f(1) Awaiting h refl] by blast
    have c: "c < next_frame st" using ids_live [OF ids g(1)] by blast
    have "shape ((co_frames st)(c := None, h := Some (f\<lparr>co_point := At (k r)\<rparr>))) (running st) (waiting st) (set (held st))"
      by (rule shape_join(1) [OF sh f(1) Awaiting h refl])
    moreover have "ids_ok ((co_frames st)(c := None, h := Some (f\<lparr>co_point := At (k r)\<rparr>))) (next_frame st) (destroyed st @ [c])"
      by (rule ids_upd [where f = f, OF ids_kill [OF ids g(1)]]) (use f g in simp_all)
    ultimately show ?thesis using inv g c
      by (simp add: co_step_join [OF f(1) Awaiting g(1,2,3)] co_inv_def held_def)
  next
    case (Awaiting_signal s k u got)
    then obtain r where r: "got = Some r" using pok h by (cases got) (auto simp: point_ok_def)
    show ?thesis
      by (rule co_inv_local [OF inv f(1), where f' = "f\<lparr>co_point := At (k r)\<rparr>"])
        (use Awaiting_signal r f h pok inv slot in \<open>simp_all add: co_step_def set_frame_def held_def
            at_final_def point_ok_def co_inv_def\<close>)
  next
    case Finishing
    consider (handle) p where "continuation f = Handle p" | (root) "continuation f = Null_handle" "co_kind f = Async_coro"
      using frame_okD(1) [OF fok] by (auto simp: owner_ok_def split: co_handle.splits)
    then show ?thesis
    proof cases
      case handle
      obtain pf k u where p: "shape ((co_frames st)(h := Some (f\<lparr>co_point := Done\<rparr>))) (insert p (running st - {h})) (waiting st) (set (held st))"
          "p \<noteq> h" "p \<notin> running st" "co_frames st p = Some pf" "co_point pf = Awaiting h k u"
        using shape_return [OF sh f(1) Finishing handle refl] by blast
      have "ids_ok ((co_frames st)(h := Some (f\<lparr>co_point := Done\<rparr>))) (next_frame st) (destroyed st)"
        by (rule ids_upd [where f = f, OF ids f(1)]) simp
      then show ?thesis using inv p
        by (simp add: co_step_return [OF f(1) Finishing handle] at_final_def co_inv_def held_def)
    next
      case root
      show ?thesis unfolding co_step_free [OF f(1) Finishing root f(2)]
        by (rule co_inv_removed [OF inv f(1)]) (use Finishing pok inv in \<open>simp_all add: point_ok_def held_def co_inv_def\<close>)
    qed
  next
    case Done
    then show ?thesis using pok h by (simp add: point_ok_def)
  qed
qed

text \<open>The other moves.\<close>

lemma held_take:
  assumes "i < length (co_tasks st)" "co_tasks st ! i = (n, t)" "distinct (held st)"
  shows "set (held (take_task i st)) = set (held st) - {task_handle t}" "distinct (held (take_task i st))"
    "task_handle t \<in> set (held st)"
proof -
  have h: "held st ! i = task_handle t" "i < length (held st)" using assms by (simp_all add: held_def)
  have eq: "held (take_task i st) = take i (held st) @ drop (Suc i) (held st)"
    by (simp add: held_def take_task_def take_map drop_map)
  obtain xs ys where xs: "xs = take i (held st)" "ys = drop (Suc i) (held st)" by simp
  have eq': "held (take_task i st) = xs @ ys" using eq xs by simp
  have split: "held st = xs @ task_handle t # ys" unfolding xs using h by (metis id_take_nth_drop)
  have "distinct (xs @ task_handle t # ys)" using assms(3) split by simp
  then show "distinct (held (take_task i st))" "set (held (take_task i st)) = set (held st) - {task_handle t}"
    using eq' split by auto
  show "task_handle t \<in> set (held st)" using h nth_mem by metis
qed

lemma resume_keeps_inv:
  assumes inv: "co_inv st" and h: "h \<in> set (held st)"
    and st': "st' = st\<lparr>co_tasks := ts\<rparr>" "set (held st') = set (held st) - {h}" "distinct (held st')"
  shows "co_inv (co_resume h st')"
proof -
  obtain f where f: "co_frames st h = Some f" "h \<notin> running st" "waiting st h = None" "\<not> at_final (co_point f)"
      "\<And>c k u. co_point f \<noteq> Awaiting c k u"
    using awaiting_resume_held [OF inv h] by blast
  have eq: "co_resume h st' = st'\<lparr>running := insert h (running st)\<rparr>"
    using f by (simp add: co_resume_def can_resume_def co_done_def st'(1))
  have sh: "shape (co_frames st) (running st) (waiting st) (set (held st))" using inv by (simp add: co_inv_def)
  have fok: "frame_ok (co_frames st) (running st) (waiting st) (set (held st)) h f" by (rule shapeD(1) [OF sh f(1)])
  have "point_ok (co_frames st) (insert h (running st)) (waiting st) (set (held st')) h (co_point f)"
    using frame_okD(2) [OF fok] f(4,5) h st'(2)
    by (cases "co_point f") (auto simp: point_ok_def at_final_def split: option.splits)
  moreover have "held (st'\<lparr>running := insert h (running st)\<rparr>) = held st'" by (simp add: held_def)
  moreover have "co_frames st' = co_frames st" "next_frame st' = next_frame st" "destroyed st' = destroyed st"
    "co_failed st' = co_failed st" "co_undefined st' = co_undefined st" "running st' = running st" "waiting st' = waiting st"
    unfolding st'(1) by simp_all
  ultimately show ?thesis unfolding eq
    by (intro co_inv_local [OF inv f(1,5), where f' = f])
      (use f(1,4,5) frame_okD(3) [OF fok] st'(2,3) in \<open>simp_all add: fun_upd_idem at_final_def\<close>)
qed

lemma cancel_keeps_inv:
  assumes inv: "co_inv st" and h: "h \<in> set (held st)"
    and st': "st' = st\<lparr>co_tasks := ts\<rparr>" "set (held st') = set (held st) - {h}" "distinct (held st')"
  shows "co_inv (co_destroy h st')"
proof -
  obtain f where f: "co_frames st h = Some f" "h \<notin> running st" "waiting st h = None" "\<not> at_final (co_point f)"
      "\<And>c k u. co_point f \<noteq> Awaiting c k u" "h < next_frame st"
    using awaiting_resume_held [OF inv h] by blast
  have "co_destroy h st' = removed h f st'" by (rule co_destroy_leaf) (use f in \<open>simp_all add: st'(1)\<close>)
  moreover have "co_inv (removed h f st')"
    by (rule co_inv_removed [OF inv f(1,5)]) (use f st' in \<open>auto simp: at_final_def\<close>)
  ultimately show ?thesis by simp
qed

text \<open>A signal's slot is bound to a frame that waits for it.\<close>

lemma waiting_frame:
  assumes "co_inv st" "waiting st h = Some s"
  shows "\<exists>f k u. co_frames st h = Some f \<and> co_point f = Awaiting_signal s k u None \<and> h \<notin> running st \<and> h \<notin> set (held st) \<and>
    co_return_slot f = None \<and> h < next_frame st"
proof -
  have sh: "shape (co_frames st) (running st) (waiting st) (set (held st))" using assms(1) by (simp add: co_inv_def)
  obtain f where f: "co_frames st h = Some f" using shapeD(2) [OF sh, of h] assms(2) by fastforce
  have fok: "frame_ok (co_frames st) (running st) (waiting st) (set (held st)) h f" by (rule shapeD(1) [OF sh f])
  have "h < next_frame st" using assms(1) ids_live [of "co_frames st" _ _ h f] f unfolding co_inv_def by blast
  then show ?thesis using f frame_okD(2,3) [OF fok] assms(2)
    by (auto simp: point_ok_def at_final_def split: co_point.splits option.splits)
qed

lemma slot_value_keeps_inv:
  assumes inv: "co_inv st" and w: "waiting st h = Some s"
  shows "co_inv (co_executor_schedule ex (Awaiter_task h) (store_result h r (st\<lparr>waiting := (waiting st)(h := None)\<rparr>)))"
proof -
  obtain f k u where f: "co_frames st h = Some f" "co_point f = Awaiting_signal s k u None" "h \<notin> running st"
      "h \<notin> set (held st)" "co_return_slot f = None"
    using waiting_frame [OF inv w] by blast
  let ?f = "f\<lparr>co_point := Awaiting_signal s k u (Some r)\<rparr>"
  have eq: "store_result h r (st\<lparr>waiting := (waiting st)(h := None)\<rparr>) =
      st\<lparr>waiting := (waiting st)(h := None), co_frames := (co_frames st)(h := Some ?f)\<rparr>"
    using f by (simp add: store_result_def set_frame_def)
  have d: "distinct (held st)" using inv by (simp add: co_inv_def)
  show ?thesis unfolding eq
    by (cases ex; rule co_inv_local [OF inv f(1), where f' = ?f])
      (use f d in \<open>auto simp: co_executor_schedule_def task_execute_def co_resume_def can_resume_def co_done_def at_final_def
        point_ok_def held_def\<close>)
qed

lemma slot_null_keeps_inv:
  assumes inv: "co_inv st" and w: "waiting st h = Some s"
  shows "co_inv (task_cancel (Awaiter_task h) (st\<lparr>waiting := (waiting st)(h := None)\<rparr>))"
proof -
  obtain f k u where f: "co_frames st h = Some f" "co_point f = Awaiting_signal s k u None" "h \<notin> running st"
      "h \<notin> set (held st)" "h < next_frame st"
    using waiting_frame [OF inv w] by blast
  have "task_cancel (Awaiter_task h) (st\<lparr>waiting := (waiting st)(h := None)\<rparr>) =
      removed h f (st\<lparr>waiting := (waiting st)(h := None)\<rparr>)"
    unfolding task_cancel_def task_handle.simps by (rule co_destroy_leaf) (use f in simp_all)
  moreover have "co_inv (removed h f (st\<lparr>waiting := (waiting st)(h := None)\<rparr>))"
    by (rule co_inv_removed [OF inv f(1)]) (use f inv in \<open>auto simp: held_def co_inv_def\<close>)
  ultimately show ?thesis by simp
qed

lemma schedule_keeps_inv:
  assumes inv: "co_inv st"
  shows "co_inv (coro_schedule ex body st)"
proof -
  let ?N = "next_frame st"
  let ?g = "\<lparr>co_kind = Async_coro, co_point = At body, continuation = Null_handle, co_return_slot = None\<rparr>"
  have sh: "shape (co_frames st) (running st) (waiting st) (set (held st))"
    and ids: "ids_ok (co_frames st) ?N (destroyed st)" using inv by (simp_all add: co_inv_def)
  have N: "?N \<notin> running st" "?N \<notin> set (held st)" using shapeD(2) [OF sh ids_fresh(1) [OF ids]] by auto
  have eq: "coro_schedule ex body st = (case ex of
      Inline_executor \<Rightarrow> st\<lparr>co_frames := (co_frames st)(?N := Some ?g), next_frame := Suc ?N, running := insert ?N (running st)\<rparr>
    | Executor n \<Rightarrow> st\<lparr>co_frames := (co_frames st)(?N := Some ?g), next_frame := Suc ?N, co_tasks := co_tasks st @ [(n, Promise_task ?N)]\<rparr>)"
    using N by (simp add: coro_schedule_def co_call_def set_frame_def co_executor_schedule_def task_execute_def co_resume_def
        can_resume_def co_done_def at_final_def split: exec_id.split)
  have ids': "ids_ok ((co_frames st)(?N := Some ?g)) (Suc ?N) (destroyed st)" by (rule ids_new [OF ids]) simp
  show ?thesis
  proof (cases ex)
    case Inline_executor
    have "shape ((co_frames st)(?N := Some ?g)) (insert ?N (running st)) (waiting st) (set (held st))"
      by (rule shape_new [OF sh ids_fresh [OF ids]]) (use N in auto)
    then show ?thesis using inv ids' Inline_executor unfolding eq by (simp add: co_inv_def held_def)
  next
    case (Executor n)
    have "shape ((co_frames st)(?N := Some ?g)) (running st) (waiting st) (insert ?N (set (held st)))"
      by (rule shape_new [OF sh ids_fresh [OF ids]]) (use N in auto)
    then show ?thesis using inv ids' Executor N unfolding eq by (simp add: co_inv_def held_def)
  qed
qed

lemma moves_keep_inv: "co_moves sx st st' \<Longrightarrow> co_inv st \<Longrightarrow> co_inv st'"
proof (induction rule: co_moves.induct)
  case (mv_slot st h s call)
  then show ?case
    by (cases call) (simp_all add: slot_called_def awaiter_slot_def slot_value_keeps_inv slot_null_keeps_inv)
next
  case (mv_execute i st n t)
  have d: "distinct (held st)" using mv_execute by (simp add: co_inv_def)
  note tk = held_take [OF mv_execute(1,2) d]
  show ?case unfolding task_execute_def
    by (rule resume_keeps_inv [OF mv_execute(3) tk(3) take_task_def tk(1,2)])
next
  case (mv_cancel i st n t)
  have d: "distinct (held st)" using mv_cancel by (simp add: co_inv_def)
  note tk = held_take [OF mv_cancel(1,2) d]
  show ?case unfolding task_cancel_def
    by (rule cancel_keeps_inv [OF mv_cancel(3) tk(3) take_task_def tk(1,2)])
qed (rule schedule_keeps_inv step_keeps_inv, assumption+)+

lemma co_reachable_inv: "co_reachable sx st \<Longrightarrow> co_inv st"
  unfolding co_reachable_def by (induction rule: rtranclp_induct) (auto intro: co_inv_init moves_keep_inv)

section \<open>Properties\<close>

text \<open>Who will touch a frame next: threads in it, a signal that owes it a call, executors' tasks.\<close>

definition holders :: "('v, 'e, 's, 'a) co_state \<Rightarrow> nat \<Rightarrow> nat" where
  "holders st h = of_bool (h \<in> running st) + of_bool (waiting st h \<noteq> None) + count_list (held st) h"

definition expected_holders :: "('v, 'e, 's, 'a) co_state \<Rightarrow> ('v, 'e, 's, 'a) co_point \<Rightarrow> nat" where
  "expected_holders st p = (case p of
     Awaiting c k u \<Rightarrow> (case co_frames st c of None \<Rightarrow> 0 | Some g \<Rightarrow> of_bool (co_point g = Done))
   | Done \<Rightarrow> 0
   | _ \<Rightarrow> 1)"

lemma holders_expected:
  assumes "co_inv st" "co_frames st h = Some f"
  shows "holders st h = expected_holders st (co_point f)"
proof -
  have "count_list (held st) h = of_bool (h \<in> set (held st))"
    using assms(1) by (simp add: co_inv_def count_list_distinct)
  moreover have "frame_ok (co_frames st) (running st) (waiting st) (set (held st)) h f"
    using assms by (intro shapeD(1)) (auto simp: co_inv_def)
  ultimately show ?thesis using frame_okD(2) [of "co_frames st" "running st" "waiting st" "set (held st)" h f]
    by (auto simp: holders_def expected_holders_def point_ok_def split: co_point.splits option.splits)
qed

text \<open>
  C16: Awaitable coroutines never touch a frame at the wrong time. Any number of coroutines that await
  each other and signals, run by any threads, with every order of resumptions, slot calls and
  executions or cancellations of tasks: no frame is resumed or destroyed when it is gone, finished or
  being run, and no assertion of \<open>async\<close> or of its awaiters fails. Every frame ever made is either alive or was
  destroyed, once. A frame alive is held by exactly one thread, signal or task, unless it awaits
  another: then by none while that one is not finished, and by the thread that finished it
  afterwards. A frame whose awaited frame was destroyed is held by nobody and nobody will touch it again.
\<close>

theorem coroutine_frames_safe:
  assumes "co_reachable sx st"
  shows "\<not> co_undefined st \<and> \<not> co_failed st \<and> distinct (destroyed st) \<and>
    (\<forall>h. (co_frames st h \<noteq> None) = (h < next_frame st \<and> h \<notin> set (destroyed st))) \<and>
    (\<forall>h. case co_frames st h of
       None \<Rightarrow> holders st h = 0
     | Some f \<Rightarrow> holders st h = expected_holders st (co_point f) \<and>
         (case co_point f of
            Awaiting c k u \<Rightarrow> (case co_frames st c of
              None \<Rightarrow> c \<in> set (destroyed st)
            | Some g \<Rightarrow> continuation g = Handle h)
          | _ \<Rightarrow> True))"
proof -
  have inv: "co_inv st" by (rule co_reachable_inv [OF assms])
  then have ids: "ids_ok (co_frames st) (next_frame st) (destroyed st)"
    and sh: "shape (co_frames st) (running st) (waiting st) (set (held st))" by (simp_all add: co_inv_def)
  have gone: "holders st h = 0" if "co_frames st h = None" for h
    using shapeD(2) [OF sh that] by (simp add: holders_def count_list_0_iff)
  have waits: "case co_frames st c of None \<Rightarrow> c \<in> set (destroyed st) | Some g \<Rightarrow> continuation g = Handle h"
    if "co_frames st h = Some f" "co_point f = Awaiting c k u" for h f c k u
    using frame_okD(2) [OF shapeD(1) [OF sh that(1)]] that(2) ids_await [OF ids that] ids
    by (auto simp: point_ok_def ids_ok_def split: option.split)
  show ?thesis
    using inv gone holders_expected [OF inv] waits ids
    by (auto simp: co_inv_def ids_ok_def not_le split: option.split co_point.split)
qed

text \<open>A coroutine that awaits another, which awaits a signal; the signal is cancelled.\<close>

definition nested_body :: "(nat, nat, nat, nat) co_body" where
  "nested_body = Co_await Async_coro (Co_await_signal 0 (\<lambda>r. Co_return 1) []) (\<lambda>r. Co_return 2) []"

definition nested_start :: "(nat, nat, nat, nat) co_state" where
  "nested_start = task_execute (Promise_task 0) (take_task 0 (coro_schedule (Executor 0) nested_body co_init))"

definition nested_cancelled :: "(nat, nat, nat, nat) co_state" where
  "nested_cancelled = slot_called (\<lambda>s. Executor 0) 1 0 Set_null (co_step 1 (co_step 0 nested_start))"

lemmas co_defs = co_step_def co_call_def coro_schedule_def co_executor_schedule_def task_execute_def task_cancel_def
  take_task_def slot_called_def awaiter_slot_def awaiter_suspend_def signal_awaiter_suspend_def co_transfer_def
  co_resume_def can_resume_def co_done_def at_final_def co_flags co_destroy_def co_init_def held_def

lemma nested_reachable: "co_reachable (\<lambda>s. Executor 0) nested_cancelled"
proof -
  have 1: "co_reachable (\<lambda>s. Executor 0) (coro_schedule (Executor 0) nested_body co_init)"
    unfolding co_reachable_def by (rule r_into_rtranclp, rule mv_schedule)
  have 2: "co_reachable (\<lambda>s. Executor 0) nested_start"
    unfolding co_reachable_def nested_start_def
    by (rule rtranclp.rtrancl_into_rtrancl [OF 1 [unfolded co_reachable_def]], rule mv_execute [where n = 0])
      (simp_all add: co_defs nested_body_def)
  have 3: "co_reachable (\<lambda>s. Executor 0) (co_step 0 nested_start)"
    unfolding co_reachable_def
    by (rule rtranclp.rtrancl_into_rtrancl [OF 2 [unfolded co_reachable_def]], rule mv_step)
      (simp add: co_defs nested_body_def nested_start_def)
  have 4: "co_reachable (\<lambda>s. Executor 0) (co_step 1 (co_step 0 nested_start))"
    unfolding co_reachable_def
    by (rule rtranclp.rtrancl_into_rtrancl [OF 3 [unfolded co_reachable_def]], rule mv_step)
      (simp add: co_defs nested_body_def nested_start_def)
  show ?thesis
    unfolding co_reachable_def nested_cancelled_def
    by (rule rtranclp.rtrancl_into_rtrancl [OF 4 [unfolded co_reachable_def]], rule mv_slot)
      (simp add: co_defs nested_body_def nested_start_def)
qed

theorem coroutine_frames_safe_witness:
  "\<not> co_undefined nested_cancelled \<and> \<not> co_failed nested_cancelled \<and> destroyed nested_cancelled = [1] \<and>
   co_frames nested_cancelled 0 \<noteq> None \<and> holders nested_cancelled 0 = 0"
proof -
  have "destroyed nested_cancelled = [1]" "\<exists>f. co_frames nested_cancelled 0 = Some f" "holders nested_cancelled 0 = 0"
    by (simp_all add: nested_cancelled_def nested_start_def nested_body_def co_defs holders_def eval_nat_numeral)
  then show ?thesis using coroutine_frames_safe [OF nested_reachable] by auto
qed

end
