(* ===== verification/Coroutine_Calls.thy ===== *)
theory Coroutine_Calls
  imports Coroutine_Safety
begin

text \<open>
  The machine of \<open>Coroutine\<close>, with its frames, continuations and symmetric transfers, compared with
  calls: \<open>calls\<close> evaluates a body as if \<open>co_await\<close> of a coroutine were a call that returns its result
  or throws its exception. One coroutine runs alone; the signals it awaits are answered one by one.
\<close>

section \<open>The machine, driven\<close>

text \<open>
  An answer is what a signal calls its slot with and whether the task that the slot may put on the signal's
  executor is executed; it is cancelled otherwise.
\<close>

type_synonym ('v, 'e) co_answer = "('v, 'e) slot_call \<times> bool"

definition answered :: "('s \<Rightarrow> exec_id) \<Rightarrow> nat \<Rightarrow> 's \<Rightarrow> ('v, 'e) co_answer \<Rightarrow> ('v, 'e, 's, 'a) co_update" where
  "answered sx h s answer st =
     (let st = slot_called sx h s (fst answer) st
      in case co_tasks st of
           [] \<Rightarrow> st
         | (n, t) # ts \<Rightarrow> (if snd answer then task_execute t else task_cancel t) (take_task 0 st))"

text \<open>
  At most \<open>n\<close> rounds: the running coroutine does a step; when none runs the next answer is given to
  the frame that waits for one. What is left is the state and the answers not used.
\<close>

fun drive :: "('s \<Rightarrow> exec_id) \<Rightarrow> nat \<Rightarrow> ('v, 'e) co_answer list \<Rightarrow> ('v, 'e, 's, 'a) co_state \<Rightarrow>
    ('v, 'e, 's, 'a) co_state \<times> ('v, 'e) co_answer list" where
  "drive sx 0 as st = (st, as)"
| "drive sx (Suc n) as st =
     (if running st \<noteq> {} then drive sx n as (co_step (Min (running st)) st)
      else case (as, List.find (\<lambda>h. waiting st h \<noteq> None) [0..<next_frame st]) of
             (a # as', Some h) \<Rightarrow> drive sx n as' (answered sx h (the (waiting st h)) a st)
           | _ \<Rightarrow> (st, as))"

section \<open>Calls\<close>

datatype ('v, 'e) co_end = Ended "('v, 'e) result" "('v, 'e) co_answer list"
  | Cancelled nat "('v, 'e) co_answer list" | Blocked nat

text \<open>
  How a body ends: with a result; cancelled, where the number is that of the callers that were
  waiting; or waiting for an answer that is not there, likewise.
\<close>

definition answer_result :: "exec_id \<Rightarrow> ('v, 'e) co_answer \<Rightarrow> ('v, 'e) maybe_result" where
  "answer_result ex answer = (if ex = Inline_executor \<or> snd answer then maybe_result_of (fst answer) else None)"

inductive calls :: "('s \<Rightarrow> exec_id) \<Rightarrow> ('v, 'e, 's, 'a) co_body \<Rightarrow> ('v, 'e) co_answer list \<Rightarrow>
    ('s, 'a) co_event list \<Rightarrow> ('v, 'e) co_end \<Rightarrow> bool" for sx where
  c_return: "calls sx (Co_return v) as [] (Ended (Inr v) as)"
| c_throw: "calls sx (Co_throw e) as [] (Ended (Inl e) as)"
| c_act: "calls sx b as l fin \<Longrightarrow> calls sx (Co_act a b) as (Did a # l) fin"
| c_signal: "answer_result (sx s) a = Some r \<Longrightarrow> calls sx (k r) as l fin \<Longrightarrow>
    calls sx (Co_await_signal s k u) (a # as) (Emitted s # l) fin"
| c_null: "answer_result (sx s) a = None \<Longrightarrow>
    calls sx (Co_await_signal s k u) (a # as) (Emitted s # map Did u) (Cancelled 0 as)"
| c_block: "calls sx (Co_await_signal s k u) [] [Emitted s] (Blocked 0)"
| c_await: "calls sx b as l (Ended r as') \<Longrightarrow> calls sx (k r) as' l' fin \<Longrightarrow>
    calls sx (Co_await kind b k u) as (l @ l') fin"
| c_await_null: "calls sx b as l (Cancelled d as') \<Longrightarrow> calls sx (Co_await kind b k u) as l (Cancelled (Suc d) as')"
| c_await_block: "calls sx b as l (Blocked d) \<Longrightarrow> calls sx (Co_await kind b k u) as l (Blocked (Suc d))"

code_pred calls .

section \<open>One coroutine alone\<close>

definition solo :: "nat \<Rightarrow> ('v, 'e, 's, 'a) co_state \<Rightarrow> bool" where
  "solo h st \<longleftrightarrow> running st = {h} \<and> waiting st = (\<lambda>_. None) \<and> co_tasks st = [] \<and> h < next_frame st \<and>
     (\<forall>i\<ge>next_frame st. co_frames st i = None)"

lemma drive_step: "running st = {h} \<Longrightarrow> drive sx (Suc m) as st = drive sx m as (co_step h st)"
  by simp

lemma find_waiting:
  assumes "waiting st = (\<lambda>_. None)(h := Some s)" "h < N"
  shows "List.find (\<lambda>h. waiting st h \<noteq> None) [0..<N] = Some h"
  unfolding find_Some_iff using assms by (intro exI [of _ h]) simp

lemma drive_answer:
  assumes "running st = {}" "waiting st = (\<lambda>_. None)(h := Some s)" "h < next_frame st"
  shows "drive sx (Suc m) (a # as) st = drive sx m as (answered sx h s a st)"
    and "drive sx m [] st = (st, [])"
  using find_waiting [OF assms(2,3)] assms(1,2) by (cases m; simp)+

lemma drive_rest: "running st = {} \<Longrightarrow> waiting st = (\<lambda>_. None) \<Longrightarrow> drive sx m as st = (st, as)"
  by (cases m) (auto split: list.split option.split simp: find_Some_iff)

text \<open>The answer to a frame that waits: it runs on with the result, or is destroyed.\<close>

lemma answered_value:
  assumes "answer_result (sx s) a = Some r" "co_frames st h = Some f" "co_point f = Awaiting_signal s k u None"
    "running st = {}" "co_tasks st = []" "waiting st = (\<lambda>_. None)(h := Some s)"
  shows "answered sx h s a st = st\<lparr>waiting := \<lambda>_. None, running := {h},
    co_frames := (co_frames st)(h := Some (f\<lparr>co_point := Awaiting_signal s k u (Some r)\<rparr>))\<rparr>"
  using assms
  by (cases "sx s"; cases "fst a")
    (auto simp: answered_def answer_result_def slot_called_def awaiter_slot_def store_result_def co_executor_schedule_def
      task_execute_def co_resume_def can_resume_def co_done_def at_final_def set_frame_def take_task_def Let_def split: if_splits)

lemma answered_null:
  assumes "answer_result (sx s) a = None" "co_frames st h = Some f" "co_point f = Awaiting_signal s k u None"
    "running st = {}" "co_tasks st = []" "waiting st = (\<lambda>_. None)(h := Some s)" "h < next_frame st"
  shows "answered sx h s a st = st\<lparr>waiting := \<lambda>_. None, co_frames := (co_frames st)(h := None),
    destroyed := destroyed st @ [h], co_trace := co_trace st @ map Did u\<rparr>"
proof -
  obtain n where "next_frame st = Suc n" using assms(7) by (cases "next_frame st") auto
  then show ?thesis using assms
    by (cases "sx s"; cases "fst a")
      (auto simp: answered_def answer_result_def slot_called_def awaiter_slot_def store_result_def co_executor_schedule_def
        task_cancel_def co_destroy_def set_frame_def take_task_def Let_def split: if_splits)
qed

lemma co_step_signal:
  assumes "co_frames st h = Some f" "co_point f = At (Co_await_signal s k u)"
  shows "co_step h st = st\<lparr>co_frames := (co_frames st)(h := Some (f\<lparr>co_point := Awaiting_signal s k u None\<rparr>)),
    waiting := (waiting st)(h := Some s), co_trace := co_trace st @ [Emitted s], running := running st - {h}\<rparr>"
  using assms by (simp add: co_step_def signal_awaiter_suspend_def co_flags)

text \<open>
  What the machine reaches from a frame \<open>h\<close> that is at a body, and by how many the frames alive become more.
\<close>

definition live_more :: "('v, 'e, 's, 'a) co_state \<Rightarrow> ('v, 'e, 's, 'a) co_state \<Rightarrow> int \<Rightarrow> bool" where
  "live_more st st' d \<longleftrightarrow>
     int (next_frame st') - int (length (destroyed st')) = int (next_frame st) - int (length (destroyed st)) + d"

definition ends :: "nat \<Rightarrow> ('v, 'e, 's, 'a) co_frame \<Rightarrow> ('s, 'a) co_event list \<Rightarrow> ('v, 'e) co_end \<Rightarrow>
    ('v, 'e, 's, 'a) co_state \<Rightarrow> ('v, 'e, 's, 'a) co_state \<Rightarrow> ('v, 'e) co_answer list \<Rightarrow> bool" where
  "ends h f l fin st st' as' \<longleftrightarrow> co_trace st' = co_trace st @ l \<and> (\<forall>i. i < next_frame st \<longrightarrow> i \<noteq> h \<longrightarrow> co_frames st' i = co_frames st i) \<and>
     (\<forall>i\<ge>next_frame st'. co_frames st' i = None) \<and> next_frame st \<le> next_frame st' \<and>
     co_tasks st' = [] \<and> co_failed st' = co_failed st \<and> co_undefined st' = co_undefined st \<and>
     (case fin of
        Ended r as \<Rightarrow> as' = as \<and> running st' = {h} \<and> waiting st' = (\<lambda>_. None) \<and> live_more st st' 0 \<and>
          co_frames st' = (co_frames st)(h := Some (f\<lparr>co_point := Finishing, co_return_slot := Some r\<rparr>))
      | Cancelled d as \<Rightarrow> as' = as \<and> running st' = {} \<and> waiting st' = (\<lambda>_. None) \<and> live_more st st' (int d - 1)
      | Blocked d \<Rightarrow> as' = [] \<and> running st' = {} \<and> (\<exists>w s. w < next_frame st' \<and> waiting st' = (\<lambda>_. None)(w := Some s)) \<and> live_more st st' (int d))"

lemma calls_run:
  assumes "calls sx b as l fin" "co_frames st h = Some f" "co_point f = At b" "solo h st"
  shows "\<exists>n st' as'. (\<forall>m. drive sx (n + m) as st = drive sx m as' st') \<and> ends h f l fin st st' as'"
  using assms
proof (induction arbitrary: st h f rule: calls.induct)
  case (c_return v as)
  have "running st = {h}" using c_return by (simp add: solo_def)
  note d = drive_step [OF this]
  show ?case
    by (rule exI [of _ "Suc 0"], rule exI [of _ "co_step h st"], rule exI [of _ as])
      (use c_return d in \<open>simp add: co_step_def finish_with_def set_frame_def ends_def solo_def live_more_def\<close>)
next
  case (c_throw e as)
  have "running st = {h}" using c_throw by (simp add: solo_def)
  note d = drive_step [OF this]
  show ?case
    by (rule exI [of _ "Suc 0"], rule exI [of _ "co_step h st"], rule exI [of _ as])
      (use c_throw d in \<open>simp add: co_step_def finish_with_def set_frame_def ends_def solo_def live_more_def\<close>)
next
  case (c_act b as l fin a)
  have run: "running st = {h}" using c_act by (simp add: solo_def)
  let ?st = "co_step h st"
  have st: "?st = st\<lparr>co_frames := (co_frames st)(h := Some (f\<lparr>co_point := At b\<rparr>)), co_trace := co_trace st @ [Did a]\<rparr>"
    using c_act.prems by (simp add: co_step_def set_frame_def)
  obtain n st' as' where n: "\<And>m. drive sx (n + m) as ?st = drive sx m as' st'" "ends h (f\<lparr>co_point := At b\<rparr>) l fin ?st st' as'"
    using c_act.IH [of ?st h "f\<lparr>co_point := At b\<rparr>"] c_act.prems unfolding st by (auto simp: solo_def)
  have "drive sx (Suc n + m) as st = drive sx m as' st'" for m
    using drive_step [OF run, of sx "n + m" as] n(1) [of m] by simp
  moreover have "ends h f (Did a # l) fin st st' as'"
    using n(2) unfolding st by (simp add: ends_def live_more_def split: co_end.splits)
  ultimately show ?case by blast
next
  case (c_signal s a r k as l fin u)
  have run: "running st = {h}" and W: "waiting st = (\<lambda>_. None)" and h: "h < next_frame st" and T: "co_tasks st = []"
    using c_signal.prems by (simp_all add: solo_def)
  note st1 = co_step_signal [OF c_signal.prems(1,2)]
  let ?st2 = "answered sx h s a (co_step h st)" and ?f = "f\<lparr>co_point := Awaiting_signal s k u (Some r)\<rparr>"
  have st2: "?st2 = st\<lparr>running := {h}, co_frames := (co_frames st)(h := Some ?f), co_trace := co_trace st @ [Emitted s]\<rparr>"
    by (subst answered_value [of sx s a r _ h "f\<lparr>co_point := Awaiting_signal s k u None\<rparr>" k u]) (simp_all add: c_signal.hyps st1 run T W)
  let ?st3 = "co_step h ?st2"
  have st3: "?st3 = st\<lparr>co_frames := (co_frames st)(h := Some (f\<lparr>co_point := At (k r)\<rparr>)), co_trace := co_trace st @ [Emitted s]\<rparr>"
    unfolding st2 using run by (simp add: co_step_def set_frame_def)
  obtain n st' as' where n: "\<And>m. drive sx (n + m) as ?st3 = drive sx m as' st'" "ends h (f\<lparr>co_point := At (k r)\<rparr>) l fin ?st3 st' as'"
    using c_signal.IH [of ?st3 h "f\<lparr>co_point := At (k r)\<rparr>"] c_signal.prems unfolding st3 by (auto simp: solo_def)
  have "drive sx (Suc (Suc (Suc n)) + m) (a # as) st = drive sx m as' st'" for m
  proof -
    have "drive sx (Suc (Suc (Suc n)) + m) (a # as) st = drive sx (Suc (Suc (n + m))) (a # as) (co_step h st)"
      using drive_step [OF run] by simp
    also have "\<dots> = drive sx (Suc (n + m)) as ?st2"
      by (rule drive_answer(1)) (simp_all add: st1 run W h)
    also have "\<dots> = drive sx (n + m) as ?st3" by (rule drive_step) (simp add: st2)
    finally show ?thesis using n(1) by simp
  qed
  moreover have "ends h f (Emitted s # l) fin st st' as'"
    using n(2) unfolding st3 by (simp add: ends_def live_more_def split: co_end.splits)
  ultimately show ?case by blast
next
  case (c_null s a k u as)
  have run: "running st = {h}" and W: "waiting st = (\<lambda>_. None)" and h: "h < next_frame st" and T: "co_tasks st = []"
    and fresh: "\<forall>i\<ge>next_frame st. co_frames st i = None"
    using c_null.prems by (simp_all add: solo_def)
  note st1 = co_step_signal [OF c_null.prems(1,2)]
  let ?st2 = "answered sx h s a (co_step h st)"
  have st2: "?st2 = st\<lparr>running := {}, co_frames := (co_frames st)(h := None), destroyed := destroyed st @ [h],
      co_trace := co_trace st @ Emitted s # map Did u\<rparr>"
    by (subst answered_null [of sx s a _ h "f\<lparr>co_point := Awaiting_signal s k u None\<rparr>" k u]) (simp_all add: c_null.hyps st1 run T W h)
  have "drive sx (Suc (Suc 0) + m) (a # as) st = drive sx m as ?st2" for m
  proof -
    have "drive sx (Suc (Suc 0) + m) (a # as) st = drive sx (Suc m) (a # as) (co_step h st)"
      using drive_step [OF run] by simp
    also have "\<dots> = drive sx m as ?st2" by (rule drive_answer(1)) (simp_all add: st1 run W h)
    finally show ?thesis .
  qed
  moreover have "ends h f (Emitted s # map Did u) (Cancelled 0 as) st ?st2 as"
    unfolding st2 using T W fresh by (simp add: ends_def live_more_def)
  ultimately show ?case by blast
next
  case (c_block s k u)
  have run: "running st = {h}" and W: "waiting st = (\<lambda>_. None)" and h: "h < next_frame st" and T: "co_tasks st = []"
    and fresh: "\<forall>i\<ge>next_frame st. co_frames st i = None"
    using c_block.prems by (simp_all add: solo_def)
  note st1 = co_step_signal [OF c_block.prems(1,2)]
  have "drive sx (Suc 0 + m) [] st = drive sx m [] (co_step h st)" for m
    using drive_step [OF run] by simp
  moreover have "ends h f [Emitted s] (Blocked 0) st (co_step h st) []"
    unfolding st1 using run T W fresh h by (auto simp: ends_def live_more_def)
  ultimately show ?case by blast
next
  case (c_await b as l r as' k l' fin kind u)
  let ?c = "next_frame st"
  have run: "running st = {h}" and h: "h < ?c" and cf: "?c \<notin> running st" "h \<noteq> ?c"
    using c_await.prems by (auto simp: solo_def)
  let ?st1 = "co_step h st"
  note st1 = co_step_await [OF c_await.prems(1,2) cf(2,1)]
  have solo1: "solo ?c ?st1" using c_await.prems(3) unfolding st1 by (auto simp: solo_def)
  obtain n1 st2 as2 where n1: "\<And>m. drive sx (n1 + m) as ?st1 = drive sx m as2 st2" "ends ?c (callee_frame kind b h) l (Ended r as') ?st1 st2 as2"
    using c_await.IH(1) [OF _ _ solo1, of "callee_frame kind b h"] unfolding st1 by (auto simp: callee_frame_def)
  have as2: "as2 = as'" using n1(2) by (simp add: ends_def)
  let ?g = "(callee_frame kind b h)\<lparr>co_point := Finishing, co_return_slot := Some r\<rparr>"
    and ?f = "f\<lparr>co_point := Awaiting ?c k u\<rparr>"
  have st2: "running st2 = {?c}" "waiting st2 = (\<lambda>_. None)" "co_tasks st2 = []" "co_frames st2 ?c = Some ?g" "co_frames st2 h = Some ?f"
    "?c < next_frame st2" "\<forall>i\<ge>next_frame st2. co_frames st2 i = None"
    "\<forall>i. i < ?c \<longrightarrow> i \<noteq> h \<longrightarrow> co_frames st2 i = co_frames st i"
    using n1(2) cf unfolding st1 by (auto simp: ends_def)
  obtain st3 where st3_def: "st3 = co_step ?c st2" by simp
  have st3: "st3 = st2\<lparr>co_frames := (co_frames st2)(?c := Some (?g\<lparr>co_point := Done\<rparr>)), running := {h}\<rparr>"
    unfolding st3_def
    by (subst co_step_return [where f = ?g and pf = ?f and p = h]) (use st2 cf in \<open>simp_all add: at_final_def\<close>)
  obtain st4 where st4_def: "st4 = co_step h st3" by simp
  have st4: "st4 = st2\<lparr>co_frames := (co_frames st2)(?c := None, h := Some (f\<lparr>co_point := At (k r)\<rparr>)), running := {h},
      destroyed := destroyed st2 @ [?c]\<rparr>"
    unfolding st4_def
    by (subst co_step_join [where f = ?f and g = "?g\<lparr>co_point := Done\<rparr>" and u = u and k = k and r = r and c = ?c])
      (use st2 cf in \<open>simp_all add: st3\<close>)
  have solo4: "solo h st4" using st2 h unfolding st4 by (auto simp: solo_def)
  obtain n2 st5 as5 where n2: "\<And>m. drive sx (n2 + m) as' st4 = drive sx m as5 st5" "ends h (f\<lparr>co_point := At (k r)\<rparr>) l' fin st4 st5 as5"
    using c_await.IH(2) [OF _ _ solo4, of "f\<lparr>co_point := At (k r)\<rparr>"] unfolding st4 by auto
  have "drive sx (Suc (n1 + Suc (Suc n2)) + m) as st = drive sx m as5 st5" for m
  proof -
    have "drive sx (Suc (n1 + Suc (Suc n2)) + m) as st = drive sx (n1 + Suc (Suc (n2 + m))) as ?st1"
      using drive_step [OF run] by (simp add: add.assoc)
    also have "\<dots> = drive sx (Suc (Suc (n2 + m))) as' st2" using n1(1) as2 by blast
    also have "\<dots> = drive sx (Suc (n2 + m)) as' st3" unfolding st3_def by (rule drive_step [OF st2(1)])
    also have "\<dots> = drive sx (n2 + m) as' st4" unfolding st4_def by (rule drive_step) (simp add: st3)
    finally show ?thesis using n2(1) by simp
  qed
  moreover have "ends h f (l @ l') fin st st5 as5"
  proof -
    have live: "live_more st st4 0" and tr: "co_trace st4 = co_trace st @ l" and N: "?c \<le> next_frame st4"
      using n1(2) st2(6) unfolding st1 st4 by (auto simp: ends_def live_more_def)
    have F4: "co_frames st4 = (co_frames st)(h := Some (f\<lparr>co_point := At (k r)\<rparr>))"
      using n1(2) cf c_await.prems(3) unfolding st1 st4 by (auto simp: ends_def solo_def)
    have flags: "co_failed st4 = co_failed st" "co_undefined st4 = co_undefined st"
      using n1(2) unfolding st1 st4 by (simp_all add: ends_def)
    have "live_more st st5 d" if "live_more st4 st5 d" for d using that live by (simp add: live_more_def)
    then show ?thesis using n2(2) tr F4 flags N h
      by (auto simp: ends_def split: co_end.splits)
  qed
  ultimately show ?case by blast
next
  case (c_await_null b as l d as' kind k u)
  let ?c = "next_frame st"
  have run: "running st = {h}" and cf: "?c \<notin> running st" "h \<noteq> ?c"
    using c_await_null.prems by (auto simp: solo_def)
  let ?st1 = "co_step h st"
  note st1 = co_step_await [OF c_await_null.prems(1,2) cf(2,1)]
  have solo1: "solo ?c ?st1" using c_await_null.prems(3) unfolding st1 by (auto simp: solo_def)
  obtain n st' as2 where n: "\<And>m. drive sx (n + m) as ?st1 = drive sx m as2 st'" "ends ?c (callee_frame kind b h) l (Cancelled d as') ?st1 st' as2"
    using c_await_null.IH [OF _ _ solo1, of "callee_frame kind b h"] unfolding st1 by (auto simp: callee_frame_def)
  have "drive sx (Suc n + m) as st = drive sx m as2 st'" for m
    using drive_step [OF run, of sx "n + m" as] n(1) [of m] by simp
  moreover have "ends h f l (Cancelled (Suc d) as') st st' as2"
    using n(2) unfolding st1 by (auto simp: ends_def live_more_def)
  ultimately show ?case by blast
next
  case (c_await_block b as l d kind k u)
  let ?c = "next_frame st"
  have run: "running st = {h}" and cf: "?c \<notin> running st" "h \<noteq> ?c"
    using c_await_block.prems by (auto simp: solo_def)
  let ?st1 = "co_step h st"
  note st1 = co_step_await [OF c_await_block.prems(1,2) cf(2,1)]
  have solo1: "solo ?c ?st1" using c_await_block.prems(3) unfolding st1 by (auto simp: solo_def)
  obtain n st' as2 where n: "\<And>m. drive sx (n + m) as ?st1 = drive sx m as2 st'" "ends ?c (callee_frame kind b h) l (Blocked d) ?st1 st' as2"
    using c_await_block.IH [OF _ _ solo1, of "callee_frame kind b h"] unfolding st1 by (auto simp: callee_frame_def)
  have "drive sx (Suc n + m) as st = drive sx m as2 st'" for m
    using drive_step [OF run, of sx "n + m" as] n(1) [of m] by simp
  moreover have "ends h f l (Blocked (Suc d)) st st' as2"
    using n(2) unfolding st1 by (auto simp: ends_def live_more_def)
  ultimately show ?case by blast
qed

section \<open>A coroutine from its start to its end\<close>

text \<open>Driving keeps the invariant, so the frames alive can be counted.\<close>

lemma answered_inv:
  assumes "co_inv st" "waiting st h = Some s"
  shows "co_inv (answered sx h s a st)"
proof -
  have inv: "co_inv (slot_called sx h s (fst a) st)" by (rule moves_keep_inv [OF mv_slot [where sx = sx], OF assms(2,1)])
  show ?thesis
  proof (cases "co_tasks (slot_called sx h s (fst a) st)")
    case Nil
    then show ?thesis using inv by (simp add: answered_def Let_def)
  next
    case (Cons x ts)
    obtain n t where x: "x = (n, t)" by (cases x)
    have "co_inv (task_execute t (take_task 0 (slot_called sx h s (fst a) st)))"
      by (rule moves_keep_inv [OF mv_execute [where n = n and sx = sx] inv]) (simp_all add: Cons x)
    moreover have "co_inv (task_cancel t (take_task 0 (slot_called sx h s (fst a) st)))"
      by (rule moves_keep_inv [OF mv_cancel [where n = n and sx = sx] inv]) (simp_all add: Cons x)
    ultimately show ?thesis using Cons x by (simp add: answered_def Let_def)
  qed
qed

lemma running_finite:
  assumes "co_inv st"
  shows "finite (running st)"
proof -
  have "running st \<subseteq> {..<next_frame st}" using running_frame [OF assms] by blast
  then show ?thesis by (rule finite_subset) simp
qed

lemma drive_inv: "co_inv st \<Longrightarrow> co_inv (fst (drive sx n as st))"
proof (induction sx n as st rule: drive.induct)
  case (2 sx n as st)
  show ?case
  proof (cases "running st = {}")
    case False
    have "Min (running st) \<in> running st" by (rule Min_in [OF running_finite [OF 2(3)] False])
    then show ?thesis using 2(1) [OF False] step_keeps_inv [OF 2(3)] False by simp
  next
    case True
    show ?thesis
    proof (cases "\<exists>a as' h. as = a # as' \<and> List.find (\<lambda>h. waiting st h \<noteq> None) [0..<next_frame st] = Some h")
      case found: True
      then obtain a as' h where a: "as = a # as'" "List.find (\<lambda>h. waiting st h \<noteq> None) [0..<next_frame st] = Some h" by blast
      obtain s where s: "waiting st h = Some s" using a(2) by (auto simp: find_Some_iff)
      have "co_inv (fst (drive sx n as' (answered sx h s a st)))"
        using 2(2) [OF _ refl a(1,2)] answered_inv [OF 2(3) s] True s by simp
      then show ?thesis using True a s by simp
    next
      case False
      then show ?thesis using True 2(3) by (auto split: list.split option.split)
    qed
  qed
qed simp

definition frames_alive :: "('v, 'e, 's, 'a) co_state \<Rightarrow> nat set" where
  "frames_alive st = {h. co_frames st h \<noteq> None}"

lemma frames_alive_card:
  assumes "co_inv st"
  shows "card (frames_alive st) + length (destroyed st) = next_frame st" "finite (frames_alive st)"
proof -
  have ids: "ids_ok (co_frames st) (next_frame st) (destroyed st)" using assms by (simp add: co_inv_def)
  have eq: "frames_alive st = {..<next_frame st} - set (destroyed st)"
    using ids by (auto simp: frames_alive_def ids_ok_def not_le)
  have sub: "set (destroyed st) \<subseteq> {..<next_frame st}" using ids by (auto simp: ids_ok_def)
  have "card (frames_alive st) = next_frame st - length (destroyed st)"
    unfolding eq using sub ids by (subst card_Diff_subset) (simp_all add: ids_ok_def distinct_card)
  moreover have "length (destroyed st) \<le> next_frame st"
    using card_mono [OF _ sub] ids by (simp add: ids_ok_def distinct_card)
  ultimately show "card (frames_alive st) + length (destroyed st) = next_frame st" by simp
  show "finite (frames_alive st)" unfolding eq by simp
qed

text \<open>What is left when a scheduled coroutine has ended, was cancelled or waits.\<close>

definition settled :: "('s, 'a) co_event list \<Rightarrow> ('v, 'e) co_end \<Rightarrow> ('v, 'e, 's, 'a) co_state \<Rightarrow> ('v, 'e) co_answer list \<Rightarrow> bool" where
  "settled l fin st rest \<longleftrightarrow> co_trace st = l \<and> \<not> co_failed st \<and> \<not> co_undefined st \<and> running st = {} \<and> co_tasks st = [] \<and>
     (case fin of
        Ended r as \<Rightarrow> rest = as \<and> waiting st = (\<lambda>_. None) \<and> frames_alive st = {}
      | Cancelled d as \<Rightarrow> rest = as \<and> waiting st = (\<lambda>_. None) \<and> card (frames_alive st) = d
      | Blocked d \<Rightarrow> rest = [] \<and> (\<exists>h s. waiting st = (\<lambda>_. None)(h := Some s)) \<and> card (frames_alive st) = Suc d)"

lemma scheduled_settles:
  fixes b :: "('v, 'e, 's, 'a) co_body"
  assumes "calls sx b as l fin"
  shows "\<exists>n st rest. (\<forall>m. drive sx (n + m) as (coro_schedule Inline_executor b co_init) = (st, rest)) \<and> settled l fin st rest"
proof -
  let ?f = "\<lparr>co_kind = Async_coro, co_point = At b, continuation = Null_handle, co_return_slot = None\<rparr>"
  let ?st = "coro_schedule Inline_executor b (co_init :: ('v, 'e, 's, 'a) co_state)"
  have st: "co_frames ?st = (\<lambda>_. None)(0 := Some ?f)" "running ?st = {0}" "waiting ?st = (\<lambda>_. None)" "co_tasks ?st = []"
      "next_frame ?st = 1" "co_trace ?st = []" "destroyed ?st = []" "\<not> co_failed ?st" "\<not> co_undefined ?st"
    by (simp_all add: co_defs)
  have inv: "co_inv ?st" by (rule schedule_keeps_inv [OF co_inv_init])
  obtain n st' rest where n: "\<And>m. drive sx (n + m) as ?st = drive sx m rest st'" "ends 0 ?f l fin ?st st' rest"
    using calls_run [OF assms, of ?st 0 ?f] st by (auto simp: solo_def)
  have inv': "co_inv st'" using drive_inv [OF inv, of sx n as] n(1) [of 0] by simp
  note card = frames_alive_card [OF inv']
  show ?thesis
  proof (cases fin)
    case (Ended r as')
    let ?g = "?f\<lparr>co_point := Finishing, co_return_slot := Some r\<rparr>"
    have st': "co_frames st' = (\<lambda>_. None)(0 := Some ?g)" "running st' = {0}" "waiting st' = (\<lambda>_. None)" "co_tasks st' = []"
        "co_trace st' = l" "\<not> co_failed st'" "\<not> co_undefined st'" "0 < next_frame st'" "rest = as'"
      using n(2) st unfolding Ended ends_def by auto
    have last: "co_step 0 st' = removed 0 ?g (st'\<lparr>running := running st' - {0}\<rparr>)"
      by (rule co_step_free) (simp_all add: st')
    have "drive sx (Suc n + m) as ?st = (co_step 0 st', rest)" for m
    proof -
      have "drive sx (Suc n + m) as ?st = drive sx (Suc m) rest st'" using n(1) [of "Suc m"] by simp
      also have "\<dots> = drive sx m rest (co_step 0 st')" by (rule drive_step [OF st'(2)])
      also have "\<dots> = (co_step 0 st', rest)" by (rule drive_rest) (simp_all add: last removed_def st')
      finally show ?thesis .
    qed
    moreover have "settled l fin (co_step 0 st') rest"
      using st' by (simp add: settled_def last removed_def Ended frames_alive_def)
    ultimately show ?thesis by blast
  next
    case (Cancelled d as')
    have st': "running st' = {}" "waiting st' = (\<lambda>_. None)" using n(2) unfolding Cancelled ends_def by auto
    have "drive sx (n + m) as ?st = (st', rest)" for m using n(1) drive_rest [OF st'] by simp
    moreover have "settled l fin st' rest"
      using n(2) st card unfolding Cancelled by (auto simp: settled_def ends_def live_more_def)
    ultimately show ?thesis by blast
  next
    case (Blocked d)
    obtain w s where st': "running st' = {}" "waiting st' = (\<lambda>_. None)(w := Some s)" "w < next_frame st'" "rest = []"
      using n(2) unfolding Blocked ends_def by auto
    have "drive sx (n + m) as ?st = (st', rest)" for m
      using n(1) [of m] drive_answer(2) [OF st'(1-3), of sx m] st'(4) by simp
    moreover have "settled l fin st' rest"
      using n(2) st card unfolding Blocked by (auto simp: settled_def ends_def live_more_def)
    ultimately show ?thesis by blast
  qed
qed

text \<open>A coroutine that its owner resumes, and whose result it takes.\<close>

definition coroutine_start :: "('v, 'e, 's, 'a) co_body \<Rightarrow> ('v, 'e, 's, 'a) co_state" where
  "coroutine_start b = (case co_call Plain_coro b co_init of (h, st) \<Rightarrow> co_resume h st)"

lemma resumed_ends:
  fixes b :: "('v, 'e, 's, 'a) co_body"
  assumes "calls sx b as l (Ended r as')"
  shows "\<exists>n st. (\<forall>m. drive sx (n + m) as (coroutine_start b) = (st, as')) \<and> co_trace st = l \<and> running st = {} \<and>
    frames_alive st = {0} \<and> fst (coroutine_result 0 st) = Some r \<and>
    \<not> co_failed (snd (coroutine_result 0 st)) \<and> \<not> co_undefined (snd (coroutine_result 0 st))"
proof -
  let ?f = "\<lparr>co_kind = Plain_coro, co_point = At b, continuation = Null_handle, co_return_slot = None\<rparr>"
  let ?st = "coroutine_start b"
  have st: "co_frames ?st = (\<lambda>_. None)(0 := Some ?f)" "running ?st = {0}" "waiting ?st = (\<lambda>_. None)" "co_tasks ?st = []"
      "next_frame ?st = 1" "co_trace ?st = []" "destroyed ?st = []" "\<not> co_failed ?st" "\<not> co_undefined ?st"
    by (simp_all add: co_defs coroutine_start_def)
  obtain n st' rest where n: "\<And>m. drive sx (n + m) as ?st = drive sx m rest st'" "ends 0 ?f l (Ended r as') ?st st' rest"
    using calls_run [OF assms, of ?st 0 ?f] st by (auto simp: solo_def)
  let ?g = "?f\<lparr>co_point := Finishing, co_return_slot := Some r\<rparr>"
  have st': "co_frames st' = (\<lambda>_. None)(0 := Some ?g)" "running st' = {0}" "waiting st' = (\<lambda>_. None)"
      "co_trace st' = l" "\<not> co_failed st'" "\<not> co_undefined st'" "rest = as'"
    using n(2) st unfolding ends_def by auto
  have last: "co_step 0 st' = st'\<lparr>co_frames := (\<lambda>_. None)(0 := Some (?g\<lparr>co_point := Done\<rparr>)), running := {}\<rparr>"
    using st' by (simp add: co_step_def final_awaiter_suspend_def co_flags)
  have "drive sx (Suc n + m) as ?st = (co_step 0 st', as')" for m
  proof -
    have "drive sx (Suc n + m) as ?st = drive sx (Suc m) rest st'" using n(1) [of "Suc m"] by simp
    also have "\<dots> = drive sx m rest (co_step 0 st')" by (rule drive_step [OF st'(2)])
    also have "\<dots> = (co_step 0 st', as')"
      unfolding st'(7) by (rule drive_rest) (simp_all add: last st')
    finally show ?thesis .
  qed
  moreover have "frames_alive (co_step 0 st') = {0}" by (auto simp: last frames_alive_def)
  moreover have "fst (coroutine_result 0 (co_step 0 st')) = Some r"
    "\<not> co_failed (snd (coroutine_result 0 (co_step 0 st')))" "\<not> co_undefined (snd (coroutine_result 0 (co_step 0 st')))"
    using st' by (simp_all add: last coroutine_result_def co_get_return_def co_done_def at_final_def co_flags)
  ultimately show ?thesis using st' last by (intro exI [of _ "Suc n"] exI [of _ "co_step 0 st'"]) simp
qed

lemma from_bound:
  fixes n :: nat
  assumes "\<And>m. f (n + m) = x" "n \<le> m"
  shows "f m = x"
  using assms(1) [of "m - n"] assms(2) by simp

section \<open>Coroutines as signals\<close>

text \<open>
  \<^verbatim>\<open>coro/as_signal.hpp\<close>. What is emitted is a coroutine that awaits \<open>an_async\<close> and calls the slot with its value
  or its exception; a guard in its frame calls \<open>set_null\<close> if the frame is destroyed before that.
  An action is one of \<open>an_async\<close>, or a call of the slot. The frame of \<open>an_async\<close>, a parameter of the coroutine, is freed
  here when its result has been taken, in the source when the coroutine ends right after the call.
\<close>

type_synonym ('v, 'e, 's, 'a) async_body = "('v, 'e, 's, 'a + ('v, 'e) slot_call) co_body"

definition make_connection_coro :: "'v \<Rightarrow> ('v, 'e, 's, 'a) async_body \<Rightarrow> ('v, 'e, 's, 'a) async_body" where
  "make_connection_coro void an_async =
     Co_await Async_coro an_async
       (\<lambda>r. case r of
          Inr v \<Rightarrow> Co_act (Inr (Set_value v)) (Co_return void)
        | Inl e \<Rightarrow> Co_act (Inr (Set_error e)) (Co_return void))
       [Inr Set_null]"

definition async_connection_emit ::
  "'v \<Rightarrow> ('v, 'e, 's, 'a) async_body \<Rightarrow> ('v, 'e, 's, 'a + ('v, 'e) slot_call) co_update" where
  "async_connection_emit void an_async st = coro_schedule Inline_executor (make_connection_coro void an_async) st"

text \<open>How the connection's coroutine ends, given how \<open>an_async\<close> does.\<close>

primrec connection_end :: "'v \<Rightarrow> ('v, 'e) co_end \<Rightarrow> ('v, 'e) co_end" where
  "connection_end void (Ended r as) = Ended (Inr void) as"
| "connection_end void (Cancelled d as) = Cancelled (Suc d) as"
| "connection_end void (Blocked d) = Blocked (Suc d)"

primrec slot_calls_of :: "('v, 'e) co_end \<Rightarrow> ('v, 'e) slot_call list" where
  "slot_calls_of (Ended r as) = [fulfill_slot (Some r)]"
| "slot_calls_of (Cancelled d as) = []"
| "slot_calls_of (Blocked d) = []"

lemma make_connection_calls:
  assumes "calls sx an_async as l fin"
  shows "calls sx (make_connection_coro void an_async) as (l @ map (\<lambda>c. Did (Inr c)) (slot_calls_of fin)) (connection_end void fin)"
proof (cases fin)
  case (Ended r as')
  have "calls sx (case r of Inr v \<Rightarrow> Co_act (Inr (Set_value v)) (Co_return void)
      | Inl e \<Rightarrow> Co_act (Inr (Set_error e)) (Co_return void)) as' [Did (Inr (fulfill_slot (Some r)))] (Ended (Inr void) as')"
    by (cases r) (auto simp: fulfill_slot_def intro: c_act c_return)
  then show ?thesis using c_await [OF assms [unfolded Ended]] Ended by (simp add: make_connection_coro_def)
next
  case (Cancelled d as')
  then show ?thesis using assms by (auto simp: make_connection_coro_def intro: c_await_null)
next
  case (Blocked d)
  then show ?thesis using assms by (auto simp: make_connection_coro_def intro: c_await_block)
qed

section \<open>Properties\<close>

text \<open>
  C17: Awaiting coroutines is calling them. Whenever the evaluation of a body by calls ends, is
  cancelled or waits for an answer, then the machine with its frames and transfers, given as many rounds as it likes, comes
  to rest in the same way: with the same actions and emitted signals in the same order and the same
  answers used; no assertion fails and nothing is undefined. A scheduled coroutine that ends has
  freed every frame, a blocked one has kept all; one that is cancelled has lost only the frame that
  awaited the signal, those of its callers stay. A \<open>coroutine\<close> that its owner resumes ends with the
  result of the call in its frame, the only one left.
\<close>

theorem coroutine_runs_like_calls:
  assumes "calls sx b as l fin"
  shows "(\<exists>N st rest. (\<forall>n\<ge>N. drive sx n as (coro_schedule Inline_executor b co_init) = (st, rest)) \<and> settled l fin st rest) \<and>
    (\<forall>r as'. fin = Ended r as' \<longrightarrow>
       (\<exists>N st rest. (\<forall>n\<ge>N. drive sx n as (coroutine_start b) = (st, rest)) \<and> rest = as' \<and> co_trace st = l \<and> frames_alive st = {0} \<and>
          fst (coroutine_result 0 st) = Some r \<and>
          \<not> co_failed (snd (coroutine_result 0 st)) \<and> \<not> co_undefined (snd (coroutine_result 0 st))))"
proof -
  have "\<exists>N st rest. (\<forall>n\<ge>N. drive sx n as (coroutine_start b) = (st, rest)) \<and> rest = as' \<and> co_trace st = l \<and> frames_alive st = {0} \<and>
          fst (coroutine_result 0 st) = Some r \<and>
          \<not> co_failed (snd (coroutine_result 0 st)) \<and> \<not> co_undefined (snd (coroutine_result 0 st))"
    if fin: "fin = Ended r as'" for r as'
  proof -
    obtain n st where n: "\<And>m. drive sx (n + m) as (coroutine_start b) = (st, as')" "co_trace st = l" "frames_alive st = {0}"
      "fst (coroutine_result 0 st) = Some r" "\<not> co_failed (snd (coroutine_result 0 st))" "\<not> co_undefined (snd (coroutine_result 0 st))"
      using resumed_ends [of sx b as l r as'] assms fin by blast
    show ?thesis
      by (rule exI [of _ n], rule exI [of _ st], rule exI [of _ as'])
        (use n(2-) from_bound [of "\<lambda>m. drive sx m as (coroutine_start b)", OF n(1)] in simp)
  qed
  moreover obtain n st rest where n: "\<And>m. drive sx (n + m) as (coro_schedule Inline_executor b co_init) = (st, rest)"
      "settled l fin st rest"
    using scheduled_settles [OF assms] by blast
  have "\<forall>m\<ge>n. drive sx m as (coro_schedule Inline_executor b co_init) = (st, rest)"
    using from_bound [of "\<lambda>m. drive sx m as (coro_schedule Inline_executor b co_init)", OF n(1)] by simp
  ultimately show ?thesis using n(2) by blast
qed

lemma nested_calls: "calls (\<lambda>s. Executor 0) nested_body [(Set_value 5, True)] [Emitted 0] (Ended (Inr 2) [])"
proof -
  have "calls (\<lambda>s. Executor 0) (Co_await_signal 0 (\<lambda>r. Co_return 1) [] :: (nat, nat, nat, nat) co_body)
      [(Set_value 5, True)] [Emitted 0] (Ended (Inr 1) [])"
    by (rule c_signal [where r = "Inr 5", OF _ c_return]) (simp add: answer_result_def)
  from c_await [OF this, of "\<lambda>r. Co_return 2" "[]" "Ended (Inr 2) []" Async_coro "[]"] show ?thesis
    by (simp add: nested_body_def c_return)
qed

theorem coroutine_runs_like_calls_witness:
  "\<exists>N st rest. drive (\<lambda>s. Executor 0) N [(Set_value 5, True)] (coro_schedule Inline_executor nested_body co_init) = (st, rest) \<and>
    settled [Emitted 0] (Ended (Inr 2) []) st rest"
proof -
  obtain N st rest where "\<forall>n\<ge>N. drive (\<lambda>s. Executor 0) n [(Set_value 5, True)] (coro_schedule Inline_executor nested_body co_init) = (st, rest)"
      "settled [Emitted 0] (Ended (Inr 2) []) st rest"
    using conjunct1 [OF coroutine_runs_like_calls [OF nested_calls]] by (elim exE conjE)
  then show ?thesis by (intro exI [of _ N] exI [of _ st] exI [of _ rest]) simp
qed

text \<open>
  C28: A coroutine used as a signal answers its slot once, with the value it returns or the exception
  it throws, after everything it does itself; then all frames are free. If instead a signal it awaits
  answers null, or an executor cancels the task that would resume it, the slot is never called, not even with null by the guard, and
  the frame of the connection, with the slot in it, is never freed.
\<close>

theorem async_signal_answers:
  assumes "calls sx an_async as l fin"
  shows "\<exists>N st rest. (\<forall>n\<ge>N. drive sx n as (async_connection_emit void an_async co_init) = (st, rest)) \<and>
    co_trace st = l @ map (\<lambda>c. Did (Inr c)) (slot_calls_of fin) \<and> \<not> co_failed st \<and> \<not> co_undefined st \<and> running st = {} \<and>
    (case fin of
       Ended r as' \<Rightarrow> rest = as' \<and> frames_alive st = {}
     | Cancelled d as' \<Rightarrow> rest = as' \<and> waiting st = (\<lambda>_. None) \<and> co_tasks st = [] \<and> card (frames_alive st) = Suc d
     | Blocked d \<Rightarrow> card (frames_alive st) = Suc (Suc d))"
proof -
  obtain n st rest where n: "\<And>m. drive sx (n + m) as (async_connection_emit void an_async co_init) = (st, rest)"
      "settled (l @ map (\<lambda>c. Did (Inr c)) (slot_calls_of fin)) (connection_end void fin) st rest"
    using scheduled_settles [OF make_connection_calls [OF assms, of void]] unfolding async_connection_emit_def by blast
  have "drive sx m as (async_connection_emit void an_async co_init) = (st, rest)" if "n \<le> m" for m
    using n(1) [of "m - n"] that by simp
  moreover have "co_trace st = l @ map (\<lambda>c. Did (Inr c)) (slot_calls_of fin) \<and> \<not> co_failed st \<and> \<not> co_undefined st \<and> running st = {} \<and>
    (case fin of
       Ended r as' \<Rightarrow> rest = as' \<and> frames_alive st = {}
     | Cancelled d as' \<Rightarrow> rest = as' \<and> waiting st = (\<lambda>_. None) \<and> co_tasks st = [] \<and> card (frames_alive st) = Suc d
     | Blocked d \<Rightarrow> card (frames_alive st) = Suc (Suc d))"
    using n(2) by (cases fin) (simp_all add: settled_def)
  ultimately show ?thesis by blast
qed

theorem async_signal_answers_witness:
  "\<exists>N st rest. drive (\<lambda>s::nat. Inline_executor) N [(Set_null, True)]
      (async_connection_emit (0::nat) (Co_await_signal 0 (\<lambda>r. Co_return (1::nat)) [] :: (nat, nat, nat, nat) async_body) co_init) = (st, rest) \<and>
    co_trace st = [Emitted 0] \<and> card (frames_alive st) = 1"
proof -
  have "calls (\<lambda>s::nat. Inline_executor) (Co_await_signal 0 (\<lambda>r. Co_return (1::nat)) [] :: (nat, nat, nat, nat) async_body)
      [(Set_null, True)] [Emitted 0] (Cancelled 0 [])"
    using c_null [of "\<lambda>s. Inline_executor" "0::nat" "(Set_null, True)" "\<lambda>r. Co_return (1::nat)" "[]" "[]"]
    by (simp add: answer_result_def)
  from async_signal_answers [OF this, of 0] show ?thesis by auto
qed

end
