(* ===== verification/Generator.thy ===== *)
theory Generator
  imports Sl_Prelude
begin

text \<open>
  \<^verbatim>\<open>coro/generator.hpp\<close> and the promise's result of \<^verbatim>\<open>coro/detail.hpp\<close>. The body of a generator is what
  the coroutine does from one suspension to the next: it yields a value and goes on, returns, or
  throws; it may go on for ever. \<open>next\<close> resumes it and takes the value yielded, the iterator of a
  range-based \<open>for\<close> loop does so until none comes, and \<open>result\<close> takes what the body returned or threw.

  A generator's state is its suspended body, \<open>None\<close> at the final suspension, and the two optional
  members of its promise. Resuming a finished coroutine is undefined in C++; the state records that
  it happened, and whether an assertion failed.
\<close>

section \<open>Bodies and promises\<close>

codatatype ('y, 'r, 'e) body = Yields 'y "('y, 'r, 'e) body" | Returns 'r | Throws 'e

record ('y, 'r, 'e) generator =
  frame :: "('y, 'r, 'e) body option"
  maybe_yield :: "'y option"
  maybe_return :: "('e + 'r) option"
  resumed_finished :: bool
  gen_failed :: bool

definition generator_start :: "('y, 'r, 'e) body \<Rightarrow> ('y, 'r, 'e) generator" where
  "generator_start body = \<lparr>frame = Some body, maybe_yield = None, maybe_return = None, resumed_finished = False,
     gen_failed = False\<rparr>"

definition gen_done :: "('y, 'r, 'e) generator \<Rightarrow> bool" where
  "gen_done g \<longleftrightarrow> frame g = None"

definition gen_assert :: "bool \<Rightarrow> ('y, 'r, 'e) generator \<Rightarrow> ('y, 'r, 'e) generator" where
  "gen_assert c g = (if c then g else g\<lparr>gen_failed := True\<rparr>)"

text \<open>\<open>yield_value\<close>, \<open>return_value\<close> and \<open>unhandled_exception\<close> are what a resumed body does to its promise.\<close>

definition yield_value :: "'y \<Rightarrow> ('y, 'r, 'e) generator \<Rightarrow> ('y, 'r, 'e) generator" where
  "yield_value y g = g\<lparr>maybe_yield := Some y\<rparr>"

definition return_value :: "'r \<Rightarrow> ('y, 'r, 'e) generator \<Rightarrow> ('y, 'r, 'e) generator" where
  "return_value r g = g\<lparr>maybe_return := Some (Inr r)\<rparr>"

definition unhandled_exception :: "'e \<Rightarrow> ('y, 'r, 'e) generator \<Rightarrow> ('y, 'r, 'e) generator" where
  "unhandled_exception e g = g\<lparr>maybe_return := Some (Inl e)\<rparr>"

definition handle_resume :: "('y, 'r, 'e) generator \<Rightarrow> ('y, 'r, 'e) generator" where
  "handle_resume g = (case frame g of
     None \<Rightarrow> g\<lparr>resumed_finished := True\<rparr>
   | Some (Yields y body) \<Rightarrow> yield_value y (g\<lparr>frame := Some body\<rparr>)
   | Some (Returns r) \<Rightarrow> return_value r (g\<lparr>frame := None\<rparr>)
   | Some (Throws e) \<Rightarrow> unhandled_exception e (g\<lparr>frame := None\<rparr>))"

definition resume_impl :: "('y, 'r, 'e) generator \<Rightarrow> ('y, 'r, 'e) generator" where
  "resume_impl g =
     (let g = gen_assert (maybe_yield g = None) g; g = handle_resume g
      in gen_assert (maybe_yield g \<noteq> None \<or> gen_done g) g)"

definition get_yield :: "('y, 'r, 'e) generator \<Rightarrow> 'y option \<times> ('y, 'r, 'e) generator" where
  "get_yield g = (maybe_yield g, g\<lparr>maybe_yield := None\<rparr>)"

text \<open>\<open>try_rethrow\<close>: the exception it throws, if it does. An exception is the left value of a sum.\<close>

definition try_rethrow :: "('e + 'r) option \<Rightarrow> 'e option" where
  "try_rethrow r = (case r of Some (Inl e) \<Rightarrow> Some e | _ \<Rightarrow> None)"

definition get_yield_or_throw :: "('y, 'r, 'e) generator \<Rightarrow> ('e + 'y option) \<times> ('y, 'r, 'e) generator" where
  "get_yield_or_throw g = (case try_rethrow (maybe_return g) of
     Some e \<Rightarrow> (Inl e, g)
   | None \<Rightarrow> (case get_yield g of (y, g) \<Rightarrow> (Inr y, g)))"

section \<open>The generator\<close>

definition gen_next :: "('y, 'r, 'e) generator \<Rightarrow> 'y option \<times> ('y, 'r, 'e) generator" where
  "gen_next g = get_yield (resume_impl g)"

definition gen_next_or_throw :: "('y, 'r, 'e) generator \<Rightarrow> ('e + 'y option) \<times> ('y, 'r, 'e) generator" where
  "gen_next_or_throw g = get_yield_or_throw (resume_impl g)"

text \<open>\<open>result\<close>; without a value to take the assertion fails and there is no result.\<close>

definition gen_result :: "('y, 'r, 'e) generator \<Rightarrow> ('e + 'r) option \<times> ('y, 'r, 'e) generator" where
  "gen_result g =
     (let g = gen_assert (gen_done g) g; g = gen_assert (maybe_return g \<noteq> None) g
      in (maybe_return g, g\<lparr>maybe_return := None\<rparr>))"

section \<open>The iterator and the loop\<close>

record 'y gen_iterator =
  maybe_value :: "'y option"
  has_self :: bool

text \<open>\<open>advance\<close>: the exception, if \<open>next_or_throw\<close> throws one, or the iterator.\<close>

definition iterator_advance ::
  "'y gen_iterator \<Rightarrow> ('y, 'r, 'e) generator \<Rightarrow> ('e + 'y gen_iterator) \<times> ('y, 'r, 'e) generator" where
  "iterator_advance it g =
     (let g = gen_assert (has_self it) g in
      case gen_next_or_throw g of
        (Inl e, g) \<Rightarrow> (Inl e, g)
      | (Inr v, g) \<Rightarrow> (Inr (it\<lparr>maybe_value := v, has_self := has_self it \<and> v \<noteq> None\<rparr>), g))"

definition iterator_begin :: "('y, 'r, 'e) generator \<Rightarrow> ('e + 'y gen_iterator) \<times> ('y, 'r, 'e) generator" where
  "iterator_begin g = iterator_advance \<lparr>maybe_value = None, has_self = True\<rparr> g"

text \<open>
  \<open>for (auto& x : generator)\<close>, at most \<open>n\<close> rounds: the values the loop body sees and how the loop
  ends, with the exception, by the end of the range, or not within the rounds.
\<close>

datatype 'e loop_end = Loop_threw 'e | Loop_ended | Loop_goes_on

fun for_rounds ::
  "nat \<Rightarrow> ('e + 'y gen_iterator) \<times> ('y, 'r, 'e) generator \<Rightarrow> 'y list \<times> 'e loop_end \<times> ('y, 'r, 'e) generator" where
  "for_rounds n (Inl e, g) = ([], Loop_threw e, g)"
| "for_rounds 0 (Inr it, g) = ([], if has_self it then Loop_goes_on else Loop_ended, g)"
| "for_rounds (Suc n) (Inr it, g) =
     (if \<not> has_self it then ([], Loop_ended, g)
      else case maybe_value it of
             None \<Rightarrow> ([], Loop_ended, g\<lparr>gen_failed := True\<rparr>)
           | Some v \<Rightarrow> (case for_rounds n (iterator_advance it g) of (vs, rest) \<Rightarrow> (v # vs, rest)))"

definition for_each_yield :: "nat \<Rightarrow> ('y, 'r, 'e) generator \<Rightarrow> 'y list \<times> 'e loop_end \<times> ('y, 'r, 'e) generator" where
  "for_each_yield n g = for_rounds n (iterator_begin g)"

section \<open>What a body does\<close>

text \<open>The first \<open>n\<close> values of a body and, if it ends with them, how: the reference for the loop.\<close>

primrec observe :: "nat \<Rightarrow> ('y, 'r, 'e) body \<Rightarrow> 'y list \<times> ('e + 'r) option" where
  "observe 0 b = ([], case b of Yields _ _ \<Rightarrow> None | Returns r \<Rightarrow> Some (Inr r) | Throws e \<Rightarrow> Some (Inl e))"
| "observe (Suc n) b = (case b of
     Yields y b \<Rightarrow> (y # fst (observe n b), snd (observe n b))
   | Returns r \<Rightarrow> ([], Some (Inr r))
   | Throws e \<Rightarrow> ([], Some (Inl e)))"

definition loop_end_of :: "('e + 'r) option \<Rightarrow> 'e loop_end" where
  "loop_end_of out = (case out of None \<Rightarrow> Loop_goes_on | Some (Inl e) \<Rightarrow> Loop_threw e | Some (Inr _) \<Rightarrow> Loop_ended)"

lemmas gen_defs = generator_start_def gen_done_def gen_assert_def yield_value_def return_value_def unhandled_exception_def
  handle_resume_def resume_impl_def get_yield_def try_rethrow_def get_yield_or_throw_def gen_next_def gen_next_or_throw_def gen_result_def
  iterator_advance_def

lemma advance_start: "has_self it \<Longrightarrow> iterator_advance it (generator_start b) = (case b of
     Yields y b \<Rightarrow> (Inr (it\<lparr>maybe_value := Some y\<rparr>), generator_start b)
   | Returns r \<Rightarrow> (Inr (it\<lparr>maybe_value := None, has_self := False\<rparr>), (generator_start b)\<lparr>frame := None, maybe_return := Some (Inr r)\<rparr>)
   | Throws e \<Rightarrow> (Inl e, (generator_start b)\<lparr>frame := None, maybe_return := Some (Inl e)\<rparr>))"
  by (cases b) (simp_all add: gen_defs Let_def)

text \<open>Where the loop leaves the generator.\<close>

definition left_at :: "('e + 'r) option \<Rightarrow> ('y, 'r, 'e) generator \<Rightarrow> bool" where
  "left_at out g \<longleftrightarrow> \<not> gen_failed g \<and> \<not> resumed_finished g \<and> maybe_yield g = None \<and> maybe_return g = out \<and>
     (frame g = None) = (out \<noteq> None)"

lemma left_at_start [simp]:
  "left_at None (generator_start b)"
  "left_at (Some r) ((generator_start b)\<lparr>frame := None, maybe_return := Some r\<rparr>)"
  by (simp_all add: left_at_def generator_start_def)

lemma for_rounds_start:
  assumes "has_self it"
  shows "\<exists>g. for_rounds n (iterator_advance it (generator_start b)) = (fst (observe n b), loop_end_of (snd (observe n b)), g) \<and>
    left_at (snd (observe n b)) g"
  using assms
proof (induction n arbitrary: b it)
  case 0
  then show ?case by (cases b) (simp_all add: advance_start loop_end_of_def)
next
  case (Suc n)
  show ?case
  proof (cases b)
    case (Yields y c)
    obtain g where "for_rounds n (iterator_advance (it\<lparr>maybe_value := Some y\<rparr>) (generator_start c)) =
        (fst (observe n c), loop_end_of (snd (observe n c)), g)" "left_at (snd (observe n c)) g"
      using Suc.IH [of "it\<lparr>maybe_value := Some y\<rparr>" c] Suc.prems by auto
    then show ?thesis using Yields Suc.prems by (simp add: advance_start)
  qed (use Suc.prems in \<open>simp_all add: advance_start loop_end_of_def\<close>)
qed

section \<open>Properties\<close>

text \<open>
  A loop over a generator sees what its body does. For every body, finite or not, the first rounds
  of the loop show the values the body yields, in order and none else; the loop ends where the body
  returns and throws what the body throws; no assertion fails and no finished coroutine is resumed.
  Afterwards \<open>result\<close> is what the body returned or threw, and fails its assertion exactly while the
  body is not finished; a further \<open>next\<close> resumes a finished coroutine exactly when it is.
\<close>

theorem generator_loop:
  "let (vs, fin, g) = for_each_yield n (generator_start b); (values, out) = observe n b
   in vs = values \<and> fin = loop_end_of out \<and> \<not> gen_failed g \<and> \<not> resumed_finished g \<and>
     fst (gen_result g) = out \<and> gen_failed (snd (gen_result g)) = (out = None) \<and>
     resumed_finished (snd (gen_next g)) = (out \<noteq> None)"
proof -
  obtain g where g: "for_each_yield n (generator_start b) = (fst (observe n b), loop_end_of (snd (observe n b)), g)"
    "left_at (snd (observe n b)) g"
    using for_rounds_start [of "\<lparr>maybe_value = None, has_self = True\<rparr>" n b]
    by (auto simp: for_each_yield_def iterator_begin_def)
  have "fst (gen_result g) = snd (observe n b)" "gen_failed (snd (gen_result g)) = (snd (observe n b) = None)"
    "resumed_finished (snd (gen_next g)) = (snd (observe n b) \<noteq> None)"
    using g(2) by (auto simp: left_at_def gen_defs Let_def split: option.splits body.splits)
  then show ?thesis using g by (simp add: split_beta left_at_def)
qed

end
