(* ===== verification/Async_Generator.thy ===== *)
theory Async_Generator
  imports Coroutine Generator
begin

text \<open>
  \<^verbatim>\<open>coro/async_gen.hpp\<close>: a generator whose next value is awaited. The consumer, a coroutine, transfers
  to the producer and is transferred back to at the next \<open>co_yield\<close> or at the end, whichever coroutine
  awaited last. Bodies are those of \<open>Generator\<close>; what a producer awaits on its own between two of its values is hidden
  from the consumer.
\<close>

section \<open>The producer\<close>

record ('y, 'r, 'e) async_gen =
  ag_body :: "('y, 'r, 'e) body option"
  ag_yield :: "'y option"
  ag_return :: "('e + 'r) option"
  consumer :: co_handle
  ag_undefined :: bool
  ag_failed :: bool

definition async_gen_start :: "('y, 'r, 'e) body \<Rightarrow> ('y, 'r, 'e) async_gen" where
  "async_gen_start body = \<lparr>ag_body = Some body, ag_yield = None, ag_return = None, consumer = Null_handle,
     ag_undefined = False, ag_failed = False\<rparr>"

definition ag_done :: "('y, 'r, 'e) async_gen \<Rightarrow> bool" where
  "ag_done g \<longleftrightarrow> ag_body g = None"

definition ag_assert :: "bool \<Rightarrow> ('y, 'r, 'e) async_gen \<Rightarrow> ('y, 'r, 'e) async_gen" where
  "ag_assert c g = (if c then g else g\<lparr>ag_failed := True\<rparr>)"

text \<open>\<open>yield_value\<close>, and \<open>final_suspend\<close> with the result stored; both suspend in an awaiter that transfers to the consumer.\<close>

definition yield_awaiter_suspend :: "co_handle \<Rightarrow> co_handle" where
  "yield_awaiter_suspend h = h"

definition ag_yield_value :: "'y \<Rightarrow> ('y, 'r, 'e) async_gen \<Rightarrow> co_handle \<times> ('y, 'r, 'e) async_gen" where
  "ag_yield_value y g = (let g = g\<lparr>ag_yield := Some y\<rparr> in (yield_awaiter_suspend (consumer g), g))"

definition ag_final_suspend :: "'e + 'r \<Rightarrow> ('y, 'r, 'e) async_gen \<Rightarrow> co_handle \<times> ('y, 'r, 'e) async_gen" where
  "ag_final_suspend r g =
     (let g = ag_assert (ag_yield g = None) (g\<lparr>ag_body := None, ag_return := Some r\<rparr>) in (yield_awaiter_suspend (consumer g), g))"

text \<open>The producer runs to its next suspension, and which coroutine goes on then.\<close>

definition ag_resume :: "('y, 'r, 'e) async_gen \<Rightarrow> co_handle \<times> ('y, 'r, 'e) async_gen" where
  "ag_resume g = (case ag_body g of
     None \<Rightarrow> (Noop_coroutine, g\<lparr>ag_undefined := True\<rparr>)
   | Some (Yields y body) \<Rightarrow> ag_yield_value y (g\<lparr>ag_body := Some body\<rparr>)
   | Some (Returns r) \<Rightarrow> ag_final_suspend (Inr r) g
   | Some (Throws e) \<Rightarrow> ag_final_suspend (Inl e) g)"

section \<open>The consumer\<close>

definition ag_get_yield :: "('y, 'r, 'e) async_gen \<Rightarrow> 'y option \<times> ('y, 'r, 'e) async_gen" where
  "ag_get_yield g = (ag_yield g, g\<lparr>ag_yield := None\<rparr>)"

definition ag_get_yield_or_throw :: "('y, 'r, 'e) async_gen \<Rightarrow> ('e + 'y option) \<times> ('y, 'r, 'e) async_gen" where
  "ag_get_yield_or_throw g = (case try_rethrow (ag_return g) of
     Some e \<Rightarrow> (Inl e, g)
   | None \<Rightarrow> (case ag_get_yield g of (y, g) \<Rightarrow> (Inr y, g)))"

text \<open>\<open>co_await g\<close> in coroutine \<open>h\<close>: which coroutine is resumed, and with what.\<close>

definition next_suspend :: "nat \<Rightarrow> ('y, 'r, 'e) async_gen \<Rightarrow> ('y, 'r, 'e) async_gen" where
  "next_suspend h g = g\<lparr>consumer := Handle h\<rparr>"

definition ag_next :: "nat \<Rightarrow> ('y, 'r, 'e) async_gen \<Rightarrow> (co_handle \<times> ('e + 'y option)) \<times> ('y, 'r, 'e) async_gen" where
  "ag_next h g =
     (case ag_resume (next_suspend h g) of (h', g) \<Rightarrow>
        (case ag_get_yield_or_throw g of (r, g) \<Rightarrow> ((h', r), g)))"

definition ag_result :: "('y, 'r, 'e) async_gen \<Rightarrow> ('e + 'r) option \<times> ('y, 'r, 'e) async_gen" where
  "ag_result g =
     (let g = ag_assert (ag_done g) g; g = ag_assert (ag_return g \<noteq> None) g
      in (ag_return g, g\<lparr>ag_return := None\<rparr>))"

text \<open>
  \<open>while (auto v = co_await g)\<close>, each round in the coroutine the list says: who was resumed in every
  round, the values, and how the loop ends.
\<close>

fun await_loop :: "nat list \<Rightarrow> ('y, 'r, 'e) async_gen \<Rightarrow> co_handle list \<times> 'y list \<times> 'e loop_end \<times> ('y, 'r, 'e) async_gen" where
  "await_loop [] g = ([], [], Loop_goes_on, g)"
| "await_loop (h # hs) g = (case ag_next h g of
     ((h', Inl e), g) \<Rightarrow> ([h'], [], Loop_threw e, g)
   | ((h', Inr None), g) \<Rightarrow> ([h'], [], Loop_ended, g)
   | ((h', Inr (Some v)), g) \<Rightarrow> (case await_loop hs g of (rs, vs, fin, g) \<Rightarrow> (h' # rs, v # vs, fin, g)))"

section \<open>The loop shows what the body does\<close>

text \<open>
  The first values of a body and how it ends, if it does within that many rounds; a round is needed to see the end.
\<close>

primrec shown :: "nat \<Rightarrow> ('y, 'r, 'e) body \<Rightarrow> 'y list \<times> ('e + 'r) option" where
  "shown 0 b = ([], None)"
| "shown (Suc n) b = (case b of
     Yields y b \<Rightarrow> (y # fst (shown n b), snd (shown n b))
   | Returns r \<Rightarrow> ([], Some (Inr r))
   | Throws e \<Rightarrow> ([], Some (Inl e)))"

lemmas ag_defs = ag_next_def ag_resume_def next_suspend_def ag_yield_value_def yield_awaiter_suspend_def try_rethrow_def ag_final_suspend_def ag_get_yield_or_throw_def
  ag_get_yield_def ag_result_def ag_assert_def ag_done_def async_gen_start_def

definition ag_left :: "('e + 'r) option \<Rightarrow> ('y, 'r, 'e) async_gen \<Rightarrow> bool" where
  "ag_left out g \<longleftrightarrow> \<not> ag_failed g \<and> \<not> ag_undefined g \<and> ag_yield g = None \<and> ag_return g = out \<and> (ag_body g = None) = (out \<noteq> None)"

lemma await_loop_shows:
  assumes "ag_left None g" "ag_body g = Some b"
  shows "\<exists>g'. await_loop hs g = (map Handle (take (length (fst (shown (length hs) b)) + of_bool (snd (shown (length hs) b) \<noteq> None)) hs),
    fst (shown (length hs) b), loop_end_of (snd (shown (length hs) b)), g') \<and> ag_left (snd (shown (length hs) b)) g'"
  using assms
proof (induction hs arbitrary: g b)
  case Nil
  then show ?case by (simp add: loop_end_of_def)
next
  case (Cons h hs)
  show ?case
  proof (cases b)
    case (Yields y c)
    let ?g = "g\<lparr>consumer := Handle h, ag_body := Some c, ag_yield := None\<rparr>"
    have n: "ag_next h g = ((Handle h, Inr (Some y)), ?g)"
      using Cons.prems Yields by (simp add: ag_defs ag_left_def)
    obtain g' where "await_loop hs ?g = (map Handle (take (length (fst (shown (length hs) c)) + of_bool (snd (shown (length hs) c) \<noteq> None)) hs),
        fst (shown (length hs) c), loop_end_of (snd (shown (length hs) c)), g')" "ag_left (snd (shown (length hs) c)) g'"
      using Cons.IH [of ?g c] Cons.prems by (auto simp: ag_left_def)
    then show ?thesis using Yields n by simp
  qed (use Cons.prems in \<open>simp_all add: ag_defs ag_left_def loop_end_of_def\<close>)
qed

text \<open>
  Awaiting an asynchronous generator in a loop shows what its body does. Whatever coroutines do the awaiting,
  round by round: each round resumes the coroutine that awaited, with the next value; the loop ends where the body
  returns and throws what the body throws; no assertion fails and no finished producer is resumed.
  Afterwards \<open>result\<close> is what the body returned or threw, failing its assertion exactly while the body
  is not finished, and one more \<open>co_await\<close> resumes a finished coroutine exactly when it is.
\<close>

theorem async_gen_loop:
  "let (rs, vs, fin, g) = await_loop hs (async_gen_start b); (values, out) = shown (length hs) b
   in rs = map Handle (take (length values + of_bool (out \<noteq> None)) hs) \<and> vs = values \<and> fin = loop_end_of out \<and>
     \<not> ag_failed g \<and> \<not> ag_undefined g \<and> fst (ag_result g) = out \<and> ag_failed (snd (ag_result g)) = (out = None) \<and>
     ag_undefined (snd (ag_next h g)) = (out \<noteq> None)"
proof -
  have start: "ag_left None (async_gen_start b)" "ag_body (async_gen_start b) = Some b"
    by (simp_all add: ag_left_def async_gen_start_def)
  obtain g where g: "await_loop hs (async_gen_start b) =
      (map Handle (take (length (fst (shown (length hs) b)) + of_bool (snd (shown (length hs) b) \<noteq> None)) hs),
       fst (shown (length hs) b), loop_end_of (snd (shown (length hs) b)), g)" "ag_left (snd (shown (length hs) b)) g"
    using await_loop_shows [OF start] by blast
  have "fst (ag_result g) = snd (shown (length hs) b)" "ag_failed (snd (ag_result g)) = (snd (shown (length hs) b) = None)"
    "ag_undefined (snd (ag_next h g)) = (snd (shown (length hs) b) \<noteq> None)"
    using g(2) by (auto simp: ag_left_def ag_defs Let_def split: option.splits body.splits sum.splits)
  then show ?thesis using g by (simp add: split_beta ag_left_def)
qed

text \<open>
  C30: Loops over generators show what their bodies do. For every body, finite or not, a range-based \<open>for\<close> over
  a generator, and a \<open>while\<close> that awaits an asynchronous one, in whatever coroutines round by round, see the
  values the body yields, in order and none else, end where it returns and throw what it throws; no
  assertion fails and no finished coroutine is resumed. The awaiting coroutine of each round is the one
  resumed. Afterwards \<open>result\<close> is what the body returned or threw, and fails its assertion exactly while the body
  is not finished; going on resumes a finished coroutine exactly when it is.
\<close>

theorem generator_loops:
  "(let (vs, fin, g) = for_each_yield n (generator_start b); (values, out) = observe n b
   in vs = values \<and> fin = loop_end_of out \<and> \<not> gen_failed g \<and> \<not> resumed_finished g \<and>
     fst (gen_result g) = out \<and> gen_failed (snd (gen_result g)) = (out = None) \<and>
     resumed_finished (snd (gen_next g)) = (out \<noteq> None)) \<and>
   (let (rs, vs, fin, g) = await_loop hs (async_gen_start b); (values, out) = shown (length hs) b
   in rs = map Handle (take (length values + of_bool (out \<noteq> None)) hs) \<and> vs = values \<and> fin = loop_end_of out \<and>
     \<not> ag_failed g \<and> \<not> ag_undefined g \<and> fst (ag_result g) = out \<and> ag_failed (snd (ag_result g)) = (out = None) \<and>
     ag_undefined (snd (ag_next h g)) = (out \<noteq> None))"
  by (rule conjI [OF generator_loop async_gen_loop])

end
