(* ===== verification/Sim_Stack.thy ===== *)
theory Sim_Stack
  imports Sl_Prelude
begin

text \<open>
  Stacks for stackful coroutines: \<^verbatim>\<open>sim/platform.hpp\<close>, \<^verbatim>\<open>sim/stack.hpp\<close> and the two implementations
  \<^verbatim>\<open>src/sim/stack/mmap.cpp\<close>, with a protected page below the stack, and \<^verbatim>\<open>src/sim/stack/malloc.cpp\<close>. Sizes and
  addresses are 64-bit words. The system calls are a record of operations on the state of the operating
  system, an argument of every definition; what they are documented to do is \<open>os_laws\<close>, over the sets of bytes
  that are mapped and that can be accessed.
\<close>

section \<open>System calls\<close>

record 'o os =
  os_sysconf_page :: "'o \<Rightarrow> int"
  os_mmap :: "u64 \<Rightarrow> 'o \<Rightarrow> u64 option \<times> 'o"
  os_mprotect_none :: "u64 \<Rightarrow> u64 \<Rightarrow> 'o \<Rightarrow> bool \<times> 'o"
  os_munmap :: "u64 \<Rightarrow> u64 \<Rightarrow> 'o \<Rightarrow> bool \<times> 'o"
  os_malloc :: "u64 \<Rightarrow> 'o \<Rightarrow> u64 option \<times> 'o"
  os_free :: "u64 \<Rightarrow> 'o \<Rightarrow> 'o"
  os_errno :: "'o \<Rightarrow> nat"
  os_mapped :: "'o \<Rightarrow> nat set"
  os_accessible :: "'o \<Rightarrow> nat set"

text \<open>\<open>None\<close> is \<open>MAP_FAILED\<close>, and the null pointer of \<open>malloc\<close>; a Boolean says whether the call succeeded.\<close>

definition bytes :: "u64 \<Rightarrow> u64 \<Rightarrow> nat set" where
  "bytes a n = {unat a..<unat a + unat n}"

definition os_laws :: "('o, 'z) os_scheme \<Rightarrow> bool" where
  "os_laws S \<longleftrightarrow>
     (\<forall>w. os_accessible S w \<subseteq> os_mapped S w) \<and>
     (\<forall>n w a w'. os_mmap S n w = (Some a, w') \<longrightarrow> bytes a n \<inter> os_mapped S w = {} \<and> 0 < n \<and> unat a + unat n \<le> 2 ^ 64 \<and>
        os_mapped S w' = os_mapped S w \<union> bytes a n \<and> os_accessible S w' = os_accessible S w \<union> bytes a n) \<and>
     (\<forall>n w w'. os_mmap S n w = (None, w') \<longrightarrow> os_mapped S w' = os_mapped S w \<and> os_accessible S w' = os_accessible S w) \<and>
     (\<forall>a n w w' c. os_mprotect_none S a n w = (c, w') \<longrightarrow> os_mapped S w' = os_mapped S w \<and>
        os_accessible S w' = os_accessible S w - (if c then bytes a n else {})) \<and>
     (\<forall>a n w w' c. os_munmap S a n w = (c, w') \<longrightarrow> os_mapped S w' = os_mapped S w - (if c then bytes a n else {}) \<and>
        os_accessible S w' = os_accessible S w - (if c then bytes a n else {}))"

section \<open>Platform and stacks\<close>

datatype error_code = Invalid_argument | Not_enough_memory | Errno nat

record platform =
  page_size :: u64

definition platform_make :: "('o, 'z) os_scheme \<Rightarrow> 'o \<Rightarrow> error_code + platform" where
  "platform_make S w =
     (let page_size_result = os_sysconf_page S w
      in if page_size_result < 0 then Inl (Errno (os_errno S w)) else Inr \<lparr>page_size = of_int page_size_result\<rparr>)"

record span =
  span_data :: u64
  span_size :: u64

definition empty_span :: span where
  "empty_span = \<lparr>span_data = 0, span_size = 0\<rparr>"

record stack =
  stack_mem :: span
  prot_offset :: u64

definition user_page :: "stack \<Rightarrow> span" where
  "user_page s = \<lparr>span_data = span_data (stack_mem s) + prot_offset s, span_size = span_size (stack_mem s) - prot_offset s\<rparr>"

definition unsafe_prot_page :: "stack \<Rightarrow> span" where
  "unsafe_prot_page s = \<lparr>span_data = span_data (stack_mem s), span_size = prot_offset s\<rparr>"

text \<open>The move constructor, as the new stack and what is left of the old; the destructor's assertion.\<close>

definition move_stack :: "stack \<Rightarrow> stack \<times> stack" where
  "move_stack other = (other, \<lparr>stack_mem = empty_span, prot_offset = 0\<rparr>)"

definition stack_dtor_assert :: "stack \<Rightarrow> bool" where
  "stack_dtor_assert s \<longleftrightarrow> span_size (stack_mem s) = 0"

datatype allocated = Allocated stack | Allocate_error error_code | Panicked | Stack_assertion_failed

text \<open>The constructor asserts that there is memory.\<close>

definition make_stack :: "span \<Rightarrow> u64 \<Rightarrow> allocated" where
  "make_stack mem prot =
     (if span_size mem = 0 then Stack_assertion_failed else Allocated \<lparr>stack_mem = mem, prot_offset = prot\<rparr>)"

definition ceil_div :: "u64 \<Rightarrow> u64 \<Rightarrow> u64" where
  "ceil_div v divisor = (v + divisor - 1) div divisor"

section \<open>mmap\<close>

text \<open>The error, if any, the stack afterwards, and the system.\<close>

definition mmap_deallocate :: "('o, 'z) os_scheme \<Rightarrow> stack \<Rightarrow> 'o \<Rightarrow> error_code option \<times> stack \<times> 'o" where
  "mmap_deallocate S s w =
     (let mem = stack_mem s; s = s\<lparr>stack_mem := empty_span\<rparr>
      in if span_size mem = 0 then (Some Invalid_argument, s, w)
         else case os_munmap S (span_data mem) (span_size mem) w of
             (True, w) \<Rightarrow> (None, s, w)
           | (False, w) \<Rightarrow> (Some (Errno (os_errno S w)), s, w))"

definition mmap_allocate :: "('o, 'z) os_scheme \<Rightarrow> platform \<Rightarrow> u64 \<Rightarrow> 'o \<Rightarrow> allocated \<times> 'o" where
  "mmap_allocate S plat at_least_bytes w =
     (if at_least_bytes = 0 then (Allocate_error Invalid_argument, w)
      else
        let user_pages = ceil_div at_least_bytes (page_size plat);
            prot_pages = 1;
            size_bytes = (user_pages + prot_pages) * page_size plat;
            prot = prot_pages * page_size plat
        in case os_mmap S size_bytes w of
             (None, w) \<Rightarrow> (Allocate_error (Errno (os_errno S w)), w)
           | (Some a, w) \<Rightarrow>
               (case make_stack \<lparr>span_data = a, span_size = size_bytes\<rparr> prot of
                  Allocated a_stack \<Rightarrow>
                    (case os_mprotect_none S a prot w of
                       (True, w) \<Rightarrow> (Allocated a_stack, w)
                     | (False, w) \<Rightarrow>
                         (case mmap_deallocate S a_stack w of
                            (Some e, s, w) \<Rightarrow> (Panicked, w)
                          | (None, s, w) \<Rightarrow> (Allocate_error (Errno (os_errno S w)), w)))
                | r \<Rightarrow> (r, w)))"

section \<open>malloc\<close>

definition malloc_allocate :: "('o, 'z) os_scheme \<Rightarrow> platform \<Rightarrow> u64 \<Rightarrow> 'o \<Rightarrow> allocated \<times> 'o" where
  "malloc_allocate S plat at_least_bytes w =
     (if at_least_bytes = 0 then (Allocate_error Invalid_argument, w)
      else
        let size_bytes = ceil_div at_least_bytes (page_size plat) * page_size plat
        in case os_malloc S size_bytes w of
             (None, w) \<Rightarrow> (Allocate_error Not_enough_memory, w)
           | (Some a, w) \<Rightarrow> (make_stack \<lparr>span_data = a, span_size = size_bytes\<rparr> 0, w))"

definition malloc_deallocate :: "('o, 'z) os_scheme \<Rightarrow> stack \<Rightarrow> 'o \<Rightarrow> error_code option \<times> stack \<times> 'o" where
  "malloc_deallocate S s w =
     (let mem = stack_mem s; s = s\<lparr>stack_mem := empty_span\<rparr>
      in if span_size mem = 0 then (Some Invalid_argument, s, w)
         else (None, s, os_free S (span_data mem) w))"

section \<open>Sizes\<close>

lemma unat_u64: "n < 2 ^ 64 \<Longrightarrow> unat (word_of_nat n :: u64) = n" "unat (w :: u64) < 2 ^ 64"
  using unsigned_less [of w] by (simp_all add: unat_of_nat take_bit_nat_eq_self)

lemma unat_ceil_div:
  assumes "0 < v" "0 < p" "unat v + unat p \<le> 2 ^ 64"
  shows "unat (ceil_div v p) = (unat v + unat p - 1) div unat p"
proof -
  have "unat (v + p - 1) = unat v + unat p - 1"
  proof -
    have "0 < unat v" using assms(1) by (simp add: word_less_nat_alt)
    then have "v + p - 1 = word_of_nat (unat v + unat p - 1)"
      by (simp add: of_nat_diff)
    moreover have "unat (word_of_nat (unat v + unat p - 1) :: u64) = unat v + unat p - 1"
      using assms(3) \<open>0 < unat v\<close> by (intro unat_u64(1)) simp
    ultimately show ?thesis by (simp only:)
  qed
  then show ?thesis by (simp add: ceil_div_def unat_div_distrib)
qed

lemma ceil_div_wraps:
  assumes "2 ^ 64 < unat v + unat p"
  shows "ceil_div v p = 0"
proof -
  have lt: "unat v < 2 ^ 64" "unat p < 2 ^ 64" by (rule unat_u64(2))+
  have "v + p - 1 = word_of_nat (unat v + unat p - 1)" using assms lt by (simp add: of_nat_diff)
  also have "\<dots> = word_of_nat (unat v + unat p - 1 - 2 ^ 64)" using assms by (simp add: of_nat_diff)
  finally have e: "v + p - 1 = word_of_nat (unat v + unat p - 1 - 2 ^ 64)" .
  have "unat v + unat p - 1 - 2 ^ 64 < 2 ^ 64" using assms lt by linarith
  then have "unat (v + p - 1) = unat v + unat p - 1 - 2 ^ 64" unfolding e by (rule unat_u64(1))
  then have "unat (v + p - 1) < unat p" using assms lt by simp
  then have "unat (ceil_div v p) = 0" by (simp add: ceil_div_def unat_div_distrib)
  then show ?thesis by (simp only: unat_eq_zero)
qed

lemma ceil_bounds:
  assumes "0 < (v :: nat)" "0 < p"
  shows "v \<le> (v + p - 1) div p * p" "(v + p - 1) div p * p < v + p"
proof -
  have "(v + p - 1) div p * p + (v + p - 1) mod p = v + p - 1" by simp
  moreover have "(v + p - 1) mod p < p" using assms(2) by simp
  ultimately show "v \<le> (v + p - 1) div p * p" "(v + p - 1) div p * p < v + p" using assms by linarith+
qed

text \<open>The size of the mapping, and its parts.\<close>

lemma mapping_size:
  assumes "0 < v" "0 < p" "unat v + 2 * unat p \<le> 2 ^ 64"
  shows "unat ((ceil_div v p + 1) * p) = (unat v + unat p - 1) div unat p * unat p + unat p"
    "unat (ceil_div v p * p) = (unat v + unat p - 1) div unat p * unat p"
proof -
  have u: "unat (ceil_div v p) = (unat v + unat p - 1) div unat p" using assms by (intro unat_ceil_div) simp_all
  have pos: "0 < unat v" "0 < unat p" using assms by (simp_all add: word_less_nat_alt)
  let ?q = "(unat v + unat p - 1) div unat p"
  have b: "?q * unat p + unat p < 2 ^ 64" using ceil_bounds(2) [OF pos] assms(3) by linarith
  have "ceil_div v p = word_of_nat ?q" unfolding u [symmetric] by simp
  then have eq: "(ceil_div v p + 1) * p = word_of_nat (?q * unat p + unat p)" "ceil_div v p * p = word_of_nat (?q * unat p)"
    by (simp_all add: algebra_simps)
  show "unat ((ceil_div v p + 1) * p) = ?q * unat p + unat p"
    unfolding eq using b by (intro unat_u64(1)) simp
  show "unat (ceil_div v p * p) = ?q * unat p"
    unfolding eq using b by (intro unat_u64(1)) simp
qed

section \<open>A system for examples\<close>

text \<open>
  One mapping at a time, at byte 4096; the state is what is mapped and what is accessible. \<open>malloc\<close> takes
  any size. Protecting fails if the flag is set.
\<close>

definition toy_os :: "bool \<Rightarrow> (nat set \<times> nat set) os" where
  "toy_os fails = \<lparr>
     os_sysconf_page = (\<lambda>_. 4096),
     os_mmap = (\<lambda>n w. if n = 0 \<or> fst w \<noteq> {} \<or> 2 ^ 64 < 4096 + unat n then (None, w) else (Some 4096, bytes 4096 n, bytes 4096 n)),
     os_mprotect_none = (\<lambda>a n w. if fails then (False, w) else (True, fst w, snd w - bytes a n)),
     os_munmap = (\<lambda>a n w. (True, fst w - bytes a n, snd w - bytes a n)),
     os_malloc = (\<lambda>n w. (Some 4096, w)), os_free = (\<lambda>a w. w), os_errno = (\<lambda>_. 12),
     os_mapped = fst, os_accessible = (\<lambda>w. snd w \<inter> fst w)\<rparr>"

lemma toy_os_laws: "os_laws (toy_os fails)"
  by (auto simp: os_laws_def toy_os_def word_gt_0 split: if_splits)

section \<open>Properties\<close>

lemma os_lawsD:
  assumes "os_laws S"
  shows "os_accessible S w \<subseteq> os_mapped S w"
    and "os_mmap S n w = (Some a, w') \<Longrightarrow> bytes a n \<inter> os_mapped S w = {} \<and> 0 < n \<and> unat a + unat n \<le> 2 ^ 64 \<and>
        os_mapped S w' = os_mapped S w \<union> bytes a n \<and> os_accessible S w' = os_accessible S w \<union> bytes a n"
    and "os_mmap S n w = (None, w') \<Longrightarrow> os_mapped S w' = os_mapped S w \<and> os_accessible S w' = os_accessible S w"
    and "os_mprotect_none S a n w = (c, w') \<Longrightarrow> os_mapped S w' = os_mapped S w \<and>
        os_accessible S w' = os_accessible S w - (if c then bytes a n else {})"
    and "os_munmap S a n w = (c, w') \<Longrightarrow> os_mapped S w' = os_mapped S w - (if c then bytes a n else {}) \<and>
        os_accessible S w' = os_accessible S w - (if c then bytes a n else {})"
  using assms unfolding os_laws_def by - (elim conjE; metis)+

definition span_bytes :: "span \<Rightarrow> nat set" where
  "span_bytes sp = bytes (span_data sp) (span_size sp)"

text \<open>A mapping of \<open>n\<close> bytes splits into the protected page and the rest.\<close>

lemma split_pages:
  assumes "unat a + unat n \<le> 2 ^ 64" "unat p < unat n"
  shows "unat (a + p) = unat a + unat p" "unat (n - p) = unat n - unat p"
    "bytes a n = bytes a p \<union> bytes (a + p) (n - p)" "bytes a p \<inter> bytes (a + p) (n - p) = {}"
proof -
  have lt: "unat a + unat p < 2 ^ 64" using assms by linarith
  show d: "unat (a + p) = unat a + unat p" using unat_u64(1) [OF lt] by simp
  show n: "unat (n - p) = unat n - unat p" using assms(2) by (simp add: unat_sub_if_size)
  show "bytes a n = bytes a p \<union> bytes (a + p) (n - p)" "bytes a p \<inter> bytes (a + p) (n - p) = {}"
    using assms(2) by (auto simp: bytes_def d n)
qed

text \<open>
  C33: Stacks from \<open>mmap\<close>. For every request that does not come near the end of the address space: on
  success, the pages for the user hold what was asked for, rounded up to whole pages and no more, can be accessed, and lie
  directly above one page that is mapped but cannot be accessed; all of it was unmapped before.
  Otherwise, nothing has changed of what is mapped or accessible, and the error is that of the
  argument exactly when nothing was asked for; unless a failed protection cannot be undone, which
  panics. The assertion that there is memory holds. Deallocation gives back all pages or leaves
  all as it is, and a second one is refused.
\<close>

theorem mmap_stack_allocation:
  assumes "os_laws S" "0 < p" "unat v + 2 * unat p \<le> 2 ^ 64"
  shows "case mmap_allocate S \<lparr>page_size = p\<rparr> v w of
      (Allocated s, w') \<Rightarrow>
        (let user = user_page s; guard = unsafe_prot_page s
         in v \<noteq> 0 \<and> unat v \<le> unat (span_size user) \<and> unat (span_size user) < unat v + unat p \<and> unat p dvd unat (span_size user) \<and>
            span_size guard = p \<and> unat (span_data user) = unat (span_data guard) + unat p \<and>
            (span_bytes user \<union> span_bytes guard) \<inter> os_mapped S w = {} \<and> os_mapped S w' = os_mapped S w \<union> span_bytes user \<union> span_bytes guard \<and>
            os_accessible S w' = os_accessible S w \<union> span_bytes user \<and> span_bytes user \<inter> span_bytes guard = {} \<and>
            (\<forall>w1. case mmap_deallocate S s w1 of (e, s', w2) \<Rightarrow>
               os_mapped S w2 = os_mapped S w1 - (if e = None then span_bytes user \<union> span_bytes guard else {}) \<and>
               mmap_deallocate S s' w2 = (Some Invalid_argument, s', w2) \<and> stack_dtor_assert s'))
    | (Allocate_error e, w') \<Rightarrow>
        os_mapped S w' = os_mapped S w \<and> os_accessible S w' = os_accessible S w \<and> (e = Invalid_argument) = (v = 0)
    | (Panicked, w') \<Rightarrow> \<exists>a n w1. os_munmap S a n w1 = (False, w')
    | (Stack_assertion_failed, w') \<Rightarrow> False"
proof (cases "v = 0")
  case False
  then have v: "0 < v" by (simp add: word_gt_0)
  let ?n = "(ceil_div v p + 1) * p"
  have pos: "0 < unat v" "0 < unat p" using v assms(2) by (simp_all add: word_less_nat_alt)
  obtain q where size: "unat ?n = q * unat p + unat p" "unat v \<le> q * unat p" "q * unat p < unat v + unat p"
    using mapping_size(1) [OF v assms(2,3)] ceil_bounds [OF pos] by blast
  have less: "unat p < unat ?n" using size(1,2) pos by linarith
  then have "?n \<noteq> 0" by (metis not_less0 unat_0)
  note n = less this
  note laws = os_lawsD [OF assms(1)]
  show ?thesis
  proof (cases "os_mmap S ?n w")
    case (Pair r w1)
    show ?thesis
    proof (cases r)
      case None
      then show ?thesis using laws(3) [of ?n w w1] Pair v by (simp add: mmap_allocate_def)
    next
      case (Some a)
      note m = laws(2) [of ?n w a w1, unfolded Pair Some, OF refl]
      note sp = split_pages [of a ?n p, OF _ n(1)]
      let ?s = "\<lparr>stack_mem = \<lparr>span_data = a, span_size = ?n\<rparr>, prot_offset = p\<rparr>"
      have u: "unat (?n - p) = q * unat p" "unat (a + p) = unat a + unat p" using sp m size(1) by simp_all
      have parts: "span_bytes (user_page ?s) \<union> span_bytes (unsafe_prot_page ?s) = bytes a ?n"
        "span_bytes (user_page ?s) \<inter> span_bytes (unsafe_prot_page ?s) = {}"
        using sp m by (auto simp: span_bytes_def user_page_def unsafe_prot_page_def)
      obtain c w2 where mp: "os_mprotect_none S a p w1 = (c, w2)" by (cases "os_mprotect_none S a p w1")
      note q = laws(4) [OF mp]
      show ?thesis
      proof (cases c)
        case True
        have r: "mmap_allocate S \<lparr>page_size = p\<rparr> v w = (Allocated ?s, w2)"
          using False Pair Some mp True n(2) by (simp add: mmap_allocate_def make_stack_def)
        have acc: "os_accessible S w2 = os_accessible S w \<union> span_bytes (user_page ?s)"
        proof -
          have "os_accessible S w \<inter> bytes a p = {}" "bytes a p = span_bytes (unsafe_prot_page ?s)"
            using laws(1) [of w] m parts(1) by (auto simp: span_bytes_def unsafe_prot_page_def)
          then show ?thesis using q m True parts by auto
        qed
        have de: "\<forall>w1. case mmap_deallocate S ?s w1 of (e, s', w2) \<Rightarrow>
               os_mapped S w2 = os_mapped S w1 - (if e = None then span_bytes (user_page ?s) \<union> span_bytes (unsafe_prot_page ?s) else {}) \<and>
               mmap_deallocate S s' w2 = (Some Invalid_argument, s', w2) \<and> stack_dtor_assert s'"
          unfolding parts(1) using laws(5) [of a ?n] n(2)
          by (auto simp: mmap_deallocate_def Let_def empty_span_def stack_dtor_assert_def split: prod.splits bool.splits)
        have map: "os_mapped S w2 = os_mapped S w \<union> span_bytes (user_page ?s) \<union> span_bytes (unsafe_prot_page ?s)"
          "(span_bytes (user_page ?s) \<union> span_bytes (unsafe_prot_page ?s)) \<inter> os_mapped S w = {}"
          using m q parts(1) by (simp_all add: Un_assoc)
        have sizes: "unat v \<le> unat (span_size (user_page ?s))" "unat (span_size (user_page ?s)) < unat v + unat p"
          "unat p dvd unat (span_size (user_page ?s))" "span_size (unsafe_prot_page ?s) = p"
          "unat (span_data (user_page ?s)) = unat (span_data (unsafe_prot_page ?s)) + unat p"
          using u size by (simp_all add: user_page_def unsafe_prot_page_def)
        show ?thesis unfolding r Let_def prod.case allocated.case
          by (intro conjI sizes map acc parts(2) de) (use v in simp)
      next
        case False
        obtain d w3 where mu: "os_munmap S a ?n w2 = (d, w3)" by (cases "os_munmap S a ?n w2")
        show ?thesis
          using laws(5) [OF mu] laws(1) [of w] m q mu mp Pair Some n(2) v False
          by (cases d) (auto simp: mmap_allocate_def make_stack_def mmap_deallocate_def intro: exI [of _ a])
      qed
    qed
  qed
qed (simp add: mmap_allocate_def)

theorem mmap_stack_allocation_witness:
  "(case mmap_allocate (toy_os False) \<lparr>page_size = 4096\<rparr> 5000 ({}, {}) of
      (Allocated s, w') \<Rightarrow> 5000 \<le> unat (span_size (user_page s)) \<and> span_bytes (user_page s) \<subseteq> os_accessible (toy_os False) w'
    | _ \<Rightarrow> False) \<and>
   fst (mmap_allocate (toy_os True) \<lparr>page_size = 4096\<rparr> 5000 ({}, {})) = Allocate_error (Errno 12)"
proof -
  have "mmap_allocate (toy_os False) \<lparr>page_size = 4096\<rparr> 5000 ({}, {}) =
      (Allocated \<lparr>stack_mem = \<lparr>span_data = 4096, span_size = 12288\<rparr>, prot_offset = 4096\<rparr>, bytes 4096 12288, bytes 4096 12288 - bytes 4096 4096)"
    by (simp add: mmap_allocate_def toy_os_def ceil_div_def make_stack_def)
  moreover have "fst (mmap_allocate (toy_os True) \<lparr>page_size = 4096\<rparr> 5000 ({}, {})) = Allocate_error (Errno 12)"
    by (simp add: mmap_allocate_def toy_os_def ceil_div_def make_stack_def mmap_deallocate_def)
  ultimately show ?thesis
    using mmap_stack_allocation [OF toy_os_laws [of False], of 4096 5000 "({}, {})"] by (auto simp: Let_def)
qed

text \<open>
  Requests close to the end of the address space wrap around. The number of pages is then zero: \<open>mmap\<close> is
  asked for the protected page only, and the stack, handed out without an error, has no byte for its user;
  \<open>malloc\<close> is asked for no byte, and where it returns a pointer the assertion that there is memory fails.
\<close>

theorem stack_size_wraps:
  assumes "0 < p" "2 ^ 64 < unat v + unat p"
  shows "(\<forall>s w'. mmap_allocate S \<lparr>page_size = p\<rparr> v w = (Allocated s, w') \<longrightarrow> span_size (user_page s) = 0) \<and>
    (\<forall>a w1 w2. os_mmap S p w = (Some a, w1) \<longrightarrow> os_mprotect_none S a p w1 = (True, w2) \<longrightarrow>
       mmap_allocate S \<lparr>page_size = p\<rparr> v w = (Allocated \<lparr>stack_mem = \<lparr>span_data = a, span_size = p\<rparr>, prot_offset = p\<rparr>, w2)) \<and>
    (\<forall>a w1. os_malloc S 0 w = (Some a, w1) \<longrightarrow> fst (malloc_allocate S \<lparr>page_size = p\<rparr> v w) = Stack_assertion_failed)"
proof -
  have v: "v \<noteq> 0" using assms(2) unat_u64(2) [of p] by auto
  show ?thesis using v assms(1)
    by (auto simp: mmap_allocate_def malloc_allocate_def ceil_div_wraps [OF assms(2)] make_stack_def user_page_def
        split: option.splits prod.splits bool.splits if_splits)
qed

theorem stack_size_wraps_witness:
  "fst (mmap_allocate (toy_os False) \<lparr>page_size = 4096\<rparr> (- 1) ({}, {})) =
     Allocated \<lparr>stack_mem = \<lparr>span_data = 4096, span_size = 4096\<rparr>, prot_offset = 4096\<rparr> \<and>
   fst (malloc_allocate (toy_os False) \<lparr>page_size = 4096\<rparr> (- 1) ({}, {})) = Stack_assertion_failed"
proof -
  have "2 ^ 64 < unat (- 1 :: u64) + unat (4096 :: u64)"
    by (simp add: unsigned_minus_1_eq_mask mask_eq_exp_minus_1)
  from stack_size_wraps [OF _ this, of "toy_os False" "({}, {})"] show ?thesis by (simp add: toy_os_def)
qed

end
