(* ===== verification/Sim_Context.thy ===== *)
theory Sim_Context
  imports Sim_Stack
begin

unbundle bit_operations_syntax

text \<open>
  Switching between stackful coroutines: \<^verbatim>\<open>sim/machine/context.hpp\<close>, \<^verbatim>\<open>src/sim/machine/context.cpp\<close> and the assembler
  routines of \<^verbatim>\<open>src/sim/machine/context_impl_x86_64.S\<close>, as programs of the few instructions they use.
  The memory is one of 64-bit words at addresses divisible by 8; an access elsewhere is recorded. Of the
  instruction pointer only what \<open>retq\<close> makes of it is kept, since the routines have no jumps.
\<close>

section \<open>The machine\<close>

datatype reg = RAX | RBX | RDX | RSI | RDI | RBP | RSP | R11 | R12 | R13 | R14 | R15

datatype instr =
  Mov reg reg
| Store reg u64 reg
| Load u64 reg reg
| Sub_imm u64 reg
| And_imm u64 reg
| Add_imm u64 reg
| Push reg
| Push_imm u64
| Pop reg
| Ret

record cpu =
  regs :: "reg \<Rightarrow> u64"
  memory :: "u64 \<Rightarrow> u64"
  rip :: u64
  misaligned :: bool

definition set_reg :: "reg \<Rightarrow> u64 \<Rightarrow> cpu \<Rightarrow> cpu" where
  "set_reg r v m = m\<lparr>regs := (regs m)(r := v)\<rparr>"

definition write_quad :: "u64 \<Rightarrow> u64 \<Rightarrow> cpu \<Rightarrow> cpu" where
  "write_quad a v m = m\<lparr>memory := (memory m)(a := v), misaligned := misaligned m \<or> a AND 7 \<noteq> 0\<rparr>"

definition read_quad :: "u64 \<Rightarrow> cpu \<Rightarrow> u64 \<times> cpu" where
  "read_quad a m = (memory m a, m\<lparr>misaligned := misaligned m \<or> a AND 7 \<noteq> 0\<rparr>)"

definition push :: "u64 \<Rightarrow> cpu \<Rightarrow> cpu" where
  "push v m = (let a = regs m RSP - 8 in write_quad a v (set_reg RSP a m))"

definition pop :: "cpu \<Rightarrow> u64 \<times> cpu" where
  "pop m = (case read_quad (regs m RSP) m of (v, m) \<Rightarrow> (v, set_reg RSP (regs m RSP + 8) m))"

text \<open>Operands as in the source: what is read comes first, what is written last.\<close>

primrec exec_instr :: "instr \<Rightarrow> cpu \<Rightarrow> cpu" where
  "exec_instr (Mov src dst) m = set_reg dst (regs m src) m"
| "exec_instr (Store src offset base) m = write_quad (regs m base + offset) (regs m src) m"
| "exec_instr (Load offset base dst) m = (case read_quad (regs m base + offset) m of (v, m) \<Rightarrow> set_reg dst v m)"
| "exec_instr (Sub_imm n dst) m = set_reg dst (regs m dst - n) m"
| "exec_instr (And_imm n dst) m = set_reg dst (regs m dst AND n) m"
| "exec_instr (Add_imm n dst) m = set_reg dst (regs m dst + n) m"
| "exec_instr (Push src) m = push (regs m src) m"
| "exec_instr (Push_imm n) m = push n m"
| "exec_instr (Pop dst) m = (case pop m of (v, m) \<Rightarrow> set_reg dst v m)"
| "exec_instr Ret m = (case pop m of (v, m) \<Rightarrow> m\<lparr>rip := v\<rparr>)"

definition exec_code :: "instr list \<Rightarrow> cpu \<Rightarrow> cpu" where
  "exec_code code m = fold exec_instr code m"

text \<open>A call with up to three arguments pushes the address to return to.\<close>

definition call3 :: "instr list \<Rightarrow> u64 \<Rightarrow> u64 \<Rightarrow> u64 \<Rightarrow> u64 \<Rightarrow> cpu \<Rightarrow> cpu" where
  "call3 code ret a b c m = exec_code code (push ret (set_reg RDX c (set_reg RSI b (set_reg RDI a m))))"

definition call2 :: "instr list \<Rightarrow> u64 \<Rightarrow> u64 \<Rightarrow> u64 \<Rightarrow> cpu \<Rightarrow> cpu" where
  "call2 code ret a b m = exec_code code (push ret (set_reg RSI b (set_reg RDI a m)))"

section \<open>The routines\<close>

definition sl_sim_context_setup :: "instr list" where
  "sl_sim_context_setup =
     [Mov RSP R11,
      Mov RDI RSP,
      Sub_imm 64 RSP,
      And_imm (- 16) RSP,
      Add_imm 8 RSP,
      Store RDX 8 RSP,
      Push RSI,
      Push_imm 0, Push_imm 0, Push_imm 0, Push_imm 0, Push_imm 0, Push_imm 0,
      Mov RSP RAX,
      Mov R11 RSP,
      Ret]"

definition sl_sim_context_switch :: "instr list" where
  "sl_sim_context_switch =
     [Push R15, Push R14, Push R13, Push R12, Push RBX, Push RBP,
      Store RSP 0 RDI,
      Load 0 RSI RSP,
      Pop RBP, Pop RBX, Pop R12, Pop R13, Pop R14, Pop R15,
      Ret]"

text \<open>
  \<open>machine_context::setup\<close>, called from where \<open>ret\<close> is, makes a context, its \<open>rsp_\<close>, for a stack and a
  trampoline; \<open>injection\<close> is the address of \<open>machine_injection\<close>. \<open>switch_to\<close> is given the addresses of the \<open>rsp_\<close> of both contexts.
\<close>

definition machine_context_setup :: "u64 \<Rightarrow> u64 \<Rightarrow> stack \<Rightarrow> u64 \<Rightarrow> cpu \<Rightarrow> u64 \<times> cpu" where
  "machine_context_setup injection ret a_stack trampoline m =
     (let stack = span_data (user_page a_stack) + span_size (user_page a_stack);
          m = call3 sl_sim_context_setup ret stack injection trampoline m
      in (regs m RAX, m))"

definition switch_to :: "u64 \<Rightarrow> u64 \<Rightarrow> u64 \<Rightarrow> cpu \<Rightarrow> cpu" where
  "switch_to ret this target m = call2 sl_sim_context_switch ret this target m"


section \<open>Saved and running contexts\<close>

record machine_state =
  st_rbp :: u64
  st_rbx :: u64
  st_r12 :: u64
  st_r13 :: u64
  st_r14 :: u64
  st_r15 :: u64
  st_rip :: u64
  st_rsp :: u64

text \<open>What the calling convention promises to the caller of a function, and where it is saved.\<close>

definition running_state :: "cpu \<Rightarrow> machine_state" where
  "running_state m = \<lparr>st_rbp = regs m RBP, st_rbx = regs m RBX, st_r12 = regs m R12, st_r13 = regs m R13,
     st_r14 = regs m R14, st_r15 = regs m R15, st_rip = rip m, st_rsp = regs m RSP\<rparr>"

definition saved_state :: "(u64 \<Rightarrow> u64) \<Rightarrow> u64 \<Rightarrow> machine_state" where
  "saved_state M s = \<lparr>st_rbp = M s, st_rbx = M (s + 8), st_r12 = M (s + 16), st_r13 = M (s + 24),
     st_r14 = M (s + 32), st_r15 = M (s + 40), st_rip = M (s + 48), st_rsp = s + 56\<rparr>"

definition state_words :: "u64 \<Rightarrow> u64 set" where
  "state_words s = {s, s + 8, s + 16, s + 24, s + 32, s + 40, s + 48}"

lemma set_reg_simps [simp]:
  "regs (set_reg r v m) r' = (if r' = r then v else regs m r')" "memory (set_reg r v m) = memory m" "rip (set_reg r v m) = rip m"
  by (simp_all add: set_reg_def)

lemma write_quad_simps [simp]:
  "regs (write_quad a v m) = regs m" "memory (write_quad a v m) = (memory m)(a := v)" "rip (write_quad a v m) = rip m"
  by (simp_all add: write_quad_def)

lemma push_simps [simp]:
  "regs (push v m) r = (if r = RSP then regs m RSP - 8 else regs m r)"
  "memory (push v m) = (memory m)(regs m RSP - 8 := v)" "rip (push v m) = rip m"
  by (simp_all add: push_def Let_def)

lemma pop_simps [simp]:
  "fst (pop m) = memory m (regs m RSP)" "regs (snd (pop m)) r = (if r = RSP then regs m RSP + 8 else regs m r)"
  "memory (snd (pop m)) = memory m" "rip (snd (pop m)) = rip m"
  by (simp_all add: pop_def read_quad_def)

lemma exec_simps [simp]:
  "exec_code [] m = m" "exec_code (i # is) m = exec_code is (exec_instr i m)"
  "exec_instr (Load n base dst) m = set_reg dst (memory m (regs m base + n)) (snd (read_quad (regs m base + n) m))"
  "exec_instr (Pop dst) m = set_reg dst (fst (pop m)) (snd (pop m))"
  "exec_instr Ret m = (snd (pop m))\<lparr>rip := fst (pop m)\<rparr>"
  by (simp_all add: exec_code_def read_quad_def split_beta)

lemma read_quad_simps [simp]:
  "regs (snd (read_quad a m)) = regs m" "memory (snd (read_quad a m)) = memory m" "rip (snd (read_quad a m)) = rip m"
  by (simp_all add: read_quad_def)

declare exec_instr.simps(3,9,10) [simp del]

section \<open>The switch\<close>

text \<open>The words a switch pushes below the stack pointer, the return address among them.\<close>

definition switch_words :: "u64 \<Rightarrow> u64 set" where
  "switch_words sp = state_words (sp - 56)"

lemma switch_words_eq: "switch_words sp = {sp - 56, sp - 48, sp - 40, sp - 32, sp - 24, sp - 16, sp - 8}"
  by (simp add: switch_words_def state_words_def)

text \<open>The memory when the stack pointer has been saved.\<close>

definition switched_memory :: "u64 \<Rightarrow> u64 \<Rightarrow> cpu \<Rightarrow> u64 \<Rightarrow> u64" where
  "switched_memory ret this m =
     (let sp = regs m RSP
      in (memory m)(sp - 8 := ret, sp - 16 := regs m R15, sp - 24 := regs m R14, sp - 32 := regs m R13,
           sp - 40 := regs m R12, sp - 48 := regs m RBX, sp - 56 := regs m RBP, this := sp - 56))"

lemma switch_effect:
  "memory (switch_to ret this target m) = switched_memory ret this m"
  "running_state (switch_to ret this target m) = saved_state (switched_memory ret this m) (switched_memory ret this m target)"
  by (simp_all add: switch_to_def sl_sim_context_switch_def call2_def switched_memory_def running_state_def saved_state_def
      diff_diff_eq add.assoc Let_def del: fun_upd_apply)

lemma switched_memory_other:
  "a \<notin> insert this (switch_words (regs m RSP)) \<Longrightarrow> switched_memory ret this m a = memory m a"
  by (simp add: switched_memory_def switch_words_eq Let_def)

lemma saved_state_cong: "(\<And>a. a \<in> state_words s \<Longrightarrow> M a = M' a) \<Longrightarrow> saved_state M s = saved_state M' s"
  by (simp add: saved_state_def state_words_def)

lemma switched_memory_saved:
  assumes "this \<notin> switch_words (regs m RSP)"
  shows "saved_state (switched_memory ret this m) (regs m RSP - 56) = (running_state m)\<lparr>st_rip := ret\<rparr>"
proof -
  let ?sp = "regs m RSP"
  have "?sp - 56 \<noteq> this" "?sp - 48 \<noteq> this" "?sp - 40 \<noteq> this" "?sp - 32 \<noteq> this" "?sp - 24 \<noteq> this" "?sp - 16 \<noteq> this" "?sp - 8 \<noteq> this"
    using assms by (auto simp: switch_words_eq)
  then show ?thesis by (simp add: saved_state_def switched_memory_def running_state_def Let_def)
qed

section \<open>Alignment\<close>

lemma and_7_iff: "(a :: u64) AND 7 = 0 \<longleftrightarrow> unat a mod 8 = 0"
proof -
  have "(7 :: u64) = mask 3" by (simp add: mask_eq_exp_minus_1)
  then have "unat (a AND 7) = unat a mod 8" using unat_and_mask [of a 3] by simp
  then show ?thesis by (metis unat_eq_zero)
qed

lemma aligned8:
  fixes a :: u64
  assumes "a AND 7 = 0"
  shows "(a - 8) AND 7 = 0" "(a + 8) AND 7 = 0"
proof -
  have add: "(a + b) AND 7 = 0" if "unat b mod 8 = 0" for b :: u64
  proof -
    have "unat (a + b) mod 8 = (unat a + unat b) mod 8"
      by (simp add: unat_word_ariths mod_mod_cancel)
    also have "\<dots> = 0" using assms that by (simp add: and_7_iff mod_eq_0_iff_dvd)
    finally show ?thesis by (simp only: and_7_iff)
  qed
  show "(a + 8) AND 7 = 0" by (rule add) simp
  have "unat (- 8 :: u64) mod 8 = 0" by simp
  from add [OF this] show "(a - 8) AND 7 = 0" by simp
qed

definition aligned :: "cpu \<Rightarrow> bool" where
  "aligned m \<longleftrightarrow> \<not> misaligned m \<and> regs m RSP AND 7 = 0"

lemma aligned_steps:
  "aligned m \<Longrightarrow> aligned (push v m)"
  "aligned m \<Longrightarrow> aligned (snd (pop m))"
  "aligned m \<Longrightarrow> r \<noteq> RSP \<Longrightarrow> aligned (set_reg r v m)"
  "aligned m \<Longrightarrow> a AND 7 = 0 \<Longrightarrow> aligned (write_quad a v m)"
  "aligned m \<Longrightarrow> aligned (m\<lparr>rip := i\<rparr>)"
  by (simp_all add: aligned_def push_def pop_def read_quad_def write_quad_def set_reg_def Let_def aligned8)

lemma aligned_other: "aligned m \<Longrightarrow> a AND 7 = 0 \<Longrightarrow> aligned (snd (read_quad a m))"
  by (simp add: aligned_def read_quad_def)

lemma aligned_sp: "\<not> misaligned m \<Longrightarrow> s AND 7 = 0 \<Longrightarrow> aligned (set_reg RSP s m)"
  by (simp add: aligned_def set_reg_def)

lemma switch_aligned:
  assumes "aligned m" "this AND 7 = 0" "target AND 7 = 0" "switched_memory ret this m target AND 7 = 0"
  shows "aligned (switch_to ret this target m)"
proof -
  let ?regs = "push ret (set_reg RSI target (set_reg RDI this m))"
  let ?m1 = "exec_code [Push R15, Push R14, Push R13, Push R12, Push RBX, Push RBP, Store RSP 0 RDI] ?regs"
  let ?m2 = "exec_instr (Load 0 RSI RSP) ?m1"
  have 1: "aligned ?m1" "memory ?m1 = switched_memory ret this m" "regs ?m1 RSI = target"
    using assms(1,2) by (simp_all add: aligned_steps switched_memory_def diff_diff_eq Let_def del: fun_upd_apply)
  then have 2: "aligned ?m2" using assms(3,4) by (simp add: aligned_def read_quad_def set_reg_def)
  have "switch_to ret this target m = exec_code [Pop RBP, Pop RBX, Pop R12, Pop R13, Pop R14, Pop R15, Ret] ?m2"
    unfolding switch_to_def call2_def sl_sim_context_switch_def by (simp only: exec_simps(1,2))
  then show ?thesis using 2 by (simp add: aligned_steps del: fun_upd_apply)
qed

text \<open>What a switch does to registers and memory, if the words involved are apart.\<close>

definition apart :: "u64 \<Rightarrow> u64 \<Rightarrow> cpu \<Rightarrow> bool" where
  "apart this target m \<longleftrightarrow> this \<noteq> target \<and> this \<notin> switch_words (regs m RSP) \<and> target \<notin> switch_words (regs m RSP) \<and>
     state_words (memory m target) \<inter> insert this (switch_words (regs m RSP)) = {}"

lemma switch_apart:
  assumes "apart this target m"
  shows "running_state (switch_to ret this target m) = saved_state (memory m) (memory m target)"
    "memory (switch_to ret this target m) this = regs m RSP - 56"
    "saved_state (memory (switch_to ret this target m)) (regs m RSP - 56) = (running_state m)\<lparr>st_rip := ret\<rparr>"
    "a \<notin> insert this (switch_words (regs m RSP)) \<Longrightarrow> memory (switch_to ret this target m) a = memory m a"
    "\<lbrakk>aligned m; this AND 7 = 0; target AND 7 = 0; memory m target AND 7 = 0\<rbrakk> \<Longrightarrow> aligned (switch_to ret this target m)"
proof -
  have t: "switched_memory ret this m target = memory m target"
    using assms by (intro switched_memory_other) (auto simp: apart_def)
  have "saved_state (switched_memory ret this m) (memory m target) = saved_state (memory m) (memory m target)"
    using assms by (intro saved_state_cong switched_memory_other) (auto simp: apart_def)
  then show "running_state (switch_to ret this target m) = saved_state (memory m) (memory m target)"
    by (simp add: switch_effect t)
  show "memory (switch_to ret this target m) this = regs m RSP - 56"
    by (simp add: switch_effect switched_memory_def Let_def)
  show "saved_state (memory (switch_to ret this target m)) (regs m RSP - 56) = (running_state m)\<lparr>st_rip := ret\<rparr>"
    using assms by (simp add: switch_effect apart_def switched_memory_saved)
  show "a \<notin> insert this (switch_words (regs m RSP)) \<Longrightarrow> memory (switch_to ret this target m) a = memory m a"
    by (simp add: switch_effect switched_memory_other)
  show "\<lbrakk>aligned m; this AND 7 = 0; target AND 7 = 0; memory m target AND 7 = 0\<rbrakk> \<Longrightarrow> aligned (switch_to ret this target m)"
    by (intro switch_aligned) (simp_all add: t)
qed

section \<open>The setup\<close>

definition stack_base :: "u64 \<Rightarrow> u64" where
  "stack_base highest = (highest - 64) AND - 16"


definition setup_memory :: "u64 \<Rightarrow> u64 \<Rightarrow> u64 \<Rightarrow> u64 \<Rightarrow> cpu \<Rightarrow> u64 \<Rightarrow> u64" where
  "setup_memory ret base injection trampoline m =
     (memory m)(regs m RSP - 8 := ret, base + 16 := trampoline, base := injection, base - 8 := 0, base - 16 := 0,
       base - 24 := 0, base - 32 := 0, base - 40 := 0, base - 48 := 0)"

lemma setup_effect:
  fixes ret injection a_stack trampoline m
  defines "base \<equiv> stack_base (span_data (user_page a_stack) + span_size (user_page a_stack))"
    and "m' \<equiv> snd (machine_context_setup injection ret a_stack trampoline m)"
  shows "fst (machine_context_setup injection ret a_stack trampoline m) = base - 48"
    "memory m' = setup_memory ret base injection trampoline m"
    "running_state m' = (running_state m)\<lparr>st_rip := memory m' (regs m RSP - 8)\<rparr>"
  by (simp_all add: base_def m'_def machine_context_setup_def call3_def sl_sim_context_setup_def setup_memory_def stack_base_def
      running_state_def diff_diff_eq add.commute [of "16 :: u64"] Let_def del: fun_upd_apply)




section \<open>Properties\<close>

text \<open>The contexts a program has set up or left, by the address of their \<open>rsp_\<close>.\<close>

definition context_at :: "cpu \<Rightarrow> u64 \<Rightarrow> machine_state" where
  "context_at m c = saved_state (memory m) (memory m c)"

text \<open>
  Switching contexts is an exchange of machine states. Seen through the registers a function must preserve, the
  stack pointer and the address it returns to, \<open>switch_to\<close> saves the running state, to go on after the call, in the
  context it is called on and resumes the state saved in its target; every other context, in words apart from
  the caller's stack below its stack pointer, stays what it was, and so does the rest of the memory. Memory is
  accessed at aligned addresses only, if it was before and the saved stack pointer is aligned.
\<close>

theorem context_switch_refines:
  assumes "apart this target m"
  shows "running_state (switch_to ret this target m) = context_at m target \<and>
    context_at (switch_to ret this target m) this = (running_state m)\<lparr>st_rip := ret\<rparr> \<and>
    (\<forall>c. insert c (state_words (memory m c)) \<inter> insert this (switch_words (regs m RSP)) = {} \<longrightarrow>
       context_at (switch_to ret this target m) c = context_at m c) \<and>
    (\<forall>a. a \<notin> insert this (switch_words (regs m RSP)) \<longrightarrow> memory (switch_to ret this target m) a = memory m a) \<and>
    (aligned m \<longrightarrow> this AND 7 = 0 \<longrightarrow> target AND 7 = 0 \<longrightarrow> memory m target AND 7 = 0 \<longrightarrow> aligned (switch_to ret this target m))"
proof -
  note sw = switch_apart [OF assms, where ret = ret]
  have "context_at (switch_to ret this target m) c = context_at m c"
    if c: "insert c (state_words (memory m c)) \<inter> insert this (switch_words (regs m RSP)) = {}" for c
  proof -
    have "memory (switch_to ret this target m) c = memory m c" using c by (intro sw(4)) auto
    moreover have "saved_state (memory (switch_to ret this target m)) (memory m c) = saved_state (memory m) (memory m c)"
      using c by (intro saved_state_cong sw(4)) auto
    ultimately show ?thesis by (simp add: context_at_def)
  qed
  then show ?thesis using sw by (simp add: context_at_def)
qed


section \<open>Examples\<close>

text \<open>
  A stack of one page at 4096 with its protected page at 0, a caller with its stack below 65536, and the
  contexts of caller and callee at 32768 and 32776.
\<close>

definition ex_sim_stack :: stack where
  "ex_sim_stack = \<lparr>stack_mem = \<lparr>span_data = 0, span_size = 8192\<rparr>, prot_offset = 4096\<rparr>"

definition ex_cpu :: cpu where
  "ex_cpu = \<lparr>regs = (\<lambda>r. if r = RSP then 65536 else 7), memory = (\<lambda>_. 0), rip = 0, misaligned = False\<rparr>"

definition ex_cpu_1 :: cpu where
  "ex_cpu_1 = snd (machine_context_setup 100 200 ex_sim_stack 300 ex_cpu)"

definition ex_cpu_2 :: cpu where
  "ex_cpu_2 = ex_cpu_1\<lparr>memory := (memory ex_cpu_1)(32776 := 8080)\<rparr>"

definition ex_cpu_3 :: cpu where
  "ex_cpu_3 = switch_to 400 32768 32776 ex_cpu_2"

lemma ex_base: "stack_base (span_data (user_page ex_sim_stack) + span_size (user_page ex_sim_stack)) = 8128"
  by (simp add: ex_sim_stack_def user_page_def stack_base_def)

lemma ex_cpu_1_facts:
  "machine_context_setup 100 200 ex_sim_stack 300 ex_cpu = (8080, ex_cpu_1)" "regs ex_cpu_1 RSP = 65536"
  using setup_effect [of 100 200 ex_sim_stack 300 ex_cpu]
  by (simp_all add: ex_base ex_cpu_1_def prod_eq_iff running_state_def ex_cpu_def)

lemma ex_cpu_2_apart: "apart 32768 32776 ex_cpu_2" "regs ex_cpu_2 RSP = 65536" "memory ex_cpu_2 32776 = 8080"
  by (simp_all add: apart_def ex_cpu_2_def ex_cpu_1_facts switch_words_eq state_words_def)


theorem context_switch_refines_witness:
  "running_state ex_cpu_3 = context_at ex_cpu_2 32776 \<and> context_at ex_cpu_3 32768 = (running_state ex_cpu_2)\<lparr>st_rip := 400\<rparr>"
  using context_switch_refines [OF ex_cpu_2_apart(1), of 400] by (simp add: ex_cpu_3_def)


end
