(* ===== verification/Sim_Context_Arm.thy ===== *)
theory Sim_Context_Arm
  imports Sim_Context
begin

unbundle bit_operations_syntax

text \<open>
  The routines of \<^verbatim>\<open>src/sim/machine/context_impl_arm.S\<close>, for AArch64, in the manner of \<open>Sim_Context\<close>. The stack
  pointer has to be divisible by 16 wherever memory is accessed through it; an access where it is not is
  recorded. A call leaves its return address in \<open>x30\<close>.
\<close>

section \<open>The machine\<close>

datatype arm_reg = X nat | D nat | SP

datatype arm_instr =
  Mov_reg arm_reg arm_reg
| Mov_imm arm_reg u64
| Sub_reg arm_reg arm_reg u64
| Add_reg arm_reg arm_reg u64
| And_reg arm_reg arm_reg u64
| Str_pre arm_reg u64
| Stp_pre arm_reg arm_reg u64
| Ldp_post arm_reg arm_reg u64
| Str arm_reg arm_reg
| Ldr arm_reg arm_reg
| Ret_arm

record arm_cpu =
  arm_regs :: "arm_reg \<Rightarrow> u64"
  arm_memory :: "u64 \<Rightarrow> u64"
  arm_pc :: u64
  arm_misaligned :: bool

text \<open>
  Operands as in the source: the destination comes first, save in stores. \<open>Str_pre\<close> and \<open>Stp_pre\<close> move the stack pointer down
  first, \<open>Ldp_post\<close> moves it up afterwards.
\<close>

definition arm_set :: "arm_reg \<Rightarrow> u64 \<Rightarrow> arm_cpu \<Rightarrow> arm_cpu" where
  "arm_set r v m = m\<lparr>arm_regs := (arm_regs m)(r := v)\<rparr>"

definition arm_write :: "u64 \<Rightarrow> u64 \<Rightarrow> arm_cpu \<Rightarrow> arm_cpu" where
  "arm_write a v m = m\<lparr>arm_memory := (arm_memory m)(a := v)\<rparr>"

definition arm_check :: "u64 \<Rightarrow> u64 \<Rightarrow> arm_cpu \<Rightarrow> arm_cpu" where
  "arm_check bits a m = m\<lparr>arm_misaligned := arm_misaligned m \<or> a AND bits \<noteq> 0\<rparr>"

primrec arm_exec :: "arm_instr \<Rightarrow> arm_cpu \<Rightarrow> arm_cpu" where
  "arm_exec (Mov_reg dst src) m = arm_set dst (arm_regs m src) m"
| "arm_exec (Mov_imm dst n) m = arm_set dst n m"
| "arm_exec (Sub_reg dst src n) m = arm_set dst (arm_regs m src - n) m"
| "arm_exec (Add_reg dst src n) m = arm_set dst (arm_regs m src + n) m"
| "arm_exec (And_reg dst src n) m = arm_set dst (arm_regs m src AND n) m"
| "arm_exec (Str_pre r n) m = (let sp = arm_regs m SP - n in arm_check 15 sp (arm_write sp (arm_regs m r) (arm_set SP sp m)))"
| "arm_exec (Stp_pre r r' n) m = (let sp = arm_regs m SP - n in
     arm_check 15 sp (arm_write (sp + 8) (arm_regs m r') (arm_write sp (arm_regs m r) (arm_set SP sp m))))"
| "arm_exec (Ldp_post r r' n) m = (let sp = arm_regs m SP in
     arm_check 15 sp (arm_set SP (sp + n) (arm_set r' (arm_memory m (sp + 8)) (arm_set r (arm_memory m sp) m))))"
| "arm_exec (Str r base) m = arm_check 7 (arm_regs m base) (arm_write (arm_regs m base) (arm_regs m r) m)"
| "arm_exec (Ldr r base) m = arm_check 7 (arm_regs m base) (arm_set r (arm_memory m (arm_regs m base)) m)"
| "arm_exec Ret_arm m = m\<lparr>arm_pc := arm_regs m (X 30)\<rparr>"

definition arm_code :: "arm_instr list \<Rightarrow> arm_cpu \<Rightarrow> arm_cpu" where
  "arm_code code m = fold arm_exec code m"


section \<open>The routines\<close>






section \<open>Saved and running contexts\<close>








lemma arm_simps [simp]:
  "arm_regs (arm_set r v m) r' = (if r' = r then v else arm_regs m r')" "arm_memory (arm_set r v m) = arm_memory m"
  "arm_pc (arm_set r v m) = arm_pc m" "arm_regs (arm_write a v m) = arm_regs m"
  "arm_memory (arm_write a v m) = (arm_memory m)(a := v)" "arm_pc (arm_write a v m) = arm_pc m"
  "arm_regs (arm_check b a m) = arm_regs m" "arm_memory (arm_check b a m) = arm_memory m" "arm_pc (arm_check b a m) = arm_pc m"
  by (simp_all add: arm_set_def arm_write_def arm_check_def)

lemma arm_code_simps [simp]: "arm_code [] m = m" "arm_code (i # is) m = arm_code is (arm_exec i m)"
  by (simp_all add: arm_code_def)


section \<open>The switch\<close>
















section \<open>What both machines have in common\<close>

text \<open>
  A machine that saves the running state below its stack pointer, in \<open>frame\<close> bytes, and resumes a saved one.
\<close>

locale context_machine =
  fixes mem :: "'m \<Rightarrow> u64 \<Rightarrow> u64" and sp :: "'m \<Rightarrow> u64" and running :: "'m \<Rightarrow> 's" and saved :: "(u64 \<Rightarrow> u64) \<Rightarrow> u64 \<Rightarrow> 's"
    and go_on :: "u64 \<Rightarrow> 's \<Rightarrow> 's" and words :: "u64 \<Rightarrow> u64 set" and frame :: u64
    and switch :: "u64 \<Rightarrow> u64 \<Rightarrow> u64 \<Rightarrow> 'm \<Rightarrow> 'm"
  assumes saved_by_words: "(\<And>a. a \<in> words s \<Longrightarrow> M a = M' a) \<Longrightarrow> saved M s = saved M' s"
    and switch_resumes: "running (switch ret this target m) = saved (mem (switch ret this target m)) (mem (switch ret this target m) target)"
    and switch_this: "mem (switch ret this target m) this = sp m - frame"
    and switch_other: "a \<notin> insert this (words (sp m - frame)) \<Longrightarrow> mem (switch ret this target m) a = mem m a"
    and switch_saves: "this \<notin> words (sp m - frame) \<Longrightarrow> saved (mem (switch ret this target m)) (sp m - frame) = go_on ret (running m)"
begin

lemma exchange:
  assumes "target \<noteq> this" "this \<notin> words (sp m - frame)" "target \<notin> words (sp m - frame)"
    "words (mem m target) \<inter> insert this (words (sp m - frame)) = {}"
  shows "running (switch ret this target m) = saved (mem m) (mem m target)"
    "saved (mem (switch ret this target m)) (mem (switch ret this target m) this) = go_on ret (running m)"
proof -
  have t: "mem (switch ret this target m) target = mem m target" using assms by (intro switch_other) auto
  have "saved (mem (switch ret this target m)) (mem m target) = saved (mem m) (mem m target)"
    using assms(4) by (intro saved_by_words switch_other) auto
  then show "running (switch ret this target m) = saved (mem m) (mem m target)" by (simp add: switch_resumes t)
  show "saved (mem (switch ret this target m)) (mem (switch ret this target m) this) = go_on ret (running m)"
    using switch_saves [OF assms(2)] by (simp add: switch_this)
qed

lemma other_context:
  assumes "insert c (words (mem m c)) \<inter> insert this (words (sp m - frame)) = {}"
  shows "saved (mem (switch ret this target m)) (mem (switch ret this target m) c) = saved (mem m) (mem m c)"
proof -
  have "mem (switch ret this target m) c = mem m c" using assms by (intro switch_other) auto
  moreover have "saved (mem (switch ret this target m)) (mem m c) = saved (mem m) (mem m c)"
    using assms by (intro saved_by_words switch_other) auto
  ultimately show ?thesis by simp
qed

lemma there_and_back:
  assumes "this \<notin> words (sp m - frame)"
    and "\<forall>a\<in>insert this (words (sp m - frame)). mem m' a = mem (switch ret this target m) a"
    and "this \<noteq> target" "target \<notin> words (sp m' - frame)" "this \<notin> words (sp m' - frame)"
    and "words (mem m' this) \<inter> insert target (words (sp m' - frame)) = {}"
  shows "running (switch ret' target this m') = go_on ret (running m)"
proof -
  have "mem m' this = sp m - frame" using assms(2) switch_this by simp
  moreover have "saved (mem m') (sp m - frame) = saved (mem (switch ret this target m)) (sp m - frame)"
    using assms(2) by (intro saved_by_words) simp
  ultimately show ?thesis using exchange(1) [OF assms(3-6), of ret'] switch_saves [OF assms(1)] by simp
qed

end

interpretation x86: context_machine memory "\<lambda>m. regs m RSP" running_state saved_state "\<lambda>ret s. s\<lparr>st_rip := ret\<rparr>" state_words 56 switch_to
proof
  fix ret this target a s :: u64 and m M M'
  show "(\<And>a. a \<in> state_words s \<Longrightarrow> M a = M' a) \<Longrightarrow> saved_state M s = saved_state M' s"
    by (rule saved_state_cong)
  show "memory (switch_to ret this target m) this = regs m RSP - 56"
    by (simp add: switch_effect switched_memory_def Let_def)
  show "a \<notin> insert this (state_words (regs m RSP - 56)) \<Longrightarrow> memory (switch_to ret this target m) a = memory m a"
    by (simp add: switch_effect switched_memory_other switch_words_def)
  show "this \<notin> state_words (regs m RSP - 56) \<Longrightarrow>
      saved_state (memory (switch_to ret this target m)) (regs m RSP - 56) = (running_state m)\<lparr>st_rip := ret\<rparr>"
    by (simp add: switch_effect(1) switched_memory_saved switch_words_def)
qed (simp only: switch_effect)


section \<open>The setup\<close>









section \<open>Alignment\<close>








section \<open>Properties\<close>




section \<open>Examples\<close>









end
