(* ===== verification/Spec2Isabelle.thy ===== *)
theory Spec2Isabelle
  imports Mw_Seqlock Mw_Kcas_Dead Mw_Dcss_Linear Channel_Properties Strand Cancel_Handles Pipelines Force Share
    Thread_Pool Events Manual_Executor Async_Mutex Arc Coroutine_Calls Async_Generator Sim_Context_Arm
begin

text \<open>
  serious-execution-library (\<^verbatim>\<open>sl::exec\<close>, under \<^verbatim>\<open>src/\<close>) is a C++ library of lazy asynchronous
  computations. A signal is subscribed to a slot, which gives a connection; emitting the connection
  makes the slot receive, once, a value, an error or null. Transformations put a slot of their own in
  between, consumers end a chain, executors run the tasks in which work happens; several connections
  compete in \<open>all\<close>, \<open>any\<close> and \<open>select\<close>, meet in channels, or share a result. Below that are lock-free
  and blocking structures: a multiword compare-and-swap, a stack, a blocking queue, events.

  Paths are relative to \<^verbatim>\<open>include/sl/exec/\<close>; the sources of the same names are under \<^verbatim>\<open>src/\<close>.

  \<^bold>\<open>Foundations.\<close> \<open>Sl_Prelude\<close> has the types \<open>maybe\<close> and \<open>result\<close>, the collections of simplification
  rules, and the lemmas on words, sums and counting agents that the components share. \<open>Atomic_Prog\<close>
  has programs over shared memory, one node per atomic access, run alone or with interference before
  each access. \<open>Intrusive_List\<close> states what the intrusive lists of the sister library \<^verbatim>\<open>sl::meta\<close> do, as
  a record of operations with laws; every theorem that needs them has the laws as a hypothesis.
  \<open>Slot_Model\<close> is \<^verbatim>\<open>model/slot.hpp\<close>.

  \<^bold>\<open>Multiword compare-and-swap\<close> (\<^verbatim>\<open>thread/detail/multiword*.{hpp,cpp}\<close>, \<^verbatim>\<open>bits.hpp\<close>, \<^verbatim>\<open>tagged_ptr.hpp\<close>).
  \<open>Mw_Traits\<close>: packed words, with their round trips. \<open>Mw_Descriptor\<close>: reusable descriptors, one per
  thread, in a pool (locale \<open>descriptor_pool\<close>, interpreted for both pools in \<open>Mw_Memory\<close>). \<open>Mw_Dcss\<close>,
  \<open>Mw_Kcas\<close>: the operations; an undisturbed one terminates and is an atomic step. \<open>Mw_Seqlock\<close>: what a
  reader of a descriptor sees while its owner reuses it. \<open>Mw_Kcas_Order\<close>: two operations on the same
  words in opposite orders need not end. \<open>Mw_Dcss_Stuck\<close>: a word lost by a spurious failure.
  \<open>Mw_Kcas_Dead\<close>: a word lost by a helper that is too late.
  \<open>Rely_History\<close>, \<open>Mw_Dcss_Race\<close>, \<open>Mw_Dcss_Linear\<close>: dcss by any number of threads, every access interleaved and descriptors reused, is
  linearizable; a rely-guarantee argument on the history of the memory.

  \<^bold>\<open>Channels\<close> (\<^verbatim>\<open>algo/sync/channel.hpp\<close>). \<open>Channel\<close> has the operations, each under the channel's mutex
  and hence one step, except for the words of selects, which other threads may set at any time.
  \<open>Channel_Steps\<close> gives the outcomes of an operation over abstract queues, \<open>Channel_History\<close> the
  invariants of any history, \<open>Channel_Properties\<close> the theorems: each node is called back once, values
  are neither lost nor duplicated nor reordered, a select is claimed once, operations return, what
  closing does.

  \<^bold>\<open>Serial execution\<close> (\<^verbatim>\<open>thread/detail/lock_free_stack.hpp\<close>, \<^verbatim>\<open>algo/sync/serial.hpp\<close>). \<open>Lf_Stack\<close>: push and
  extract are atomic under interference. \<open>Serial_Executor\<close>: any number of threads push tasks on a
  strand, which runs them one at a time in order, wakes up when there is work, and drains. \<open>Strand\<close>: the same with
  the stack as the memory it is, every access to it interleaved; it refines \<open>Serial_Executor\<close> and still drains.

  \<^bold>\<open>Competing connections\<close> (\<^verbatim>\<open>algo/sync/detail/parallel.hpp\<close>, \<^verbatim>\<open>algo/sync/select.hpp\<close>,
  \<^verbatim>\<open>algo/tf/par/{all,any}.hpp\<close>). \<open>Parallel\<close>: the object that owns the connections, its tasks, and the
  interleavings of the threads that answer. \<open>Parallel_Client\<close>, \<open>Parallel_Answers\<close> and \<open>Parallel_Runs\<close>:
  the locale \<open>parallel_client\<close>, the contract between that object and the callbacks of its three
  clients, with the invariant and the theorems all three share. \<open>Select\<close> and \<open>All_Any\<close> define the
  callbacks and interpret the locale on them. \<open>Par_Builders\<close>: how the three are put together from signals, those of
  channels among them, what the constraints of the templates guarantee, and a select over channels as a whole. \<open>Cancel_Handles\<close>
  (\<^verbatim>\<open>model/connection.hpp\<close>): which cancel handle, ordering and word of a select reach a channel through
  transformations and boxes, and what that means for the losers of a select.

  \<^bold>\<open>Signals\<close> (\<^verbatim>\<open>algo/make/*.hpp\<close>, \<^verbatim>\<open>algo/sched/on.hpp\<close>, \<^verbatim>\<open>algo/tf/seq/*.hpp\<close>, \<^verbatim>\<open>algo/tf/type/*.hpp\<close>,
  \<^verbatim>\<open>algo/emit/{get,detach,subscribe}.hpp\<close>, \<^verbatim>\<open>model/{executor,syntax}.hpp\<close>). \<open>Signals\<close> has each
  transformation as a function on signals, a signal being its executor and what emitting does to a
  slot. \<open>Pipelines\<close> compares chains of them with a reference function on results.

  \<^bold>\<open>Shared state of signals\<close> (\<^verbatim>\<open>algo/emit/{force,share}.hpp\<close>, \<^verbatim>\<open>algo/make/contract.hpp\<close>,
  \<^verbatim>\<open>algo/tf/par/fork.hpp\<close>). \<open>Force\<close>: one producer and one consumer meet in a heap-allocated storage.
  \<open>Share\<close>: any number of handles with counted references and a lock-free list of callbacks.

  \<^bold>\<open>Threads\<close> (\<^verbatim>\<open>thread/pool/*\<close>, \<^verbatim>\<open>thread/detail/unbound_blocking_queue.hpp\<close>, \<^verbatim>\<open>thread/sync/wait_group.hpp\<close>,
  \<^verbatim>\<open>thread/event/*.hpp\<close>). \<open>Thread_Pool\<close>: workers, queue, counter and configuration. \<open>Events\<close>: setting
  and waiting.

  \<^bold>\<open>Executors and handles.\<close> \<open>Manual_Executor\<close> (\<^verbatim>\<open>algo/sched/manual.hpp\<close>): tasks run by their owner, in batches or a
  bounded number of them. \<open>Async_Mutex\<close> (\<^verbatim>\<open>algo/sync/mutex.hpp\<close>): the signal of a lock that continues on a strand,
  and what the strand excludes. \<open>Arc\<close> (\<^verbatim>\<open>thread/detail/arc.hpp\<close>): counted handles of one storage.

  \<^bold>\<open>Coroutines\<close> (\<^verbatim>\<open>coro/*.hpp\<close>, \<^verbatim>\<open>coro/async.cpp\<close>). \<open>Generator\<close> and \<open>Async_Generator\<close>: a coroutine body as the
  sequence of its suspensions, and the loops over what it yields. \<open>Coroutine\<close>: bodies that await coroutines and
  signals, frames with their continuation and result, and one micro-step of a running frame. \<open>Coroutine_Safety\<close>: what holds of all
  frames in every interleaving of threads, slots and executors. \<open>Coroutine_Calls\<close>: one chain of coroutines
  compared with the evaluation in which awaiting is calling, and coroutines used as signals.

  \<^bold>\<open>Stackful coroutines\<close> (\<^verbatim>\<open>sim/*\<close>). \<open>Sim_Stack\<close>: stacks from \<open>mmap\<close> and \<open>malloc\<close>, over system calls that are a parameter.
  \<open>Sim_Context\<close> and \<open>Sim_Context_Arm\<close>: the assembler routines for x86-64 and AArch64 as instruction lists, and what
  switching contexts does to the machine state; the locale \<open>context_machine\<close> holds what both have in common.

  \<^bold>\<open>Conventions.\<close> Machine integers are words of their width; 64-bit target. Memory is sequentially
  consistent; the memory orders of the sources are not modelled. Weak compare-exchanges may fail
  spuriously. Sections under a mutex are one step; waiting on a condition variable may end spuriously.
  \<open>DEBUG_ASSERT\<close> and \<open>ASSERT\<close> end a program with \<open>Assertion_failed\<close> or set a flag of the state, and
  the theorems say that this does not happen; in \<open>Channel\<close> they can be switched off. Objects freed by
  the code are counted, and a flag records accesses after that. Steps that belong to clients or to the
  memory (a spurious failure, a scheduled task) are marked, and bounds on the length of runs are for
  the other steps.

  \<^bold>\<open>Fuel and bounds.\<close> The loops of dcss, kcas, push, extract, and of a channel operation carry fuel.
  \<open>kcas_atomic\<close> states how much suffices for an undisturbed kcas; a channel operation needs more fuel
  than the opposite queue has nodes; the stack needs one unit more than the failures that occur.
  In \<open>Mw_Dcss_Race\<close> a thread whose fuel runs out stops for ever in the middle, which the other threads tolerate; sequence
  numbers must not wrap around, a condition on the number of calls. \<open>Strand\<close> has no fuel: its retries are steps, and spurious failures are a finite list.
  Counters of 32 bits are shown not to wrap around while fewer than \<open>2\<^sup>3\<^sup>2\<close> items are counted, which
  is a hypothesis or a guard of the step relation where it matters.

  The machine that runs a chain of coroutines takes a number of rounds; \<open>coroutine_runs_like_calls\<close> states that some
  number suffices, and that more change nothing.

  \<^bold>\<open>Not modelled.\<close> The headers that only include others, the concepts, and the aliases of the standard primitives have no
  behaviour. Destruction of values, moves and allocation failure are left out throughout.
\<close>

end
